theory Spec2Isabelle
  imports Main "HOL-Library.Char_ord" "HOL-Library.List_Lexorder"
begin

section \<open>Strings\<close>

text \<open>
  A JavaScript string is modelled as a \<^typ>\<open>string\<close>, one \<^typ>\<open>char\<close> per code point
  below 256. The loops of the source that iterate \<^verbatim>\<open>for (const ch of s)\<close> become
  recursion on the list.
\<close>

abbreviation BSL :: char where "BSL \<equiv> CHR 0x5C"
abbreviation LF :: char where "LF \<equiv> CHR 0x0A"
abbreviation TAB :: char where "TAB \<equiv> CHR 0x09"
abbreviation CR :: char where "CR \<equiv> CHR 0x0D"

text \<open>\<^verbatim>\<open>String.prototype.trim\<close>: the white space and line terminators below 256.\<close>

definition isSpace :: "char \<Rightarrow> bool" where
  "isSpace c = (c = CHR 0x20 \<or> c = TAB \<or> c = LF \<or> c = CHR 0x0B \<or> c = CHR 0x0C
                \<or> c = CR \<or> c = CHR 0xA0)"

definition trimStart :: "string \<Rightarrow> string" where
  "trimStart s = dropWhile isSpace s"

definition trimEnd :: "string \<Rightarrow> string" where
  "trimEnd s = rev (dropWhile isSpace (rev s))"

definition trim :: "string \<Rightarrow> string" where
  "trim s = trimEnd (trimStart s)"

definition startsWith :: "string \<Rightarrow> string \<Rightarrow> bool" where
  "startsWith s p = (take (length p) s = p)"

definition endsWith :: "string \<Rightarrow> string \<Rightarrow> bool" where
  "endsWith s p = (length p \<le> length s \<and> drop (length s - length p) s = p)"

definition includesChar :: "string \<Rightarrow> char \<Rightarrow> bool" where
  "includesChar s c = (c \<in> set s)"

text \<open>\<^verbatim>\<open>s.split(c)\<close> for a one-character separator: never an empty list.\<close>

fun splitOn :: "char \<Rightarrow> string \<Rightarrow> string list" where
  "splitOn c [] = [[]]"
| "splitOn c (x # xs) =
     (if x = c then [] # splitOn c xs
      else (case splitOn c xs of [] \<Rightarrow> [[x]] | p # ps \<Rightarrow> (x # p) # ps))"

text \<open>\<^verbatim>\<open>s.replace(/:$/, '')\<close>: one colon is removed from the end, if there is one.\<close>

definition dropEndColon :: "string \<Rightarrow> string" where
  "dropEndColon s = (if s \<noteq> [] \<and> last s = CHR '':'' then butlast s else s)"

text \<open>\<^verbatim>\<open>xs.join(sep)\<close>.\<close>

fun joinWith :: "string \<Rightarrow> string list \<Rightarrow> string" where
  "joinWith sep [] = []"
| "joinWith sep [x] = x"
| "joinWith sep (x # y # ys) = x @ sep @ joinWith sep (y # ys)"

section \<open>Escaping (generator) and unescaping (parser)\<close>

text \<open>\<^verbatim>\<open>escape\<close> of the generator: what is pushed for one character.\<close>

definition escapeChar :: "char \<Rightarrow> string" where
  "escapeChar ch =
     (if ch = CHR ''('' then [BSL, CHR ''('']
      else if ch = CHR '')'' then [BSL, CHR '')'']
      else if ch = CHR ''['' then [BSL, CHR ''['']
      else if ch = CHR '']'' then [BSL, CHR '']'']
      else if ch = CHR '','' then [BSL, CHR '','']
      else if ch = BSL then [BSL, BSL]
      else if ch = LF then [BSL, CHR ''n'']
      else if ch = TAB then [BSL, CHR ''t'']
      else if ch = CR then [BSL, CHR ''r'']
      else [ch])"

fun escape :: "string \<Rightarrow> string" where
  "escape [] = []"
| "escape (ch # s) = escapeChar ch @ escape s"

text \<open>\<^verbatim>\<open>unescape\<close> of the parser: the loop with its \<^verbatim>\<open>escaped\<close> flag.\<close>

fun unescapeLoop :: "bool \<Rightarrow> string \<Rightarrow> string" where
  "unescapeLoop escaped [] = []"
| "unescapeLoop escaped (ch # s) =
     (if escaped then
        (if ch = CHR ''n'' then LF
         else if ch = CHR ''t'' then TAB
         else if ch = CHR ''r'' then CR
         else ch) # unescapeLoop False s
      else if ch = BSL then unescapeLoop True s
      else ch # unescapeLoop False s)"

definition unescape :: "string \<Rightarrow> string" where
  "unescape s = unescapeLoop False s"

section \<open>The value model\<close>

text \<open>
  \<^verbatim>\<open>OrtValueType\<close>: null, boolean, number, string, array, object. An object is the list
  of its entries in insertion order, with distinct keys. The number type is a parameter
  \<open>'n\<close> of the model: the source's numbers are the host's, read by \<^verbatim>\<open>Number(s)\<close> and
  printed by \<^verbatim>\<open>String(n)\<close>, and both are taken as parameters \<open>toNum\<close> (with
  \<open>None\<close> for \<^verbatim>\<open>NaN\<close>) and \<open>numStr\<close> of the functions that call them.
\<close>

datatype 'n val =
    VNull
  | VBool bool
  | VNum 'n
  | VStr string
  | VArr "'n val list"
  | VObj "(string \<times> 'n val) list"

text \<open>
  \<^verbatim>\<open>obj[key] = v\<close> for a key of the object's own: an existing key keeps its place, a
  new key goes to the end.
\<close>

fun putKey :: "string \<Rightarrow> 'v \<Rightarrow> (string \<times> 'v) list \<Rightarrow> (string \<times> 'v) list" where
  "putKey k v [] = [(k, v)]"
| "putKey k v (p # ps) = (if fst p = k then (k, v) # ps else p # putKey k v ps)"

text \<open>
  \<^verbatim>\<open>obj[key] = v\<close> on an object made by \<^verbatim>\<open>{}\<close>. The key \<^verbatim>\<open>__proto__\<close> is the
  accessor the object inherits: assigning to it adds no entry (it replaces the prototype
  when \<open>v\<close> is an object or \<^verbatim>\<open>null\<close>, and does nothing else), so the entries stay as
  they are.
\<close>

definition setKey :: "string \<Rightarrow> 'v \<Rightarrow> (string \<times> 'v) list \<Rightarrow> (string \<times> 'v) list" where
  "setKey k v kvs = (if k = ''__proto__'' then kvs else putKey k v kvs)"

text \<open>The type tests of \<^verbatim>\<open>OrtValue\<close>.\<close>

fun isNull :: "'n val \<Rightarrow> bool" where
  "isNull VNull = True"
| "isNull _ = False"

fun isArray :: "'n val \<Rightarrow> bool" where
  "isArray (VArr xs) = True"
| "isArray _ = False"

fun isObject :: "'n val \<Rightarrow> bool" where
  "isObject (VObj kvs) = True"
| "isObject _ = False"

text \<open>
  \<^verbatim>\<open>Object.keys\<close>, and \<^verbatim>\<open>obj[key]\<close> among the entries of the object (\<open>None\<close> where it
  has no entry for the key).
\<close>

definition objectKeys :: "(string \<times> 'v) list \<Rightarrow> string list" where
  "objectKeys kvs = map fst kvs"

definition getKey :: "(string \<times> 'v) list \<Rightarrow> string \<Rightarrow> 'v option" where
  "getKey kvs k = map_of kvs k"

section \<open>The parser\<close>

datatype message =
    InvalidHeaderFormat
  | UnmatchedClosingParenthesis
  | ExpectedValues nat nat
  | ExpectedNestedValues nat nat

text \<open>
  \<^verbatim>\<open>OrtParseError\<close>: the line number, the line text and the message it was built with
  (the two \<^verbatim>\<open>Expected n values but got m\<close> messages carry their two counts).
\<close>

record OrtParseError =
  lineNum :: nat
  line :: string
  message :: message

datatype Field = Field (name: string) (nestedFields: "Field list")

definition isNestedField :: "Field \<Rightarrow> bool" where
  "isNestedField field = (length (nestedFields field) > 0)"

fun indexOf :: "string \<Rightarrow> char \<Rightarrow> nat option" where
  "indexOf [] c = None"
| "indexOf (x # xs) c =
     (if x = c then Some 0 else (case indexOf xs c of None \<Rightarrow> None | Some i \<Rightarrow> Some (Suc i)))"

definition isHeader :: "string \<Rightarrow> bool" where
  "isHeader l =
     (let trimmed = trim l in
      if startsWith trimmed '':'' then True
      else (let parts = splitOn CHR '':'' trimmed in
            if length parts \<ge> 2 \<and> last parts = [] then True else False))"

definition parseHeader :: "string \<Rightarrow> nat \<Rightarrow> OrtParseError + (string option \<times> string)" where
  "parseHeader ln lineNo =
     (if startsWith ln '':'' then Inr (None, dropEndColon (drop 1 ln))
      else (case indexOf ln CHR '':'' of
              None \<Rightarrow> Inl \<lparr>lineNum = lineNo, line = ln, message = InvalidHeaderFormat\<rparr>
            | Some colonIndex \<Rightarrow>
                Inr (Some (trim (take colonIndex ln)),
                     trim (dropEndColon (drop (colonIndex + 1) ln)))))"

text \<open>
  The inner loop of \<^verbatim>\<open>parseFields\<close> that collects \<^verbatim>\<open>nestedStr\<close> up to the matching
  closing parenthesis: given \<^verbatim>\<open>nestedDepth\<close> and the characters from \<^verbatim>\<open>i\<close> on, it
  returns \<^verbatim>\<open>nestedStr\<close> and the characters left after the loop.
\<close>

fun collectNested :: "nat \<Rightarrow> string \<Rightarrow> string \<times> string" where
  "collectNested nestedDepth [] = ([], [])"
| "collectNested nestedDepth (c # cs) =
     (if nestedDepth > 0 then
        (let d = (if c = CHR ''('' then nestedDepth + 1
                  else if c = CHR '')'' then nestedDepth - 1 else nestedDepth)
         in if d > 0 then (case collectNested d cs of (n, r) \<Rightarrow> (c # n, r))
            else ([], cs))
      else ([], c # cs))"

lemma collectNested_length:
  "collectNested d cs = (n, r) \<Longrightarrow> length n + length r \<le> length cs"
proof (induction d cs arbitrary: n r rule: collectNested.induct)
  case (1 nestedDepth)
  then show ?case by simp
next
  case (2 nestedDepth c cs)
  define d where "d = (if c = CHR ''('' then nestedDepth + 1
                  else if c = CHR '')'' then nestedDepth - 1 else nestedDepth)"
  show ?case
  proof (cases "nestedDepth > 0 \<and> d > 0")
    case True
    obtain n' r' where nr: "collectNested d cs = (n', r')" by (cases "collectNested d cs")
    from True have "length n' + length r' \<le> length cs"
      using "2.IH" [of d n' r'] nr by (simp add: d_def)
    moreover from True nr "2.prems" have "n = c # n'" "r = r'"
      by (simp_all add: d_def [symmetric] Let_def)
    ultimately show ?thesis by simp
  next
    case False
    with "2.prems" show ?thesis
      by (auto simp: d_def [symmetric] Let_def split: if_splits)
  qed
qed

text \<open>
  \<^verbatim>\<open>parseFields\<close> and its main loop over \<^verbatim>\<open>chars\<close>; the loop's state is
  \<^verbatim>\<open>result\<close>, \<^verbatim>\<open>current\<close>, \<^verbatim>\<open>depth\<close> and the characters from \<^verbatim>\<open>i\<close> on.
\<close>

function (sequential)
  parseFields :: "string \<Rightarrow> string \<Rightarrow> nat \<Rightarrow> OrtParseError + Field list"
  and parseFieldsLoop ::
    "string \<Rightarrow> nat \<Rightarrow> Field list \<Rightarrow> string \<Rightarrow> int \<Rightarrow> string \<Rightarrow> OrtParseError + Field list"
where
  "parseFields fieldsStr ln lineNo =
     (if fieldsStr = [] then Inr [] else parseFieldsLoop ln lineNo [] [] 0 fieldsStr)"
| "parseFieldsLoop ln lineNo result current depth [] =
     (let field = trim current in
      if field \<noteq> [] then Inr (result @ [Field field []]) else Inr result)"
| "parseFieldsLoop ln lineNo result current depth (ch # cs) =
     (if ch = CHR ''('' then
        (if depth = 0 then
           (let fieldName = trim current in
            case collectNested 1 cs of (nestedStr, rest) \<Rightarrow>
              (case parseFields nestedStr ln lineNo of
                 Inl e \<Rightarrow> Inl e
               | Inr nested \<Rightarrow>
                   parseFieldsLoop ln lineNo (result @ [Field fieldName nested]) [] depth rest))
         else parseFieldsLoop ln lineNo result (current @ [ch]) (depth + 1) cs)
      else if ch = CHR '')'' then
        (if depth - 1 < 0 then
           Inl \<lparr>lineNum = lineNo, line = ln, message = UnmatchedClosingParenthesis\<rparr>
         else parseFieldsLoop ln lineNo result (current @ [ch]) (depth - 1) cs)
      else if ch = CHR '','' then
        (if depth = 0 then
           (let field = trim current in
            parseFieldsLoop ln lineNo
              (if field \<noteq> [] then result @ [Field field []] else result) [] depth cs)
         else parseFieldsLoop ln lineNo result (current @ [ch]) depth cs)
      else parseFieldsLoop ln lineNo result (current @ [ch]) depth cs)"
  by pat_completeness auto
termination
  by (relation "measure (\<lambda>x. case x of
          Inl (fieldsStr, _, _) \<Rightarrow> 2 * length fieldsStr + 1
        | Inr (_, _, _, _, _, cs) \<Rightarrow> 2 * length cs)")
     (auto dest: collectNested_length [OF sym])

text \<open>The loop of \<^verbatim>\<open>parseSection\<close> that counts the data lines below a header.\<close>

fun countDataLines :: "string list \<Rightarrow> nat" where
  "countDataLines [] = 0"
| "countDataLines (raw # rest) =
     (let l = trim raw in
      if l = [] \<or> startsWith l ''#'' then countDataLines rest
      else if includesChar l CHR '':'' \<and> isHeader l then 0
      else Suc (countDataLines rest))"

definition parseSection ::
  "string list \<Rightarrow> nat \<Rightarrow> OrtParseError + (string option \<times> Field list \<times> nat)" where
  "parseSection lines startIdx =
     (let ln = trim (lines ! startIdx);
          lineNo = startIdx + 1;
          dataLines = countDataLines (drop (startIdx + 1) lines)
      in case parseHeader ln lineNo of
           Inl e \<Rightarrow> Inl e
         | Inr (key, fieldsStr) \<Rightarrow>
             (case parseFields fieldsStr ln lineNo of
                Inl e \<Rightarrow> Inl e
              | Inr flds \<Rightarrow> Inr (key, flds, dataLines)))"

text \<open>
  The scanning loop that \<^verbatim>\<open>parseDataValues\<close>, \<^verbatim>\<open>parseArray\<close> and \<^verbatim>\<open>splitPairs\<close>
  each contain, character for character the same: its state is the finished pieces, the
  piece being collected, the \<^verbatim>\<open>escaped\<close> flag and the two depth counters. It returns
  the pieces and the last, unfinished piece; the three callers differ in what they do
  with them.
\<close>

fun scanLoop :: "string list \<Rightarrow> string \<Rightarrow> bool \<Rightarrow> int \<Rightarrow> int \<Rightarrow> string \<Rightarrow> string list \<times> string" where
  "scanLoop values current escaped depth bracketDepth [] = (values, current)"
| "scanLoop values current escaped depth bracketDepth (ch # s) =
     (if escaped then scanLoop values (current @ [ch]) False depth bracketDepth s
      else if ch = BSL then scanLoop values (current @ [BSL]) True depth bracketDepth s
      else if ch = CHR ''('' then scanLoop values (current @ [ch]) escaped (depth + 1) bracketDepth s
      else if ch = CHR '')'' then scanLoop values (current @ [ch]) escaped (depth - 1) bracketDepth s
      else if ch = CHR ''['' then scanLoop values (current @ [ch]) escaped depth (bracketDepth + 1) s
      else if ch = CHR '']'' then scanLoop values (current @ [ch]) escaped depth (bracketDepth - 1) s
      else if ch = CHR '','' then
        (if depth = 0 \<and> bracketDepth = 0
         then scanLoop (values @ [current]) [] escaped depth bracketDepth s
         else scanLoop values (current @ [ch]) escaped depth bracketDepth s)
      else scanLoop values (current @ [ch]) escaped depth bracketDepth s)"

definition parseDataValues :: "string \<Rightarrow> string list" where
  "parseDataValues ln =
     (case scanLoop [] [] False 0 0 ln of (values, current) \<Rightarrow> values @ [current])"

definition splitPairs :: "string \<Rightarrow> string list" where
  "splitPairs s =
     (case scanLoop [] [] False 0 0 s of (pairs, current) \<Rightarrow>
        (let currentStr = trim current in
         if currentStr \<noteq> [] then pairs @ [currentStr] else pairs))"

text \<open>
  The pieces \<^verbatim>\<open>parseArray\<close> hands to \<^verbatim>\<open>parseValue\<close>: every piece closed by a top-level
  comma, and the trimmed last piece unless it is blank.
\<close>

definition arrayPieces :: "string \<Rightarrow> string list" where
  "arrayPieces s =
     (case scanLoop [] [] False 0 0 s of (pieces, current) \<Rightarrow>
        (let currentStr = trim current in
         if currentStr \<noteq> [] then pieces @ [currentStr] else pieces))"

text \<open>
  The key and the value text \<^verbatim>\<open>parseInlineObject\<close> takes from each pair that has a
  colon; a pair without a colon is dropped.
\<close>

fun pairEntries :: "string list \<Rightarrow> (string \<times> string) list" where
  "pairEntries [] = []"
| "pairEntries (pair # pairs) =
     (case indexOf pair CHR '':'' of
        None \<Rightarrow> pairEntries pairs
      | Some colonIndex \<Rightarrow>
          (trim (take colonIndex pair), trim (drop (colonIndex + 1) pair)) # pairEntries pairs)"

text \<open>The object built by assigning the entries in order.\<close>

fun assignAll :: "(string \<times> 'v) list \<Rightarrow> (string \<times> 'v) list \<Rightarrow> (string \<times> 'v) list" where
  "assignAll obj [] = obj"
| "assignAll obj (e # es) = assignAll (setKey (fst e) (snd e) obj) es"

text \<open>\<^verbatim>\<open>s.substring(a, b)\<close> for \<open>a \<le> b \<le> length s\<close>.\<close>

definition substring :: "nat \<Rightarrow> nat \<Rightarrow> string \<Rightarrow> string" where
  "substring a b s = take (b - a) (drop a s)"

lemma length_trim_le: "length (trim s) \<le> length s"
proof -
  have "length (trimEnd t) \<le> length t" for t
    unfolding trimEnd_def using length_dropWhile_le [of isSpace "rev t"] by simp
  moreover have "length (trimStart s) \<le> length s"
    unfolding trimStart_def by (rule length_dropWhile_le)
  ultimately show ?thesis
    unfolding trim_def using le_trans by blast
qed

lemma scanLoop_length:
  "scanLoop vals current escaped depth bracketDepth s = (vs, cur) \<Longrightarrow>
     length cur \<le> length current + length s
     \<and> (\<forall>p \<in> set vs. p \<in> set vals \<or> length p \<le> length current + length s)"
proof (induction vals current escaped depth bracketDepth s
       rule: scanLoop.induct)
  case (1 vals current escaped depth bracketDepth)
  then show ?case by simp
next
  case (2 vals current escaped depth bracketDepth ch s)
  then show ?case
    by (simp split: if_splits) fastforce+
qed

lemma arrayPieces_length: "p \<in> set (arrayPieces s) \<Longrightarrow> length p \<le> length s"
proof -
  assume p: "p \<in> set (arrayPieces s)"
  obtain vs cur where sc: "scanLoop [] [] False 0 0 s = (vs, cur)"
    by (cases "scanLoop [] [] False 0 0 s")
  from scanLoop_length [OF sc]
  have "length cur \<le> length s" "\<forall>q \<in> set vs. length q \<le> length s" by simp_all
  moreover have "length (trim cur) \<le> length cur" by (rule length_trim_le)
  ultimately show ?thesis
    using p sc by (auto simp: arrayPieces_def Let_def split: if_splits)
qed

lemma splitPairs_length: "p \<in> set (splitPairs s) \<Longrightarrow> length p \<le> length s"
proof -
  assume p: "p \<in> set (splitPairs s)"
  obtain vs cur where sc: "scanLoop [] [] False 0 0 s = (vs, cur)"
    by (cases "scanLoop [] [] False 0 0 s")
  from scanLoop_length [OF sc]
  have "length cur \<le> length s" "\<forall>q \<in> set vs. length q \<le> length s" by simp_all
  moreover have "length (trim cur) \<le> length cur" by (rule length_trim_le)
  ultimately show ?thesis
    using p sc by (auto simp: splitPairs_def Let_def split: if_splits)
qed

lemma pairEntries_length:
  "e \<in> set (pairEntries pairs) \<Longrightarrow> \<exists>p \<in> set pairs. length (snd e) \<le> length p"
proof (induction pairs)
  case Nil
  then show ?case by simp
next
  case (Cons pair pairs)
  show ?case
  proof (cases "indexOf pair CHR '':''")
    case None
    with Cons show ?thesis by auto
  next
    case (Some i)
    have "length (trim (drop (i + 1) pair)) \<le> length pair"
      using length_trim_le [of "drop (i + 1) pair"] by simp
    with Cons Some show ?thesis by auto
  qed
qed

text \<open>
  \<^verbatim>\<open>parseValue\<close>, \<^verbatim>\<open>parseArray\<close> and \<^verbatim>\<open>parseInlineObject\<close>. None of the three can
  raise, so their \<^verbatim>\<open>line\<close> and \<^verbatim>\<open>lineNum\<close> arguments, only handed on, are left out.
  \<^verbatim>\<open>parseArray\<close> parses each piece when the scan closes it; as parsing a piece has no
  effect on the scan, the model scans first and parses the pieces afterwards.
\<close>

function (sequential)
  parseValue :: "(string \<Rightarrow> 'n option) \<Rightarrow> string \<Rightarrow> 'n val"
  and parseArray :: "(string \<Rightarrow> 'n option) \<Rightarrow> string \<Rightarrow> 'n val"
  and parseInlineObject :: "(string \<Rightarrow> 'n option) \<Rightarrow> string \<Rightarrow> 'n val"
where
  "parseValue toNum s =
     (let trimmed = trim s in
      if trimmed = [] then VNull
      else if trimmed = ''[]'' then VArr []
      else if trimmed = ''()'' then VObj []
      else if startsWith trimmed ''['' \<and> endsWith trimmed '']'' then
        parseArray toNum (substring 1 (length trimmed - 1) trimmed)
      else if startsWith trimmed ''('' \<and> endsWith trimmed '')'' then
        parseInlineObject toNum (substring 1 (length trimmed - 1) trimmed)
      else
        (let unescaped = unescape trimmed in
         case toNum unescaped of
           Some num \<Rightarrow> VNum num
         | None \<Rightarrow>
             if unescaped = ''true'' then VBool True
             else if unescaped = ''false'' then VBool False
             else VStr unescaped))"
| "parseArray toNum s =
     (if trim s = [] then VArr []
      else VArr (map (parseValue toNum) (arrayPieces s)))"
| "parseInlineObject toNum s =
     (if trim s = [] then VObj []
      else VObj (assignAll []
             (map (\<lambda>e. (fst e, parseValue toNum (snd e))) (pairEntries (splitPairs s)))))"
  by pat_completeness auto
termination
proof (relation "measure (\<lambda>x. case x of
          Inl (_, s) \<Rightarrow> 2 * length s
        | Inr (Inl (_, s)) \<Rightarrow> 2 * length s + 1
        | Inr (Inr (_, s)) \<Rightarrow> 2 * length s + 1)", goal_cases)
  case 1
  then show ?case by simp
next
  case (2 toNum s trimmed)
  then have "trimmed \<noteq> []" "length trimmed \<le> length s"
    using length_trim_le [of s] by simp_all
  then show ?case by (cases trimmed) (simp_all add: substring_def)
next
  case (3 toNum s trimmed)
  then have "trimmed \<noteq> []" "length trimmed \<le> length s"
    using length_trim_le [of s] by simp_all
  then show ?case by (cases trimmed) (simp_all add: substring_def)
next
  case (4 toNum s p)
  then show ?case using arrayPieces_length [of p s] by simp
next
  case (5 toNum s e)
  then obtain p where "p \<in> set (splitPairs s)" "length (snd e) \<le> length p"
    using pairEntries_length by blast
  then show ?case using splitPairs_length [of p s] by simp
qed

text \<open>
  \<^verbatim>\<open>parseFieldValue\<close>, and the loop \<^verbatim>\<open>for (j = 0; j < fields.length; j++)\<close> that
  \<^verbatim>\<open>parseDataLines\<close> and \<^verbatim>\<open>parseFieldValue\<close> both run over the fields and the values
  of a row or tuple, assigning each parsed value under its field's name. The loop runs
  only where both lists have the same length; the equation for a missing value is never
  reached.
\<close>

fun parseFieldValue ::
    "(string \<Rightarrow> 'n option) \<Rightarrow> Field \<Rightarrow> string \<Rightarrow> string \<Rightarrow> nat \<Rightarrow> OrtParseError + 'n val"
  and fieldLoop ::
    "(string \<Rightarrow> 'n option) \<Rightarrow> Field list \<Rightarrow> string list \<Rightarrow> string \<Rightarrow> nat \<Rightarrow>
       (string \<times> 'n val) list \<Rightarrow> OrtParseError + (string \<times> 'n val) list"
where
  "parseFieldValue toNum (Field nm nested) valueStr ln lineNo =
     (if \<not> (length nested > 0) then Inr (parseValue toNum valueStr)
      else
        (let trimmed = trim valueStr in
         if trimmed = [] then Inr VNull
         else if trimmed = ''()'' then Inr (VObj [])
         else if startsWith trimmed ''['' \<and> endsWith trimmed '']'' then
           Inr (parseValue toNum trimmed)
         else if \<not> startsWith trimmed ''('' \<or> \<not> endsWith trimmed '')'' then
           Inr (parseValue toNum trimmed)
         else
           (let inner = substring 1 (length trimmed - 1) trimmed;
                values = parseDataValues inner
            in if length values \<noteq> length nested then
                 Inl \<lparr>lineNum = lineNo, line = ln,
                      message = ExpectedNestedValues (length nested) (length values)\<rparr>
               else
                 (case fieldLoop toNum nested values ln lineNo [] of
                    Inl e \<Rightarrow> Inl e
                  | Inr obj \<Rightarrow> Inr (VObj obj)))))"
| "fieldLoop toNum [] values ln lineNo obj = Inr obj"
| "fieldLoop toNum (f # fs) [] ln lineNo obj = Inr obj"
| "fieldLoop toNum (f # fs) (valueStr # values) ln lineNo obj =
     (case parseFieldValue toNum f valueStr ln lineNo of
        Inl e \<Rightarrow> Inl e
      | Inr v \<Rightarrow> fieldLoop toNum fs values ln lineNo (setKey (name f) v obj))"

text \<open>
  The loop of \<^verbatim>\<open>parseDataLines\<close> over the lines from \<^verbatim>\<open>i\<close> on, with its state
  \<^verbatim>\<open>result\<close> and \<^verbatim>\<open>processed\<close>.
\<close>

fun parseDataLinesLoop ::
  "(string \<Rightarrow> 'n option) \<Rightarrow> Field list \<Rightarrow> nat \<Rightarrow> string list \<Rightarrow> nat \<Rightarrow> 'n val list \<Rightarrow> nat \<Rightarrow>
     OrtParseError + 'n val"
where
  "parseDataLinesLoop toNum flds count [] i result processed = Inr (VArr result)"
| "parseDataLinesLoop toNum flds count (raw # rest) i result processed =
     (if processed \<ge> count then Inr (VArr result)
      else
        (let ln = trim raw in
         if ln = [] \<or> startsWith ln ''#'' then
           parseDataLinesLoop toNum flds count rest (i + 1) result processed
         else
           (let lineNo = i + 1 in
            if length flds = 0 then Inr (parseValue toNum ln)
            else
              (let values = parseDataValues ln in
               if length values \<noteq> length flds then
                 Inl \<lparr>lineNum = lineNo, line = ln,
                      message = ExpectedValues (length flds) (length values)\<rparr>
               else
                 (case fieldLoop toNum flds values ln lineNo [] of
                    Inl e \<Rightarrow> Inl e
                  | Inr obj \<Rightarrow>
                      parseDataLinesLoop toNum flds count rest (i + 1)
                        (result @ [VObj obj]) (processed + 1))))))"

definition parseDataLines ::
  "(string \<Rightarrow> 'n option) \<Rightarrow> string list \<Rightarrow> nat \<Rightarrow> Field list \<Rightarrow> nat \<Rightarrow> OrtParseError + 'n val"
where
  "parseDataLines toNum lines startIdx flds count =
     parseDataLinesLoop toNum flds count (drop startIdx lines) startIdx [] 0"

text \<open>
  The \<^verbatim>\<open>while\<close> loop of \<^verbatim>\<open>parseOrt\<close>, with its state \<^verbatim>\<open>lineIdx\<close> and \<^verbatim>\<open>result\<close>.
\<close>

function parseOrtLoop ::
  "(string \<Rightarrow> 'n option) \<Rightarrow> string list \<Rightarrow> nat \<Rightarrow> (string \<times> 'n val) list \<Rightarrow> OrtParseError + 'n val"
where
  "parseOrtLoop toNum lines lineIdx result =
     (if lineIdx < length lines then
        (let ln = trim (lines ! lineIdx) in
         if ln = [] \<or> startsWith ln ''#'' then parseOrtLoop toNum lines (lineIdx + 1) result
         else if includesChar ln CHR '':'' then
           (case parseSection lines lineIdx of
              Inl e \<Rightarrow> Inl e
            | Inr (key, flds, dataLines) \<Rightarrow>
                (case key of
                   Some k \<Rightarrow>
                     (case parseDataLines toNum lines (lineIdx + 1) flds dataLines of
                        Inl e \<Rightarrow> Inl e
                      | Inr values \<Rightarrow>
                          parseOrtLoop toNum lines (lineIdx + (dataLines + 1))
                            (setKey k values result))
                 | None \<Rightarrow>
                     (case parseDataLines toNum lines (lineIdx + 1) flds dataLines of
                        Inl e \<Rightarrow> Inl e
                      | Inr values \<Rightarrow>
                          (if length flds > 0 \<and> dataLines = 1 then
                             (case values of
                                VArr [x] \<Rightarrow> Inr x
                              | _ \<Rightarrow> Inr values)
                           else Inr values))))
         else parseOrtLoop toNum lines (lineIdx + 1) result)
      else Inr (VObj result))"
  by pat_completeness auto
termination
  by (relation "measure (\<lambda>(toNum, lines, lineIdx, result). length lines - lineIdx)") auto

definition parseOrt :: "(string \<Rightarrow> 'n option) \<Rightarrow> string \<Rightarrow> OrtParseError + 'n val" where
  "parseOrt toNum content = parseOrtLoop toNum (splitOn LF content) 0 []"

section \<open>The generator\<close>

text \<open>
  \<^verbatim>\<open>generateValue\<close>, \<^verbatim>\<open>generateArrayContent\<close> and \<^verbatim>\<open>generateInlineObject\<close>. The
  generator works on the native copy of the value, which the model does not tell from
  the value itself.
\<close>

fun generateValue :: "('n \<Rightarrow> string) \<Rightarrow> 'n val \<Rightarrow> bool \<Rightarrow> string"
  and generateArrayContent :: "('n \<Rightarrow> string) \<Rightarrow> 'n val list \<Rightarrow> bool \<Rightarrow> string"
  and generateInlineObject :: "('n \<Rightarrow> string) \<Rightarrow> (string \<times> 'n val) list \<Rightarrow> string"
  and generateValues :: "('n \<Rightarrow> string) \<Rightarrow> 'n val list \<Rightarrow> bool \<Rightarrow> string list"
  and generatePairs :: "('n \<Rightarrow> string) \<Rightarrow> (string \<times> 'n val) list \<Rightarrow> string list"
where
  "generateValue numStr VNull inline = []"
| "generateValue numStr (VBool b) inline = (if b then ''true'' else ''false'')"
| "generateValue numStr (VNum n) inline = numStr n"
| "generateValue numStr (VStr s) inline = escape s"
| "generateValue numStr (VArr xs) inline =
     (if length xs = 0 then ''[]''
      else ''['' @ generateArrayContent numStr xs True @ '']'')"
| "generateValue numStr (VObj kvs) inline =
     (if length (objectKeys kvs) = 0 then ''()''
      else generateInlineObject numStr kvs)"
| "generateArrayContent numStr arr inline =
     (if length arr = 0 then ''[]''
      else if inline then joinWith '','' (generateValues numStr arr inline)
      else ''['' @ joinWith '','' (generateValues numStr arr inline) @ '']'')"
| "generateInlineObject numStr obj = ''('' @ joinWith '','' (generatePairs numStr obj) @ '')''"
| "generateValues numStr [] inline = []"
| "generateValues numStr (v # vs) inline =
     generateValue numStr v inline # generateValues numStr vs inline"
| "generatePairs numStr [] = []"
| "generatePairs numStr (e # es) =
     (fst e @ '':'' @ generateValue numStr (snd e) True) # generatePairs numStr es"

text \<open>
  \<^verbatim>\<open>isUniformObjectArray\<close>. The two sorted key arrays are compared through
  \<^verbatim>\<open>JSON.stringify\<close>, which gives equal texts for equal arrays of strings only.
\<close>

fun sameKeysLoop :: "string list \<Rightarrow> 'n val list \<Rightarrow> bool" where
  "sameKeysLoop firstKeys [] = True"
| "sameKeysLoop firstKeys (item # items) =
     (case item of
        VObj kvs \<Rightarrow>
          (let keys = sort (objectKeys kvs) in
           if keys \<noteq> firstKeys then False else sameKeysLoop firstKeys items)
      | _ \<Rightarrow> False)"

definition isUniformObjectArray :: "'n val list \<Rightarrow> bool" where
  "isUniformObjectArray arr =
     (if length arr = 0 then False
      else (case hd arr of
              VObj kvs \<Rightarrow> (let firstKeys = sort (objectKeys kvs) in sameKeysLoop firstKeys (tl arr))
            | _ \<Rightarrow> False))"

text \<open>\<^verbatim>\<open>generateHeaderFields\<close> and \<^verbatim>\<open>generateHeader\<close>, over the entries of the first object.\<close>

fun generateHeaderFields :: "(string \<times> 'n val) list \<Rightarrow> string"
  and headerParts :: "(string \<times> 'n val) list \<Rightarrow> string list"
where
  "generateHeaderFields obj = joinWith '','' (headerParts obj)"
| "headerParts [] = []"
| "headerParts (e # es) =
     (case snd e of
        VObj nested \<Rightarrow> fst e @ ''('' @ generateHeaderFields nested @ '')''
      | _ \<Rightarrow> fst e) # headerParts es"

definition generateHeader :: "(string \<times> 'n val) list \<Rightarrow> string" where
  "generateHeader firstObj = joinWith '','' (headerParts firstObj) @ '':''"

text \<open>
  \<^verbatim>\<open>generateObjectFieldValue\<close> of \<^verbatim>\<open>item[k]\<close>, which is \<open>None\<close> where the item has
  no key \<open>k\<close>; of its four arguments only the value is used.
\<close>

fun generateObjectFieldValue :: "('n \<Rightarrow> string) \<Rightarrow> 'n val option \<Rightarrow> string"
  and nestedFieldValues :: "('n \<Rightarrow> string) \<Rightarrow> (string \<times> 'n val) list \<Rightarrow> string list"
where
  "generateObjectFieldValue numStr None = []"
| "generateObjectFieldValue numStr (Some VNull) = []"
| "generateObjectFieldValue numStr (Some (VObj kvs)) =
     (if length (objectKeys kvs) = 0 then ''()''
      else ''('' @ joinWith '','' (nestedFieldValues numStr kvs) @ '')'')"
| "generateObjectFieldValue numStr (Some (VArr xs)) =
     (if length xs = 0 then ''[]''
      else ''['' @ generateArrayContent numStr xs True @ '']'')"
| "generateObjectFieldValue numStr (Some v) = generateValue numStr v True"
| "nestedFieldValues numStr [] = []"
| "nestedFieldValues numStr (e # es) =
     generateObjectFieldValue numStr (Some (snd e)) # nestedFieldValues numStr es"

text \<open>The entries of an array element that is an object.\<close>

fun entriesOf :: "'n val \<Rightarrow> (string \<times> 'n val) list" where
  "entriesOf (VObj kvs) = kvs"
| "entriesOf _ = []"

definition rowText :: "('n \<Rightarrow> string) \<Rightarrow> string list \<Rightarrow> 'n val \<Rightarrow> string" where
  "rowText numStr keys item =
     joinWith '','' (map (\<lambda>k. generateObjectFieldValue numStr (getKey (entriesOf item) k)) keys)"

definition generateObjectArray :: "('n \<Rightarrow> string) \<Rightarrow> string \<Rightarrow> 'n val list \<Rightarrow> string" where
  "generateObjectArray numStr key arr =
     (if length arr = 0 then key @ '':'' @ [LF] @ ''[]''
      else (let first = entriesOf (hd arr);
                keys = objectKeys first;
                header = generateHeader first
            in joinWith [LF] ((key @ '':'' @ header) # map (rowText numStr keys) arr)))"

definition generateTopLevelObjectArray :: "('n \<Rightarrow> string) \<Rightarrow> 'n val list \<Rightarrow> string" where
  "generateTopLevelObjectArray numStr arr =
     (if length arr = 0 then '':[]''
      else (let first = entriesOf (hd arr);
                keys = objectKeys first;
                header = generateHeader first
            in joinWith [LF] (('':'' @ header) # map (rowText numStr keys) arr)))"

definition generateSimpleArray :: "('n \<Rightarrow> string) \<Rightarrow> string \<Rightarrow> 'n val list \<Rightarrow> string" where
  "generateSimpleArray numStr key arr = key @ '':'' @ [LF] @ generateArrayContent numStr arr False"

text \<open>The text \<^verbatim>\<open>generateMultiObject\<close> pushes for one entry, before the separator.\<close>

definition entryBlock :: "('n \<Rightarrow> string) \<Rightarrow> string \<Rightarrow> 'n val \<Rightarrow> string" where
  "entryBlock numStr key v =
     (case v of
        VArr arr \<Rightarrow>
          (if length arr = 0 then key @ '':'' @ [LF] @ ''[]''
           else if isUniformObjectArray arr then trimEnd (generateObjectArray numStr key arr)
           else trimEnd (generateSimpleArray numStr key arr))
      | _ \<Rightarrow> key @ '':'' @ [LF] @ generateValue numStr v False)"

fun generateMultiObject :: "('n \<Rightarrow> string) \<Rightarrow> (string \<times> 'n val) list \<Rightarrow> string" where
  "generateMultiObject numStr [] = []"
| "generateMultiObject numStr [e] = entryBlock numStr (fst e) (snd e) @ [LF]"
| "generateMultiObject numStr (e # es) =
     entryBlock numStr (fst e) (snd e) @ [LF, LF] @ generateMultiObject numStr es"

definition generateOrt :: "('n \<Rightarrow> string) \<Rightarrow> 'n val \<Rightarrow> string" where
  "generateOrt numStr v =
     (case v of
        VObj obj \<Rightarrow>
          (if length (objectKeys obj) > 1 \<or> length (objectKeys obj) = 0 then
             generateMultiObject numStr obj
           else
             (let key = fst (hd obj); x = snd (hd obj) in
              case x of
                VArr arr \<Rightarrow>
                  (if length arr = 0 then key @ '':'' @ [LF] @ ''[]''
                   else if isUniformObjectArray arr then generateObjectArray numStr key arr
                   else generateSimpleArray numStr key arr)
              | _ \<Rightarrow> key @ '':'' @ [LF] @ generateValue numStr x False))
      | VArr arr \<Rightarrow>
          (if isUniformObjectArray arr then generateTopLevelObjectArray numStr arr
           else '':'' @ generateArrayContent numStr arr False)
      | _ \<Rightarrow> generateValue numStr v False)"

section \<open>The store of the value model\<close>

text \<open>
  \<^verbatim>\<open>get\<close> hands out a new \<^verbatim>\<open>OrtValue\<close> and \<^verbatim>\<open>set\<close> assigns into the array or object
  that an \<^verbatim>\<open>OrtValue\<close> holds, so what the two share is modelled with a store: a
  JavaScript value is a primitive or a reference to a cell, a cell is an array or an
  object holding values, and the heap is the list of the cells, a reference being an
  index into it. An \<^verbatim>\<open>OrtValue\<close> is given by its \<^verbatim>\<open>_value\<close>, called \<open>this\<close> below.
\<close>

datatype 'n jsval = JNull | JBool bool | JNum 'n | JStr string | JRef nat

datatype 'n cell = ArrCell "'n jsval list" | ObjCell "(string \<times> 'n jsval) list"

type_synonym 'n heap = "'n cell list"

text \<open>
  \<^verbatim>\<open>normalize\<close>, that is \<^verbatim>\<open>new OrtValue(value)._value\<close>: a primitive is returned as it is;
  for an array or an object a new cell is made, holding the normalized elements or
  entries. The recursion follows the references of the heap, so it takes fuel, one unit
  for each reference followed; \<open>None\<close> is the answer when the fuel runs out (or a
  reference leads to no cell, which no JavaScript value does). The values handed in are
  of the type \<^verbatim>\<open>OrtValueType\<close>, so the branches for \<^verbatim>\<open>undefined\<close>, for an \<^verbatim>\<open>OrtValue\<close>
  and for a value of another type are not part of the model.
\<close>

fun normalizeH :: "nat \<Rightarrow> 'n heap \<Rightarrow> 'n jsval \<Rightarrow> ('n jsval \<times> 'n heap) option"
  and normalizeList :: "nat \<Rightarrow> 'n heap \<Rightarrow> 'n jsval list \<Rightarrow> ('n jsval list \<times> 'n heap) option"
  and normalizeEntries ::
    "nat \<Rightarrow> 'n heap \<Rightarrow> (string \<times> 'n jsval) list \<Rightarrow> (string \<times> 'n jsval) list \<Rightarrow>
       ((string \<times> 'n jsval) list \<times> 'n heap) option"
where
  "normalizeH fuel h (JRef a) =
     (case fuel of
        0 \<Rightarrow> None
      | Suc f \<Rightarrow>
          (if a < length h then
             (case h ! a of
                ArrCell xs \<Rightarrow>
                  (case normalizeList f h xs of
                     None \<Rightarrow> None
                   | Some (ys, h1) \<Rightarrow> Some (JRef (length h1), h1 @ [ArrCell ys]))
              | ObjCell kvs \<Rightarrow>
                  (case normalizeEntries f h kvs [] of
                     None \<Rightarrow> None
                   | Some (result, h1) \<Rightarrow> Some (JRef (length h1), h1 @ [ObjCell result])))
           else None))"
| "normalizeH fuel h JNull = Some (JNull, h)"
| "normalizeH fuel h (JBool b) = Some (JBool b, h)"
| "normalizeH fuel h (JNum n) = Some (JNum n, h)"
| "normalizeH fuel h (JStr s) = Some (JStr s, h)"
| "normalizeList fuel h [] = Some ([], h)"
| "normalizeList fuel h (x # xs) =
     (case normalizeH fuel h x of
        None \<Rightarrow> None
      | Some (y, h1) \<Rightarrow>
          (case normalizeList fuel h1 xs of
             None \<Rightarrow> None
           | Some (ys, h2) \<Rightarrow> Some (y # ys, h2)))"
| "normalizeEntries fuel h [] result = Some (result, h)"
| "normalizeEntries fuel h (e # es) result =
     (case normalizeH fuel h (snd e) of
        None \<Rightarrow> None
      | Some (y, h1) \<Rightarrow> normalizeEntries fuel h1 es (setKey (fst e) y result))"

text \<open>
  The errors of \<^verbatim>\<open>get\<close>, \<^verbatim>\<open>set\<close> and \<^verbatim>\<open>getOrDefault\<close> (the last is the
  \<^verbatim>\<open>TypeError\<close> of \<^verbatim>\<open>normalize\<close> for a value that is no \<^verbatim>\<open>OrtValueType\<close>), and their
  keys: a string or an (integer) number.
\<close>

datatype accessError = NotAnObject | KeyNotFound | NotAnArray | IndexOutOfBounds | UnsupportedType

datatype key = KeyStr string | KeyNum int

text \<open>
  \<^verbatim>\<open>isObject\<close> and \<^verbatim>\<open>Array.isArray\<close> of \<open>this\<close>, with the cell's address and content
  when they hold.
\<close>

definition objectAt :: "'n heap \<Rightarrow> 'n jsval \<Rightarrow> (nat \<times> (string \<times> 'n jsval) list) option" where
  "objectAt h v =
     (case v of
        JRef a \<Rightarrow> (if a < length h then (case h ! a of ObjCell kvs \<Rightarrow> Some (a, kvs) | _ \<Rightarrow> None)
                   else None)
      | _ \<Rightarrow> None)"

definition arrayAt :: "'n heap \<Rightarrow> 'n jsval \<Rightarrow> (nat \<times> 'n jsval list) option" where
  "arrayAt h v =
     (case v of
        JRef a \<Rightarrow> (if a < length h then (case h ! a of ArrCell xs \<Rightarrow> Some (a, xs) | _ \<Rightarrow> None)
                   else None)
      | _ \<Rightarrow> None)"

text \<open>
  \<^verbatim>\<open>obj[key]\<close> and \<^verbatim>\<open>key in obj\<close> on the object of an \<^verbatim>\<open>OrtValue\<close>. Besides its entries
  the object has the properties it inherits from \<^verbatim>\<open>Object.prototype\<close>, the prototype of
  every object that \<^verbatim>\<open>normalize\<close> makes: eleven functions, and the accessor
  \<^verbatim>\<open>__proto__\<close>, which reads as the prototype itself. The store keeps the entries of an
  object only, so the model describes the objects whose prototype has not been replaced.
\<close>

definition inheritedFunctions :: "string list" where
  "inheritedFunctions =
     [''constructor'', ''__defineGetter__'', ''__defineSetter__'', ''hasOwnProperty'',
      ''__lookupGetter__'', ''__lookupSetter__'', ''isPrototypeOf'', ''propertyIsEnumerable'',
      ''toString'', ''valueOf'', ''toLocaleString'']"

datatype 'n property = Stored "'n jsval" | InheritedFunction | ObjectPrototype | Undefined

definition property :: "(string \<times> 'n jsval) list \<Rightarrow> string \<Rightarrow> 'n property" where
  "property obj k =
     (case getKey obj k of
        Some x \<Rightarrow> Stored x
      | None \<Rightarrow>
          if k = ''__proto__'' then ObjectPrototype
          else if k \<in> set inheritedFunctions then InheritedFunction
          else Undefined)"

text \<open>
  \<^verbatim>\<open>new OrtValue(p)\<close> for a property read from an object: a stored value is normalized;
  a function is of no supported type; \<^verbatim>\<open>Object.prototype\<close> has no enumerable entries,
  so it gives a new empty object; \<^verbatim>\<open>undefined\<close> gives \<^verbatim>\<open>null\<close>.
\<close>

fun construct ::
  "nat \<Rightarrow> 'n heap \<Rightarrow> 'n property \<Rightarrow> (accessError + 'n jsval \<times> 'n heap) option" where
  "construct fuel h (Stored x) = map_option Inr (normalizeH fuel h x)"
| "construct fuel h InheritedFunction = Some (Inl UnsupportedType)"
| "construct fuel h ObjectPrototype = Some (Inr (JRef (length h), h @ [ObjCell []]))"
| "construct fuel h Undefined = Some (Inr (JNull, h))"

text \<open>\<^verbatim>\<open>get\<close>: the result is the new \<^verbatim>\<open>OrtValue\<close> and the heap after its construction.\<close>

fun get :: "nat \<Rightarrow> 'n heap \<Rightarrow> 'n jsval \<Rightarrow> key \<Rightarrow> (accessError + 'n jsval \<times> 'n heap) option" where
  "get fuel h this (KeyStr k) =
     (case objectAt h this of
        None \<Rightarrow> Some (Inl NotAnObject)
      | Some (a, obj) \<Rightarrow>
          (case property obj k of
             Undefined \<Rightarrow> Some (Inl KeyNotFound)
           | p \<Rightarrow> construct fuel h p))"
| "get fuel h this (KeyNum i) =
     (case arrayAt h this of
        None \<Rightarrow> Some (Inl NotAnArray)
      | Some (a, xs) \<Rightarrow>
          (if i < 0 \<or> i \<ge> int (length xs) then Some (Inl IndexOutOfBounds)
           else map_option Inr (normalizeH fuel h (xs ! nat i))))"

text \<open>\<^verbatim>\<open>set\<close>: the result is the heap after the assignment.\<close>

fun setValue :: "nat \<Rightarrow> 'n heap \<Rightarrow> 'n jsval \<Rightarrow> key \<Rightarrow> 'n jsval \<Rightarrow> (accessError + 'n heap) option" where
  "setValue fuel h this (KeyStr k) v =
     (case objectAt h this of
        None \<Rightarrow> Some (Inl NotAnObject)
      | Some (a, obj) \<Rightarrow>
          (case normalizeH fuel h v of
             None \<Rightarrow> None
           | Some (x, h1) \<Rightarrow> Some (Inr (h1[a := ObjCell (setKey k x obj)]))))"
| "setValue fuel h this (KeyNum i) v =
     (case arrayAt h this of
        None \<Rightarrow> Some (Inl NotAnArray)
      | Some (a, xs) \<Rightarrow>
          (if i < 0 \<or> i \<ge> int (length xs) then Some (Inl IndexOutOfBounds)
           else (case normalizeH fuel h v of
                   None \<Rightarrow> None
                 | Some (x, h1) \<Rightarrow> Some (Inr (h1[a := ArrCell (xs[nat i := x])])))))"

text \<open>
  \<^verbatim>\<open>getOrDefault\<close>: \<^verbatim>\<open>obj[key] ?? defaultValue\<close> is the default when the property is
  \<^verbatim>\<open>undefined\<close> and when it is \<^verbatim>\<open>null\<close>.
\<close>

definition getOrDefault ::
  "nat \<Rightarrow> 'n heap \<Rightarrow> 'n jsval \<Rightarrow> string \<Rightarrow> 'n jsval \<Rightarrow> (accessError + 'n jsval \<times> 'n heap) option"
where
  "getOrDefault fuel h this k defaultValue =
     (case objectAt h this of
        None \<Rightarrow> map_option Inr (normalizeH fuel h defaultValue)
      | Some (a, obj) \<Rightarrow>
          (case property obj k of
             Undefined \<Rightarrow> map_option Inr (normalizeH fuel h defaultValue)
           | Stored JNull \<Rightarrow> map_option Inr (normalizeH fuel h defaultValue)
           | p \<Rightarrow> construct fuel h p))"

text \<open>
  The values a cell holds. A heap is ranked when every reference in a cell leads to a
  cell of the heap of lower rank: its values are finite trees, possibly shared.
  A heap extends another freshly when it adds cells whose references lead to added
  cells only.
\<close>

fun cellVals :: "'n cell \<Rightarrow> 'n jsval list" where
  "cellVals (ArrCell xs) = xs"
| "cellVals (ObjCell kvs) = map snd kvs"

definition rankedBelow :: "(nat \<Rightarrow> nat) \<Rightarrow> nat \<Rightarrow> 'n heap \<Rightarrow> bool" where
  "rankedBelow rk n h =
     (n \<le> length h
      \<and> (\<forall>a < n. \<forall>r. JRef r \<in> set (cellVals (h ! a)) \<longrightarrow> r < n \<and> rk r < rk a))"

definition ranked :: "(nat \<Rightarrow> nat) \<Rightarrow> 'n heap \<Rightarrow> bool" where
  "ranked rk h = rankedBelow rk (length h) h"

definition freshExt :: "'n heap \<Rightarrow> 'n heap \<Rightarrow> bool" where
  "freshExt h h1 =
     ((\<exists>ext. h1 = h @ ext)
      \<and> (\<forall>a r. length h \<le> a \<and> a < length h1 \<and> JRef r \<in> set (cellVals (h1 ! a))
             \<longrightarrow> length h \<le> r \<and> r < length h1))"

definition freshVals :: "'n heap \<Rightarrow> 'n heap \<Rightarrow> 'n jsval list \<Rightarrow> bool" where
  "freshVals h h1 vs = (\<forall>r. JRef r \<in> set vs \<longrightarrow> length h \<le> r \<and> r < length h1)"

text \<open>
  The child of \<open>this\<close> that a key or an index names: the entry of the object under a key
  of its own, the element of the array at an index in range.
\<close>

fun stored :: "'n heap \<Rightarrow> 'n jsval \<Rightarrow> key \<Rightarrow> 'n jsval option" where
  "stored h this (KeyStr k) =
     (case objectAt h this of None \<Rightarrow> None | Some (a, obj) \<Rightarrow> getKey obj k)"
| "stored h this (KeyNum i) =
     (case arrayAt h this of
        None \<Rightarrow> None
      | Some (a, xs) \<Rightarrow> if 0 \<le> i \<and> i < int (length xs) then Some (xs ! nat i) else None)"

text \<open>
  The tree that a value of the store stands for, read as \<^verbatim>\<open>toNative\<close> reads it: the
  elements of an array in order, the entries of an object assigned in order to a new
  object. As for \<open>normalizeH\<close>, one unit of fuel is used for each reference followed.
\<close>

fun treeOf :: "nat \<Rightarrow> 'n heap \<Rightarrow> 'n jsval \<Rightarrow> 'n val option"
  and treeOfList :: "nat \<Rightarrow> 'n heap \<Rightarrow> 'n jsval list \<Rightarrow> 'n val list option"
  and treeOfEntries ::
    "nat \<Rightarrow> 'n heap \<Rightarrow> (string \<times> 'n jsval) list \<Rightarrow> (string \<times> 'n val) list \<Rightarrow>
       (string \<times> 'n val) list option"
where
  "treeOf fuel h (JRef a) =
     (case fuel of
        0 \<Rightarrow> None
      | Suc f \<Rightarrow>
          (if a < length h then
             (case h ! a of
                ArrCell xs \<Rightarrow> map_option VArr (treeOfList f h xs)
              | ObjCell kvs \<Rightarrow> map_option VObj (treeOfEntries f h kvs []))
           else None))"
| "treeOf fuel h JNull = Some VNull"
| "treeOf fuel h (JBool b) = Some (VBool b)"
| "treeOf fuel h (JNum n) = Some (VNum n)"
| "treeOf fuel h (JStr s) = Some (VStr s)"
| "treeOfList fuel h [] = Some []"
| "treeOfList fuel h (x # xs) =
     (case treeOf fuel h x of
        None \<Rightarrow> None
      | Some t \<Rightarrow> map_option ((#) t) (treeOfList fuel h xs))"
| "treeOfEntries fuel h [] result = Some result"
| "treeOfEntries fuel h (e # es) result =
     (case treeOf fuel h (snd e) of
        None \<Rightarrow> None
      | Some t \<Rightarrow> treeOfEntries fuel h es (setKey (fst e) t result))"

text \<open>
  A run of calls of \<^verbatim>\<open>set\<close> through one \<^verbatim>\<open>OrtValue\<close>, each with its key and value; a
  call that throws leaves the heap as it is, and the run goes on.
\<close>

fun setAll :: "nat \<Rightarrow> 'n heap \<Rightarrow> 'n jsval \<Rightarrow> (key \<times> 'n jsval) list \<Rightarrow> 'n heap option" where
  "setAll fuel h this [] = Some h"
| "setAll fuel h this (c # cs) =
     (case setValue fuel h this (fst c) (snd c) of
        None \<Rightarrow> None
      | Some (Inl e) \<Rightarrow> setAll fuel h this cs
      | Some (Inr h1) \<Rightarrow> setAll fuel h1 this cs)"

section \<open>Decimal integers, for the examples\<close>

text \<open>
  To evaluate the model on concrete documents the two number parameters are instantiated
  with the decimal-integer fragment of the host's functions: \<open>decNumber\<close> reads an
  optionally signed run of digits, with white space around it ignored and the blank
  string read as 0, as \<^verbatim>\<open>Number\<close> does; on every other text it answers \<open>None\<close>, which is
  \<^verbatim>\<open>Number\<close>'s answer only where the text is no numeric literal at all. The examples
  below use texts of those two kinds only. \<open>decString\<close> prints an integer as
  \<^verbatim>\<open>String\<close> does.
\<close>

definition isDigit :: "char \<Rightarrow> bool" where
  "isDigit c = (c \<in> set ''0123456789'')"

definition digitVal :: "char \<Rightarrow> nat" where
  "digitVal c = of_char c - of_char CHR ''0''"

fun digitsVal :: "nat \<Rightarrow> string \<Rightarrow> nat" where
  "digitsVal acc [] = acc"
| "digitsVal acc (c # cs) = digitsVal (10 * acc + digitVal c) cs"

definition decDigits :: "string \<Rightarrow> nat option" where
  "decDigits ds = (if ds \<noteq> [] \<and> list_all isDigit ds then Some (digitsVal 0 ds) else None)"

definition decNumber :: "string \<Rightarrow> int option" where
  "decNumber s =
     (let t = trim s in
      if t = [] then Some 0
      else if hd t = CHR ''-'' then map_option (\<lambda>n. - int n) (decDigits (tl t))
      else if hd t = CHR ''+'' then map_option int (decDigits (tl t))
      else map_option int (decDigits t))"

function natString :: "nat \<Rightarrow> string" where
  "natString n =
     (if n < 10 then [char_of (of_char CHR ''0'' + n)]
      else natString (n div 10) @ [char_of (of_char CHR ''0'' + n mod 10)])"
  by pat_completeness auto
termination
  by (relation "measure id") auto

definition decString :: "int \<Rightarrow> string" where
  "decString i = (if i < 0 then CHR ''-'' # natString (nat (- i)) else natString (nat i))"

section \<open>Vocabulary for the properties of the parser\<close>

text \<open>
  The functions of the parser unfold on demand only: \<^verbatim>\<open>parseOrt\<close>'s loop and
  \<^verbatim>\<open>parseValue\<close> are defined by equations that mention themselves under a condition.
\<close>

declare parseOrtLoop.simps [simp del] parseValue.simps [simp del] parseArray.simps [simp del]
  parseInlineObject.simps [simp del] parseFields.simps [simp del]

text \<open>The two messages that report a count of values.\<close>

definition isArityMessage :: "message \<Rightarrow> bool" where
  "isArityMessage m =
     (case m of ExpectedValues a b \<Rightarrow> True | ExpectedNestedValues a b \<Rightarrow> True | _ \<Rightarrow> False)"

text \<open>
  A line that every loop of the parser passes over (blank, or a comment), the number of
  the other lines in a list, a line that ends the data lines of the section above it,
  and a line that the top-level loop passes over without reading a header from it.
\<close>

definition blankOrComment :: "string \<Rightarrow> bool" where
  "blankOrComment raw = (let l = trim raw in l = [] \<or> startsWith l ''#'')"

definition dataRowCount :: "string list \<Rightarrow> nat" where
  "dataRowCount rest = length (filter (\<lambda>raw. \<not> blankOrComment raw) rest)"

definition headerLine :: "string \<Rightarrow> bool" where
  "headerLine raw =
     (let l = trim raw in \<not> (l = [] \<or> startsWith l ''#'') \<and> includesChar l CHR '':'' \<and> isHeader l)"

definition skippedLine :: "string \<Rightarrow> bool" where
  "skippedLine raw =
     (let l = trim raw in l = [] \<or> startsWith l ''#'' \<or> \<not> includesChar l CHR '':'')"

text \<open>
  The \<^verbatim>\<open>escaped\<close> flag and the two depth counters of the scanning loop after the
  characters \<open>s\<close>: the loop of \<open>scanLoop\<close> without its pieces.
\<close>

fun scanState :: "bool \<Rightarrow> int \<Rightarrow> int \<Rightarrow> string \<Rightarrow> bool \<times> int \<times> int" where
  "scanState escaped depth bracketDepth [] = (escaped, depth, bracketDepth)"
| "scanState escaped depth bracketDepth (ch # s) =
     (if escaped then scanState False depth bracketDepth s
      else if ch = BSL then scanState True depth bracketDepth s
      else if ch = CHR ''('' then scanState escaped (depth + 1) bracketDepth s
      else if ch = CHR '')'' then scanState escaped (depth - 1) bracketDepth s
      else if ch = CHR ''['' then scanState escaped depth (bracketDepth + 1) s
      else if ch = CHR '']'' then scanState escaped depth (bracketDepth - 1) s
      else scanState escaped depth bracketDepth s)"

section \<open>Vocabulary for the round trip\<close>

text \<open>
  The characters the scanning loop reacts to, and the texts it passes over as a whole:
  scanned at depths that are not negative, such a text is added to the current piece
  and leaves the flag and the counters as they were.
\<close>

definition specialChar :: "char \<Rightarrow> bool" where
  "specialChar c = (c = CHR ''('' \<or> c = CHR '')'' \<or> c = CHR ''['' \<or> c = CHR '']''
                    \<or> c = CHR '','' \<or> c = BSL)"

definition atomic :: "string \<Rightarrow> bool" where
  "atomic t = (\<forall>vals cur d bd rest. 0 \<le> d \<longrightarrow> 0 \<le> bd \<longrightarrow>
       scanLoop vals cur False d bd (t @ rest) = scanLoop vals (cur @ t) False d bd rest)"

text \<open>
  The values that the literal form writes and reads back. A number must print as a
  non-empty text without white space and without the characters of the scan, and that
  text must read as the number. A string must be non-empty, its escaped text must have
  no white space to trim at its ends, and it must read as no number and be neither
  \<^verbatim>\<open>true\<close> nor \<^verbatim>\<open>false\<close>. The texts \<^verbatim>\<open>true\<close> and \<^verbatim>\<open>false\<close> must read as no number. A
  key must have none of the characters of the scan, no colon and no newline, and no
  white space to trim at its ends, and it must not be \<^verbatim>\<open>__proto__\<close>, which no assignment
  makes a key; the keys of an object are distinct. The last element of an array must not
  be null.
\<close>

definition numOK :: "(string \<Rightarrow> 'n option) \<Rightarrow> ('n \<Rightarrow> string) \<Rightarrow> 'n \<Rightarrow> bool" where
  "numOK toNum numStr n =
     (numStr n \<noteq> [] \<and> list_all (\<lambda>c. \<not> specialChar c \<and> \<not> isSpace c) (numStr n)
      \<and> toNum (numStr n) = Some n)"

definition strOK :: "(string \<Rightarrow> 'n option) \<Rightarrow> string \<Rightarrow> bool" where
  "strOK toNum s =
     (s \<noteq> [] \<and> trim (escape s) = escape s \<and> toNum s = None \<and> s \<noteq> ''true'' \<and> s \<noteq> ''false'')"

definition keyOK :: "string \<Rightarrow> bool" where
  "keyOK k = (list_all (\<lambda>c. \<not> specialChar c \<and> c \<noteq> CHR '':'' \<and> c \<noteq> LF) k \<and> trim k = k
              \<and> k \<noteq> ''__proto__'')"

fun literalSafe :: "(string \<Rightarrow> 'n option) \<Rightarrow> ('n \<Rightarrow> string) \<Rightarrow> 'n val \<Rightarrow> bool"
  and literalSafeList :: "(string \<Rightarrow> 'n option) \<Rightarrow> ('n \<Rightarrow> string) \<Rightarrow> 'n val list \<Rightarrow> bool"
  and literalSafeEntries ::
    "(string \<Rightarrow> 'n option) \<Rightarrow> ('n \<Rightarrow> string) \<Rightarrow> (string \<times> 'n val) list \<Rightarrow> bool"
where
  "literalSafe toNum numStr VNull = True"
| "literalSafe toNum numStr (VBool b) = (toNum (if b then ''true'' else ''false'') = None)"
| "literalSafe toNum numStr (VNum n) = numOK toNum numStr n"
| "literalSafe toNum numStr (VStr s) = strOK toNum s"
| "literalSafe toNum numStr (VArr xs) =
     (literalSafeList toNum numStr xs \<and> (xs = [] \<or> last xs \<noteq> VNull))"
| "literalSafe toNum numStr (VObj kvs) =
     (literalSafeEntries toNum numStr kvs \<and> distinct (map fst kvs))"
| "literalSafeList toNum numStr [] = True"
| "literalSafeList toNum numStr (x # xs) =
     (literalSafe toNum numStr x \<and> literalSafeList toNum numStr xs)"
| "literalSafeEntries toNum numStr [] = True"
| "literalSafeEntries toNum numStr (e # es) =
     (keyOK (fst e) \<and> literalSafe toNum numStr (snd e) \<and> literalSafeEntries toNum numStr es)"

text \<open>What the proof of the round trip shows of the text of a value.\<close>

definition textOK :: "(string \<Rightarrow> 'n option) \<Rightarrow> ('n \<Rightarrow> string) \<Rightarrow> 'n val \<Rightarrow> bool" where
  "textOK toNum numStr v =
     (atomic (generateValue numStr v True)
      \<and> trim (generateValue numStr v True) = generateValue numStr v True
      \<and> LF \<notin> set (generateValue numStr v True)
      \<and> (v = VNull \<or> generateValue numStr v True \<noteq> [])
      \<and> parseValue toNum (generateValue numStr v True) = v)"

text \<open>
  A text that \<^verbatim>\<open>parseSection\<close> counts as a data line, and a key that can head a section:
  a key as above that is not empty and does not start a comment.
\<close>

definition dataLineText :: "string \<Rightarrow> bool" where
  "dataLineText t = (t \<noteq> [] \<and> \<not> startsWith t ''#'' \<and> \<not> (includesChar t CHR '':'' \<and> isHeader t))"

definition sectionKeyOK :: "string \<Rightarrow> bool" where
  "sectionKeyOK k = (keyOK k \<and> k \<noteq> [] \<and> \<not> startsWith k ''#'')"

text \<open>
  The tabular form. The fields that the header written for a first row declares: one
  for each entry, with nested fields where the value is an object.
\<close>

fun fieldsOf :: "(string \<times> 'n val) list \<Rightarrow> Field list" where
  "fieldsOf [] = []"
| "fieldsOf (e # es) =
     Field (fst e) (case snd e of VObj nested \<Rightarrow> fieldsOf nested | _ \<Rightarrow> []) # fieldsOf es"

text \<open>
  Field names that the header parser reads back: keys as above that are not empty,
  distinct among the fields of one list, at every level.
\<close>

fun fieldsOK :: "Field list \<Rightarrow> bool" where
  "fieldsOK [] = True"
| "fieldsOK (Field nm nested # fs) =
     (keyOK nm \<and> nm \<noteq> [] \<and> nm \<notin> set (map name fs) \<and> fieldsOK nested \<and> fieldsOK fs)"

text \<open>
  A cell that is written under a field and read back as it was. A cell that is no
  object is a literal-safe value. An object is empty, or it has the keys of the nested
  fields, in their order, with cells that fit them; an object with the one value
  \<^verbatim>\<open>null\<close> is left out, as its text is that of the empty object.
\<close>

fun cellOK :: "(string \<Rightarrow> 'n option) \<Rightarrow> ('n \<Rightarrow> string) \<Rightarrow> Field \<Rightarrow> 'n val \<Rightarrow> bool"
  and cellsOK ::
    "(string \<Rightarrow> 'n option) \<Rightarrow> ('n \<Rightarrow> string) \<Rightarrow> Field list \<Rightarrow> (string \<times> 'n val) list \<Rightarrow> bool"
where
  "cellOK toNum numStr (Field nm nested) v =
     (case v of
        VObj es \<Rightarrow> es = [] \<or> (cellsOK toNum numStr nested es \<and> map snd es \<noteq> [VNull])
      | _ \<Rightarrow> literalSafe toNum numStr v)"
| "cellsOK toNum numStr [] es = (es = [])"
| "cellsOK toNum numStr (f # fs) es =
     (case es of
        [] \<Rightarrow> False
      | e # es' \<Rightarrow> fst e = name f \<and> cellOK toNum numStr f (snd e) \<and> cellsOK toNum numStr fs es')"

text \<open>
  A row that fits the fields: an object with the keys of the fields, in their order,
  and cells that fit them, whose generated text is a data line. A table: a non-empty
  list of rows that fit the fields of the first row, of which there is at least one.
\<close>

definition rowOK ::
  "(string \<Rightarrow> 'n option) \<Rightarrow> ('n \<Rightarrow> string) \<Rightarrow> Field list \<Rightarrow> 'n val \<Rightarrow> bool" where
  "rowOK toNum numStr flds row =
     (isObject row \<and> cellsOK toNum numStr flds (entriesOf row)
      \<and> dataLineText (rowText numStr (map name flds) row))"

definition tableOK :: "(string \<Rightarrow> 'n option) \<Rightarrow> ('n \<Rightarrow> string) \<Rightarrow> 'n val list \<Rightarrow> bool" where
  "tableOK toNum numStr rows =
     (rows \<noteq> []
      \<and> (let flds = fieldsOf (entriesOf (hd rows)) in
           flds \<noteq> [] \<and> fieldsOK flds \<and> list_all (rowOK toNum numStr flds) rows))"

text \<open>
  An entry of the top-level object that is written as a section and read back: a
  section key with a table, where the value is a uniform array of objects, and
  otherwise with a literal-safe value whose text is a data line (as the text of every
  array is).
\<close>

definition sectionOK ::
  "(string \<Rightarrow> 'n option) \<Rightarrow> ('n \<Rightarrow> string) \<Rightarrow> string \<times> 'n val \<Rightarrow> bool" where
  "sectionOK toNum numStr e =
     (sectionKeyOK (fst e)
      \<and> (case snd e of
           VArr arr \<Rightarrow>
             (if isUniformObjectArray arr then tableOK toNum numStr arr
              else literalSafe toNum numStr (VArr arr))
         | v \<Rightarrow> literalSafe toNum numStr v \<and> dataLineText (generateValue numStr v True)))"

text \<open>The lines that the generator writes for such an entry: the header and the data lines.\<close>

definition sectionLines :: "('n \<Rightarrow> string) \<Rightarrow> string \<Rightarrow> 'n val \<Rightarrow> string list" where
  "sectionLines numStr key v =
     (case v of
        VArr arr \<Rightarrow>
          if isUniformObjectArray arr
          then (key @ '':'' @ generateHeader (entriesOf (hd arr)))
                 # map (rowText numStr (objectKeys (entriesOf (hd arr)))) arr
          else [key @ '':'', generateValue numStr v True]
      | _ \<Rightarrow> [key @ '':'', generateValue numStr v True])"

text \<open>The text that the generator writes for a cell of a row.\<close>

abbreviation cellText :: "('n \<Rightarrow> string) \<Rightarrow> 'n val \<Rightarrow> string" where
  "cellText numStr v \<equiv> generateObjectFieldValue numStr (Some v)"

text \<open>
  The texts that the inner loop of \<^verbatim>\<open>parseFields\<close> passes over as a whole: scanned at
  a positive depth, such a text is added to the nested string and leaves the depth as it
  was.
\<close>

definition balanced :: "string \<Rightarrow> bool" where
  "balanced t = (\<forall>d rest. 0 < d \<longrightarrow>
       collectNested d (t @ rest) = (case collectNested d rest of (n, r) \<Rightarrow> (t @ n, r)))"

text \<open>
  Rows up to the order of their keys. The generator looks the cells of a row up by the
  keys of the first row, so it writes the same line for two objects that have the same
  entries in another order, and the parser gives the row back with the keys in the
  order of the header. \<open>sameEntries\<close> relates two objects with the same entries;
  \<open>sameRows\<close> relates a list of rows to a uniform array with the same first row whose
  rows have the same entries; \<open>sameSection\<close> relates two entries with the same key and
  with the same value or with such tables.
\<close>

fun sameEntries :: "'n val \<Rightarrow> 'n val \<Rightarrow> bool" where
  "sameEntries (VObj es) (VObj fs) =
     (distinct (map fst es) \<and> distinct (map fst fs) \<and> set es = set fs)"
| "sameEntries v w = False"

definition sameRows :: "'n val list \<Rightarrow> 'n val list \<Rightarrow> bool" where
  "sameRows given rows =
     (isUniformObjectArray rows \<and> hd given = hd rows \<and> list_all2 sameEntries given rows)"

definition sameSection :: "string \<times> 'n val \<Rightarrow> string \<times> 'n val \<Rightarrow> bool" where
  "sameSection d e =
     (fst d = fst e
      \<and> (snd d = snd e
         \<or> (case (snd d, snd e) of (VArr given, VArr rows) \<Rightarrow> sameRows given rows | _ \<Rightarrow> False)))"

section \<open>Facts about strings and objects\<close>

lemma trimEnd_id: "t = [] \<or> \<not> isSpace (last t) \<Longrightarrow> trimEnd t = t"
  unfolding trimEnd_def by (cases t rule: rev_cases) auto

lemma trimStart_id: "t = [] \<or> \<not> isSpace (hd t) \<Longrightarrow> trimStart t = t"
  unfolding trimStart_def by (cases t) auto

lemma trim_id: "t = [] \<or> (\<not> isSpace (hd t) \<and> \<not> isSpace (last t)) \<Longrightarrow> trim t = t"
  unfolding trim_def using trimStart_id [of t] trimEnd_id [of t] by auto

lemma trim_idD:
  assumes "trim t = t" "t \<noteq> []"
  shows "\<not> isSpace (hd t)" "\<not> isSpace (last t)"
proof -
  have s: "trimStart t \<noteq> [] \<Longrightarrow> \<not> isSpace (hd (trimStart t))" for t
    unfolding trimStart_def by (simp add: hd_dropWhile)
  have e: "trimEnd u \<noteq> [] \<Longrightarrow> \<not> isSpace (last (trimEnd u))" for u
    unfolding trimEnd_def using hd_dropWhile [of isSpace "rev u"]
    by (simp add: last_rev)
  have le: "length (trimEnd u) \<le> length u" for u
    unfolding trimEnd_def using length_dropWhile_le [of isSpace "rev u"] by simp
  have ls: "length (trimStart t) \<le> length t"
    unfolding trimStart_def by (rule length_dropWhile_le)
  from assms have "length (trimEnd (trimStart t)) = length t" by (simp add: trim_def)
  with le [of "trimStart t"] ls have "length (trimStart t) = length t" by simp
  then have st: "trimStart t = t"
    unfolding trimStart_def
    by (metis append_eq_conv_conj append_self_conv2 length_0_conv length_drop diff_self_eq_0 
        takeWhile_dropWhile_id length_append add_cancel_right_left)
  with s [of t] assms(2) show "\<not> isSpace (hd t)" by simp
  from assms st have "trimEnd t = t" by (simp add: trim_def)
  with e [of t] assms(2) show "\<not> isSpace (last t)" by simp
qed

lemma trim_trim: "trim (trim s) = trim s"
proof (cases "trim s = []")
  case True
  have "trim [] = []" by (simp add: trim_def trimStart_def trimEnd_def)
  with True show ?thesis by simp
next
  case False
  have e: "trimEnd u \<noteq> [] \<Longrightarrow> \<not> isSpace (last (trimEnd u))" for u
    unfolding trimEnd_def using hd_dropWhile [of isSpace "rev u"]
    by (simp add: last_rev)
  have s: "trimStart t \<noteq> [] \<Longrightarrow> \<not> isSpace (hd (trimStart t))" for t
    unfolding trimStart_def by (simp add: hd_dropWhile)
  have h: "trimEnd u \<noteq> [] \<Longrightarrow> hd (trimEnd u) = hd u" for u
  proof -
    assume ne: "trimEnd u \<noteq> []"
    have "\<exists>w. u = trimEnd u @ w"
      unfolding trimEnd_def
      by (metis rev_append rev_rev_ident takeWhile_dropWhile_id)
    then obtain w where "u = trimEnd u @ w" by blast
    with ne show ?thesis by (metis hd_append2)
  qed
  from False have ne: "trimStart s \<noteq> []" by (auto simp: trim_def trimEnd_def)
  from False h [of "trimStart s"] s [OF ne] have "\<not> isSpace (hd (trim s))"
    by (simp add: trim_def)
  moreover from False e [of "trimStart s"] have "\<not> isSpace (last (trim s))"
    by (simp add: trim_def)
  ultimately show ?thesis by (intro trim_id) simp
qed

lemma trim_nonempty: "c \<in> set t \<Longrightarrow> \<not> isSpace c \<Longrightarrow> trim t \<noteq> []"
proof -
  assume c: "c \<in> set t" "\<not> isSpace c"
  then have "dropWhile isSpace t \<noteq> []" by (auto simp: dropWhile_eq_Nil_conv)
  moreover have "set (dropWhile isSpace t) \<supseteq> {x \<in> set t. \<not> isSpace x}"
    by (induction t) auto
  ultimately have "\<exists>x \<in> set (trimStart t). \<not> isSpace x"
    using c unfolding trimStart_def by auto
  then have "dropWhile isSpace (rev (trimStart t)) \<noteq> []"
    by (auto simp: dropWhile_eq_Nil_conv)
  then show ?thesis by (simp add: trim_def trimEnd_def)
qed

lemma set_putKey: "set (map snd (putKey k v kvs)) \<subseteq> insert v (set (map snd kvs))"
  by (induction kvs) auto

lemma set_setKey: "set (map snd (setKey k v kvs)) \<subseteq> insert v (set (map snd kvs))"
  using set_putKey [of k v kvs] by (auto simp: setKey_def)

lemma keys_putKey: "map fst (putKey k v kvs) = (if k \<in> set (map fst kvs) then map fst kvs else map fst kvs @ [k])"
  by (induction kvs) auto

lemma keys_setKey:
  "distinct (map fst kvs) \<Longrightarrow> ''__proto__'' \<notin> set (map fst kvs) \<Longrightarrow>
     distinct (map fst (setKey k v kvs)) \<and> ''__proto__'' \<notin> set (map fst (setKey k v kvs))"
proof (cases "k = ''__proto__''")
  case True
  assume "distinct (map fst kvs)" "''__proto__'' \<notin> set (map fst kvs)"
  with True show ?thesis by (simp add: setKey_def)
next
  case False
  assume a: "distinct (map fst kvs)" "''__proto__'' \<notin> set (map fst kvs)"
  have "map fst (setKey k v kvs) = (if k \<in> set (map fst kvs) then map fst kvs else map fst kvs @ [k])"
    using False keys_putKey [of k v kvs] by (simp add: setKey_def)
  with a False show ?thesis by (auto split: if_splits)
qed

lemma assignAll_distinct:
  "distinct (map fst (acc @ es)) \<Longrightarrow> ''__proto__'' \<notin> set (map fst es) \<Longrightarrow> assignAll acc es = acc @ es"
proof (induction es arbitrary: acc)
  case Nil
  then show ?case by simp
next
  case (Cons e es)
  from Cons.prems have k: "fst e \<notin> set (map fst acc)" "fst e \<noteq> ''__proto__''" by auto
  have p: "putKey (fst e) (snd e) acc = acc @ [e]" if "fst e \<notin> set (map fst acc)" for acc
    using that by (induction acc) auto
  from k p have s: "setKey (fst e) (snd e) acc = acc @ [e]" by (simp add: setKey_def)
  from Cons.prems have "distinct (map fst ((acc @ [e]) @ es))" "''__proto__'' \<notin> set (map fst es)"
    by auto
  from Cons.IH [OF this] s show ?case by simp
qed

section \<open>Escaping inverse law\<close>

lemma unescapeLoop_escapeChar:
  "unescapeLoop False (escapeChar ch @ rest) = ch # unescapeLoop False rest"
  by (simp add: escapeChar_def)

text \<open>
  Claim C3. For every string \<open>s\<close>, unescaping the escaped string gives \<open>s\<close> back. The
  generator's escape puts a backslash before exactly the characters \<open>( ) [ ] ,\<close> and the
  backslash, writes newline, tab and carriage return as the two characters \<open>\n\<close>,
  \<open>\t\<close>, \<open>\r\<close>, and leaves every other character as it is.
\<close>

theorem unescape_escape:
  "unescape (escape s) = s
   \<and> escape [c] =
       (if c \<in> set ''()[],'' \<or> c = BSL then [BSL, c]
        else if c = LF then [BSL, CHR ''n'']
        else if c = TAB then [BSL, CHR ''t'']
        else if c = CR then [BSL, CHR ''r'']
        else [c])"
proof
  show "unescape (escape s) = s"
    unfolding unescape_def
    by (induction s) (simp_all add: unescapeLoop_escapeChar)
  show "escape [c] =
       (if c \<in> set ''()[],'' \<or> c = BSL then [BSL, c]
        else if c = LF then [BSL, CHR ''n'']
        else if c = TAB then [BSL, CHR ''t'']
        else if c = CR then [BSL, CHR ''r'']
        else [c])"
    by (simp add: escapeChar_def)
qed

section \<open>Errors of the parser\<close>

lemma indexOf_None_iff: "indexOf s c = None \<longleftrightarrow> c \<notin> set s"
  by (induction s) (auto split: option.splits)

lemma parseHeader_colon:
  "includesChar ln CHR '':'' \<Longrightarrow> \<exists>k f. parseHeader ln n = Inr (k, f)"
  by (cases "indexOf ln CHR '':''")
     (auto simp: parseHeader_def includesChar_def indexOf_None_iff)

lemma parseFields_error:
  "parseFields fs ln n = Inl e \<Longrightarrow>
      e = \<lparr>lineNum = n, line = ln, message = UnmatchedClosingParenthesis\<rparr>"
  "parseFieldsLoop ln' n' res cur d cs = Inl e' \<Longrightarrow>
      e' = \<lparr>lineNum = n', line = ln', message = UnmatchedClosingParenthesis\<rparr>"
proof (induction fs ln n and ln' n' res cur d cs arbitrary: e and e'
       rule: parseFields_parseFieldsLoop.induct)
  case (1 fieldsStr ln lineNo)
  then show ?case by (simp add: parseFields.simps del: parseFieldsLoop.simps split: if_splits)
next
  case (2 ln lineNo result current depth)
  then show ?case by (simp add: Let_def split: if_splits)
next
  case (3 ln lineNo result current depth ch cs)
  then show ?case
    by (auto simp: Let_def split: if_splits prod.splits sum.splits)
qed

lemma parseFieldValue_error:
  "parseFieldValue (toNum :: string \<Rightarrow> 'n option) f v ln n = Inl e \<Longrightarrow>
      lineNum e = n \<and> line e = ln \<and> (\<exists>a b. message e = ExpectedNestedValues a b)"
  "fieldLoop (toNum' :: string \<Rightarrow> 'n option) fs vs ln' n' obj = Inl e' \<Longrightarrow>
      lineNum e' = n' \<and> line e' = ln' \<and> (\<exists>a b. message e' = ExpectedNestedValues a b)"
proof (induction toNum f v ln n and toNum' fs vs ln' n' obj arbitrary: e and e'
       rule: parseFieldValue_fieldLoop.induct)
  case (1 toNum nm nested valueStr ln lineNo)
  then show ?case
    by (auto simp: Let_def simp del: parseValue.simps split: if_splits sum.splits)
next
  case (2 toNum vals ln lineNo obj)
  then show ?case by simp
next
  case (3 toNum f fs ln lineNo obj)
  then show ?case by simp
next
  case (4 toNum f fs valueStr vals ln lineNo obj)
  then show ?case by (auto split: sum.splits)
qed

lemma parseDataLinesLoop_error:
  "parseDataLinesLoop toNum flds count rest i result processed = Inl e \<Longrightarrow>
     i < lineNum e \<and> lineNum e \<le> i + length rest
     \<and> line e = trim (rest ! (lineNum e - i - 1)) \<and> isArityMessage (message e)"
proof (induction rest arbitrary: i result processed)
  case Nil
  then show ?case by simp
next
  case (Cons raw rest)
  show ?case
  proof (cases "processed \<ge> count")
    case True
    with Cons.prems show ?thesis by simp
  next
    case False
    note nf = this
    show ?thesis
    proof (cases "trim raw = [] \<or> startsWith (trim raw) ''#''")
      case True
      with nf Cons.prems
      have "parseDataLinesLoop toNum flds count rest (i + 1) result processed = Inl e"
        by (simp add: Let_def)
      from Cons.IH [OF this] show ?thesis by (auto simp: nth_Cons')
    next
      case False
      note data = this
      show ?thesis
      proof (cases "length flds = 0 \<or> length (parseDataValues (trim raw)) \<noteq> length flds")
        case True
        with nf data Cons.prems show ?thesis
          by (auto simp: Let_def isArityMessage_def simp del: parseValue.simps
                   split: if_splits)
      next
        case False
        note ok = this
        show ?thesis
        proof (cases "fieldLoop toNum flds (parseDataValues (trim raw)) (trim raw) (i + 1) []")
          case (Inl e')
          with nf data ok Cons.prems have "e = e'" by (simp add: Let_def)
          with parseFieldValue_error(2) [OF Inl] show ?thesis
            by (auto simp: isArityMessage_def)
        next
          case (Inr obj)
          with nf data ok Cons.prems
          have "parseDataLinesLoop toNum flds count rest (i + 1) (result @ [VObj obj])
                  (processed + 1) = Inl e"
            by (simp add: Let_def)
          from Cons.IH [OF this] show ?thesis by (auto simp: nth_Cons')
        qed
      qed
    qed
  qed
qed

lemma parseDataLines_error:
  assumes "parseDataLines toNum lines startIdx flds count = Inl e"
  shows "startIdx < lineNum e \<and> lineNum e \<le> length lines
         \<and> line e = trim (lines ! (lineNum e - 1)) \<and> isArityMessage (message e)"
proof -
  from parseDataLinesLoop_error [OF assms [unfolded parseDataLines_def]]
  have a: "startIdx < lineNum e" "lineNum e \<le> startIdx + length (drop startIdx lines)"
       "line e = trim (drop startIdx lines ! (lineNum e - startIdx - 1))"
       "isArityMessage (message e)" by simp_all
  from a(1,2) have le: "lineNum e \<le> length lines" by simp
  from a(1,2) have "drop startIdx lines ! (lineNum e - startIdx - 1) = lines ! (lineNum e - 1)"
    by (subst nth_drop) simp_all
  with a le show ?thesis by simp
qed

lemma parseSection_error:
  assumes "parseSection lines i = Inl e" "includesChar (trim (lines ! i)) CHR '':''"
  shows "e = \<lparr>lineNum = i + 1, line = trim (lines ! i), message = UnmatchedClosingParenthesis\<rparr>"
proof -
  obtain k f where h: "parseHeader (trim (lines ! i)) (i + 1) = Inr (k, f)"
    using parseHeader_colon [OF assms(2)] by blast
  with assms(1) have "parseFields f (trim (lines ! i)) (i + 1) = Inl e"
    by (simp add: parseSection_def Let_def split: sum.splits)
  from parseFields_error(1) [OF this] show ?thesis .
qed

lemma parseOrtLoop_error:
  "parseOrtLoop toNum lines lineIdx result = Inl e \<Longrightarrow>
     1 \<le> lineNum e \<and> lineNum e \<le> length lines
     \<and> line e = trim (lines ! (lineNum e - 1))
     \<and> message e \<noteq> InvalidHeaderFormat"
proof (induction toNum lines lineIdx result rule: parseOrtLoop.induct)
  case (1 toNum lines lineIdx result)
  let ?ln = "trim (lines ! lineIdx)"
  from "1.prems" have lt: "lineIdx < length lines"
    by (subst (asm) parseOrtLoop.simps) (simp split: if_splits)
  show ?case
  proof (cases "?ln = [] \<or> startsWith ?ln ''#''")
    case True
    with lt "1.prems" have "parseOrtLoop toNum lines (lineIdx + 1) result = Inl e"
      by (subst (asm) parseOrtLoop.simps) (simp add: Let_def)
    from "1.IH"(1) [OF lt refl True this] show ?thesis .
  next
    case False
    note nb = this
    show ?thesis
    proof (cases "includesChar ?ln CHR '':''")
      case False
      with lt nb "1.prems" have "parseOrtLoop toNum lines (lineIdx + 1) result = Inl e"
        by (subst (asm) parseOrtLoop.simps) (simp add: Let_def)
      from "1.IH"(3) [OF lt refl nb False this] show ?thesis .
    next
      case True
      note colon = this
      show ?thesis
      proof (cases "parseSection lines lineIdx")
        case (Inl e')
        with lt nb colon "1.prems" have "e = e'"
          by (subst (asm) parseOrtLoop.simps) (simp add: Let_def)
        with parseSection_error [OF Inl colon] lt show ?thesis by simp
      next
        case (Inr sec)
        obtain key flds n where sec: "sec = (key, flds, n)" by (cases sec)
        show ?thesis
        proof (cases "parseDataLines toNum lines (lineIdx + 1) flds n")
          case (Inl e')
          with lt nb colon Inr sec "1.prems" have "e = e'"
            by (subst (asm) parseOrtLoop.simps) (simp add: Let_def split: option.splits)
          with parseDataLines_error [OF Inl] show ?thesis
            by (auto simp: isArityMessage_def)
        next
          case (Inr vals)
          note dl = this
          show ?thesis
          proof (cases key)
            case None
            with lt nb colon \<open>parseSection lines lineIdx = Inr sec\<close> sec dl "1.prems"
            show ?thesis
              by (subst (asm) parseOrtLoop.simps)
                 (simp add: Let_def split: if_splits val.splits list.splits)
          next
            case (Some k)
            with lt nb colon \<open>parseSection lines lineIdx = Inr sec\<close> sec dl "1.prems"
            have "parseOrtLoop toNum lines (lineIdx + (n + 1)) (setKey k vals result) = Inl e"
              by (subst (asm) parseOrtLoop.simps) (simp add: Let_def)
            from "1.IH"(2) [OF lt refl nb colon \<open>parseSection lines lineIdx = Inr sec\<close>
                 sec [symmetric] _ Some dl this]
            show ?thesis by simp
          qed
        qed
      qed
    qed
  qed
qed

lemma dataRowCount_simps [simp]:
  "dataRowCount [] = 0"
  "dataRowCount (raw # rest) = (if blankOrComment raw then dataRowCount rest else Suc (dataRowCount rest))"
  by (simp_all add: dataRowCount_def)

lemma countDataLines_le: "countDataLines rest \<le> dataRowCount rest"
  by (induction rest) (auto simp: Let_def blankOrComment_def)

lemma countDataLines_append_header:
  "headerLine hdr \<Longrightarrow> countDataLines (xs @ hdr # post) = countDataLines xs"
  by (induction xs) (auto simp: Let_def headerLine_def)

lemma countDataLines_no_header:
  "\<forall>raw \<in> set xs. \<not> headerLine raw \<Longrightarrow> countDataLines (xs @ ys) = dataRowCount xs + countDataLines ys"
  by (induction xs) (auto simp: Let_def headerLine_def blankOrComment_def)

lemma parseDataLinesLoop_shape:
  "flds \<noteq> [] \<Longrightarrow> parseDataLinesLoop toNum flds count rest i result processed = Inr v \<Longrightarrow>
     \<exists>rs. v = VArr (result @ rs) \<and> list_all isObject rs
          \<and> length rs = min (count - processed) (dataRowCount rest)"
proof (induction rest arbitrary: i result processed)
  case Nil
  then show ?case by simp
next
  case (Cons raw rest)
  show ?case
  proof (cases "processed \<ge> count")
    case True
    with Cons.prems show ?thesis by simp
  next
    case False
    note nf = this
    show ?thesis
    proof (cases "blankOrComment raw")
      case True
      with nf Cons.prems
      have "parseDataLinesLoop toNum flds count rest (i + 1) result processed = Inr v"
        by (simp add: Let_def blankOrComment_def)
      from Cons.IH [OF Cons.prems(1) this] True show ?thesis by simp
    next
      case False
      with nf Cons.prems obtain obj where
        "parseDataLinesLoop toNum flds count rest (i + 1) (result @ [VObj obj]) (processed + 1) = Inr v"
        by (auto simp: Let_def blankOrComment_def split: if_splits sum.splits)
      from Cons.IH [OF Cons.prems(1) this] obtain rs where
        rs: "v = VArr ((result @ [VObj obj]) @ rs)" "list_all isObject rs"
            "length rs = min (count - (processed + 1)) (dataRowCount rest)" by blast
      with nf False show ?thesis
        by (intro exI [of _ "VObj obj # rs"]) auto
    qed
  qed
qed

lemma parseDataLinesLoop_append:
  "count - processed \<le> dataRowCount xs \<Longrightarrow>
     parseDataLinesLoop toNum flds count (xs @ ys) i result processed
       = parseDataLinesLoop toNum flds count xs i result processed"
proof (induction xs arbitrary: i result processed)
  case Nil
  then show ?case by (cases ys) simp_all
next
  case (Cons raw xs)
  show ?case
  proof (cases "processed \<ge> count")
    case True
    then show ?thesis by simp
  next
    case False
    note nf = this
    show ?thesis
    proof (cases "blankOrComment raw")
      case True
      with Cons.prems have "count - processed \<le> dataRowCount xs" by simp
      from Cons.IH [OF this] True nf show ?thesis
        by (simp add: Let_def blankOrComment_def)
    next
      case False
      with Cons.prems nf have "count - (processed + 1) \<le> dataRowCount xs" by simp
      from Cons.IH [OF this] False nf show ?thesis
        by (simp add: Let_def blankOrComment_def split: sum.splits)
    qed
  qed
qed

lemma parseOrtLoop_skip:
  "i \<le> length lines \<Longrightarrow> j \<le> i \<Longrightarrow> \<forall>k. j \<le> k \<and> k < i \<longrightarrow> skippedLine (lines ! k) \<Longrightarrow>
     parseOrtLoop toNum lines j result = parseOrtLoop toNum lines i result"
proof (induction "i - j" arbitrary: j)
  case 0
  then show ?case by simp
next
  case (Suc d)
  then have j: "j < i" "j < length lines" "skippedLine (lines ! j)" by auto
  have "parseOrtLoop toNum lines j result = parseOrtLoop toNum lines (j + 1) result"
    using j(2,3) by (subst parseOrtLoop.simps) (auto simp: Let_def skippedLine_def)
  also have "\<dots> = parseOrtLoop toNum lines i result"
    using Suc by (intro Suc.hyps(1)) auto
  finally show ?case .
qed

lemma startsWith_colon:
  "startsWith l '':'' \<Longrightarrow> l \<noteq> [] \<and> \<not> startsWith l ''#'' \<and> includesChar l CHR '':''"
  by (cases l) (auto simp: startsWith_def includesChar_def)

lemma parseSection_anonymous:
  "startsWith (trim (lines ! i)) '':'' \<Longrightarrow> parseSection lines i = Inr (key, flds, n) \<Longrightarrow>
     key = None \<and> n = countDataLines (drop (i + 1) lines)"
  by (auto simp: parseSection_def parseHeader_def Let_def split: sum.splits)

lemma parseOrtLoop_anonymous:
  assumes "i < length lines" "startsWith (trim (lines ! i)) '':''"
  shows "parseOrtLoop toNum lines i result =
           (case parseSection lines i of
              Inl e \<Rightarrow> Inl e
            | Inr (key, flds, n) \<Rightarrow>
                (case parseDataLines toNum lines (i + 1) flds n of
                   Inl e \<Rightarrow> Inl e
                 | Inr vals \<Rightarrow>
                     (if length flds > 0 \<and> n = 1
                      then (case vals of VArr [x] \<Rightarrow> Inr x | _ \<Rightarrow> Inr vals)
                      else Inr vals)))"
proof (cases "parseSection lines i")
  case (Inl e)
  with assms startsWith_colon [OF assms(2)] show ?thesis
    by (subst parseOrtLoop.simps) (simp add: Let_def)
next
  case (Inr sec)
  obtain key flds n where sec: "sec = (key, flds, n)" by (cases sec)
  with Inr parseSection_anonymous [OF assms(2)] have "key = None" by blast
  with Inr sec assms startsWith_colon [OF assms(2)] show ?thesis
    by (subst parseOrtLoop.simps) (simp add: Let_def)
qed

lemma startsWith_colon_header:
  assumes "startsWith (trim l) '':''"
  shows "headerLine l"
proof -
  from startsWith_colon [OF assms] have a: "trim l \<noteq> []" "\<not> startsWith (trim l) ''#''"
    "includesChar (trim l) CHR '':''" by simp_all
  from assms have "isHeader (trim l)" by (simp add: isHeader_def trim_trim)
  with a show ?thesis by (simp add: headerLine_def)
qed

lemma dataRowCount_le_length: "dataRowCount xs \<le> length xs"
  by (simp add: dataRowCount_def)

lemma prefix_section:
  assumes i: "i < length ls" and hl: "headerLine (ls ! i)" and j: "j < i"
  shows "parseSection (take i ls) j = parseSection ls j"
    and "parseSection ls j = Inr (key, flds, n) \<Longrightarrow>
           parseDataLines toNum (take i ls) (j + 1) flds n = parseDataLines toNum ls (j + 1) flds n
           \<and> j + (n + 1) \<le> i"
proof -
  let ?xs = "drop (j + 1) (take i ls)"
  from id_take_nth_drop [OF i] have "drop (j + 1) ls = drop (j + 1) (take i ls @ ls ! i # drop (i + 1) ls)"
    by simp
  also from i j have "\<dots> = ?xs @ ls ! i # drop (i + 1) ls" by simp
  finally have dr: "drop (j + 1) ls = ?xs @ ls ! i # drop (i + 1) ls" .
  from countDataLines_append_header [OF hl, of ?xs "drop (i + 1) ls"] dr
  have c: "countDataLines (drop (j + 1) ls) = countDataLines ?xs" by simp
  from i j have nth: "take i ls ! j = ls ! j" by simp
  from c nth show s: "parseSection (take i ls) j = parseSection ls j"
    by (simp add: parseSection_def)
  assume sec: "parseSection ls j = Inr (key, flds, n)"
  then have n: "n = countDataLines ?xs"
    using c by (auto simp: parseSection_def Let_def split: sum.splits)
  with countDataLines_le [of ?xs] have le: "n - 0 \<le> dataRowCount ?xs" by simp
  from parseDataLinesLoop_append [OF le, of toNum flds "ls ! i # drop (i + 1) ls" "j + 1" "[]"]
  have "parseDataLines toNum (take i ls) (j + 1) flds n = parseDataLines toNum ls (j + 1) flds n"
    unfolding parseDataLines_def dr by simp
  moreover from le dataRowCount_le_length [of ?xs] i j have "j + (n + 1) \<le> i" by simp
  ultimately show "parseDataLines toNum (take i ls) (j + 1) flds n = parseDataLines toNum ls (j + 1) flds n
           \<and> j + (n + 1) \<le> i" by simp
qed

lemma prefix_run:
  assumes i: "i < length ls" and hl: "headerLine (ls ! i)"
    and first: "\<forall>k<i. \<not> headerLine (ls ! k)"
  shows "j \<le> i \<Longrightarrow>
     parseOrtLoop toNum ls j acc =
       (case parseOrtLoop toNum (take i ls) j acc of
          Inl e \<Rightarrow> Inl e
        | Inr v \<Rightarrow> parseOrtLoop toNum ls i (entriesOf v))"
proof (induction "i - j" arbitrary: j acc rule: less_induct)
  case less
  show ?case
  proof (cases "j = i")
    case True
    have "parseOrtLoop toNum (take i ls) i acc = Inr (VObj acc)"
      by (subst parseOrtLoop.simps) simp
    with True show ?thesis by simp
  next
    case False
    with less.prems have j: "j < i" by simp
    with i have jl: "j < length ls" "j < length (take i ls)" and nth: "take i ls ! j = ls ! j"
      by simp_all
    let ?ln = "trim (ls ! j)"
    have step: "parseOrtLoop toNum ls (j + 1) acc =
       (case parseOrtLoop toNum (take i ls) (j + 1) acc of
          Inl e \<Rightarrow> Inl e
        | Inr v \<Rightarrow> parseOrtLoop toNum ls i (entriesOf v))" for acc
      using j by (intro less.hyps) simp_all
    show ?thesis
    proof (cases "?ln = [] \<or> startsWith ?ln ''#''")
      case True
      have "parseOrtLoop toNum ls j acc = parseOrtLoop toNum ls (j + 1) acc"
        using jl True by (subst parseOrtLoop.simps) (simp add: Let_def)
      moreover have "parseOrtLoop toNum (take i ls) j acc = parseOrtLoop toNum (take i ls) (j + 1) acc"
        using jl True nth by (subst parseOrtLoop.simps) (simp add: Let_def)
      ultimately show ?thesis using step by simp
    next
      case False
      note nb = this
      show ?thesis
      proof (cases "includesChar ?ln CHR '':''")
        case False
        have "parseOrtLoop toNum ls j acc = parseOrtLoop toNum ls (j + 1) acc"
          using jl nb False by (subst parseOrtLoop.simps) (simp add: Let_def)
        moreover have "parseOrtLoop toNum (take i ls) j acc = parseOrtLoop toNum (take i ls) (j + 1) acc"
          using jl nb False nth by (subst parseOrtLoop.simps) (simp add: Let_def)
        ultimately show ?thesis using step by simp
      next
        case True
        note colon = this
        note ps = prefix_section [OF i hl j]
        show ?thesis
        proof (cases "parseSection ls j")
          case (Inl e)
          have "parseOrtLoop toNum ls j acc = Inl e"
            using jl nb colon Inl by (subst parseOrtLoop.simps) (simp add: Let_def)
          moreover have "parseOrtLoop toNum (take i ls) j acc = Inl e"
            using jl nb colon Inl nth ps(1) by (subst parseOrtLoop.simps) (simp add: Let_def)
          ultimately show ?thesis by simp
        next
          case (Inr sec)
          obtain key flds n where sec: "sec = (key, flds, n)" by (cases sec)
          from Inr sec have s: "parseSection ls j = Inr (key, flds, n)" by simp
          from ps(2) [OF s, of toNum]
          have dl: "parseDataLines toNum (take i ls) (j + 1) flds n = parseDataLines toNum ls (j + 1) flds n"
            and le: "j + (n + 1) \<le> i" by simp_all
          have "\<not> startsWith ?ln '':''"
            using first j startsWith_colon_header [of "ls ! j"] by blast
          with s colon obtain k where k: "key = Some k"
            by (cases key)
               (auto simp: parseSection_def parseHeader_def Let_def split: sum.splits option.splits)
          show ?thesis
          proof (cases "parseDataLines toNum ls (j + 1) flds n")
            case (Inl e)
            have "parseOrtLoop toNum ls j acc = Inl e"
              using jl nb colon s k Inl by (subst parseOrtLoop.simps) (simp add: Let_def)
            moreover have "parseOrtLoop toNum (take i ls) j acc = Inl e"
              using jl nb colon s k Inl nth ps(1) dl
              by (subst parseOrtLoop.simps) (simp add: Let_def)
            ultimately show ?thesis by simp
          next
            case (Inr vals)
            have a: "parseOrtLoop toNum ls j acc
                  = parseOrtLoop toNum ls (j + (n + 1)) (setKey k vals acc)"
              using jl nb colon s k Inr by (subst parseOrtLoop.simps) (simp add: Let_def)
            have b: "parseOrtLoop toNum (take i ls) j acc
                  = parseOrtLoop toNum (take i ls) (j + (n + 1)) (setKey k vals acc)"
              using jl nb colon s k Inr nth ps(1) dl
              by (subst parseOrtLoop.simps) (simp add: Let_def)
            have "parseOrtLoop toNum ls (j + (n + 1)) (setKey k vals acc) =
               (case parseOrtLoop toNum (take i ls) (j + (n + 1)) (setKey k vals acc) of
                  Inl e \<Rightarrow> Inl e
                | Inr v \<Rightarrow> parseOrtLoop toNum ls i (entriesOf v))"
              using j le by (intro less.hyps) simp_all
            with a b show ?thesis by simp
          qed
        qed
      qed
    qed
  qed
qed

lemma first_header_run:
  assumes i: "i < length ls" and first: "\<forall>k<i. \<not> headerLine (ls ! k)"
    and st: "startsWith (trim (ls ! i)) '':''"
  shows "parseOrtLoop toNum ls 0 [] =
     (case parseOrtLoop toNum (take i ls) 0 [] of
        Inl e \<Rightarrow> Inl e
      | Inr v \<Rightarrow>
          (case parseSection ls i of
              Inl e \<Rightarrow> Inl e
            | Inr (key, flds, n) \<Rightarrow>
                (case parseDataLines toNum ls (i + 1) flds n of
                   Inl e \<Rightarrow> Inl e
                 | Inr vals \<Rightarrow>
                     (if length flds > 0 \<and> n = 1
                      then (case vals of VArr [x] \<Rightarrow> Inr x | _ \<Rightarrow> Inr vals)
                      else Inr vals))))"
  using prefix_run [OF i startsWith_colon_header [OF st] first, of 0 toNum "[]"]
    parseOrtLoop_anonymous [OF i st, of toNum]
  by (simp split: sum.splits)

text \<open>
  Claim C2, amended. Let the first header line of the document (the first line that is
  neither blank nor a comment and begins with a colon, or has a colon and ends with one)
  begin with a colon. The lines before it are read by the top-level loop as a document
  of their own, where every line with a colon is read as a header: if that raises a
  parse error, \<^verbatim>\<open>parseOrt\<close> fails with it, at a line before the header. Otherwise, and
  always when no line before the header has a colon, \<^verbatim>\<open>parseOrt\<close> returns what the
  anonymous section gives and scans no further: its result is the error of the header or
  of the data lines if there is one, and else the result of the section's data lines.
  With a non-empty field list, that result is the single record itself when the section
  has exactly one data line, and the array of the section's records, one per data line,
  when it has none or several. Whatever follows the next header line has no influence on
  the result.
\<close>

theorem anonymous_section_result:
  assumes "lines = splitOn LF content"
    and "i < length lines"
    and "\<forall>j<i. \<not> headerLine (lines ! j)"
    and "startsWith (trim (lines ! i)) '':''"
  shows "(case parseOrtLoop toNum (take i lines) 0 [] of
            Inl e \<Rightarrow> parseOrt toNum content = Inl e \<and> lineNum e \<le> i
          | Inr obj \<Rightarrow>
              parseOrt toNum content =
                (case parseSection lines i of
                   Inl e \<Rightarrow> Inl e
                 | Inr (key, flds, n) \<Rightarrow>
                     (case parseDataLines toNum lines (i + 1) flds n of
                        Inl e \<Rightarrow> Inl e
                      | Inr vals \<Rightarrow>
                          (if length flds > 0 \<and> n = 1
                           then (case vals of VArr [x] \<Rightarrow> Inr x | _ \<Rightarrow> Inr vals)
                           else Inr vals))))
         \<and> (list_all skippedLine (take i lines) \<longrightarrow>
              parseOrt toNum content =
                (case parseSection lines i of
                   Inl e \<Rightarrow> Inl e
                 | Inr (key, flds, n) \<Rightarrow>
                     (case parseDataLines toNum lines (i + 1) flds n of
                        Inl e \<Rightarrow> Inl e
                      | Inr vals \<Rightarrow>
                          (if length flds > 0 \<and> n = 1
                           then (case vals of VArr [x] \<Rightarrow> Inr x | _ \<Rightarrow> Inr vals)
                           else Inr vals))))
         \<and> (\<forall>key flds n v.
               parseSection lines i = Inr (key, flds, n) \<and> flds \<noteq> []
               \<and> parseOrt toNum content = Inr v \<longrightarrow>
               key = None \<and> n = countDataLines (drop (i + 1) lines)
               \<and> (\<exists>rs. parseDataLines toNum lines (i + 1) flds n = Inr (VArr rs)
                        \<and> length rs = n \<and> list_all isObject rs
                        \<and> v = (if n = 1 then hd rs else VArr rs)))
         \<and> (\<forall>hdr post. headerLine hdr \<longrightarrow>
               parseOrtLoop toNum (lines @ hdr # post) 0 [] = parseOrt toNum content)"
proof -
  let ?section = "\<lambda>ls. (case parseSection ls i of
                   Inl e \<Rightarrow> Inl e
                 | Inr (key, flds, n) \<Rightarrow>
                     (case parseDataLines toNum ls (i + 1) flds n of
                        Inl e \<Rightarrow> Inl e
                      | Inr vals \<Rightarrow>
                          (if length flds > 0 \<and> n = 1
                           then (case vals of VArr [x] \<Rightarrow> Inr x | _ \<Rightarrow> Inr vals)
                           else Inr vals)))"
  note run = first_header_run [OF assms(2,3,4), of toNum]
  have c1: "(case parseOrtLoop toNum (take i lines) 0 [] of
            Inl e \<Rightarrow> parseOrt toNum content = Inl e \<and> lineNum e \<le> i
          | Inr obj \<Rightarrow> parseOrt toNum content = ?section lines)"
  proof (cases "parseOrtLoop toNum (take i lines) 0 []")
    case (Inl e)
    from parseOrtLoop_error [OF Inl] assms(2) have "lineNum e \<le> i" by simp
    with Inl run show ?thesis by (simp add: parseOrt_def assms(1) [symmetric])
  next
    case (Inr v)
    with run show ?thesis by (simp add: parseOrt_def assms(1) [symmetric])
  qed
  have c2: "parseOrt toNum content = ?section lines" if sk: "list_all skippedLine (take i lines)"
  proof -
    have "parseOrtLoop toNum lines 0 [] = parseOrtLoop toNum lines i []"
      using assms(2) sk by (intro parseOrtLoop_skip) (auto simp: list_all_length)
    with parseOrtLoop_anonymous [OF assms(2,4), of toNum "[]"] show ?thesis
      by (simp add: parseOrt_def assms(1) [symmetric])
  qed
  have whenval: "parseOrt toNum content = ?section lines" if "parseOrt toNum content = Inr v" for v
    using c1 that by (cases "parseOrtLoop toNum (take i lines) 0 []") simp_all
  have c3: "key = None \<and> n = countDataLines (drop (i + 1) lines)
               \<and> (\<exists>rs. parseDataLines toNum lines (i + 1) flds n = Inr (VArr rs)
                        \<and> length rs = n \<and> list_all isObject rs
                        \<and> v = (if n = 1 then hd rs else VArr rs))"
    if a: "parseSection lines i = Inr (key, flds, n) \<and> flds \<noteq> []
               \<and> parseOrt toNum content = Inr v" for key flds n v
  proof -
    from a have sec: "parseSection lines i = Inr (key, flds, n)" and ne: "flds \<noteq> []"
      and v: "parseOrt toNum content = Inr v" by simp_all
    note eq = whenval [OF v]
    from parseSection_anonymous [OF assms(4) sec]
    have kn: "key = None" "n = countDataLines (drop (i + 1) lines)" by simp_all
    from eq sec v obtain vals where
      dl: "parseDataLines toNum lines (i + 1) flds n = Inr vals"
      by (cases "parseDataLines toNum lines (i + 1) flds n") simp_all
    from parseDataLinesLoop_shape [OF ne dl [unfolded parseDataLines_def]]
    obtain rs where rs: "vals = VArr rs" "list_all isObject rs"
      "length rs = min n (dataRowCount (drop (i + 1) lines))" by auto
    from rs(3) kn(2) countDataLines_le [of "drop (i + 1) lines"] have len: "length rs = n"
      by simp
    have "v = (if n = 1 then hd rs else VArr rs)"
    proof (cases "n = 1")
      case True
      with len obtain x where "rs = [x]" by (cases rs) auto
      with eq sec v dl rs(1) ne True show ?thesis by simp
    next
      case False
      with eq sec v dl rs(1) show ?thesis by simp
    qed
    with dl rs len kn show ?thesis by blast
  qed
  have c4: "parseOrtLoop toNum (lines @ hdr # post) 0 [] = parseOrt toNum content"
    if h: "headerLine hdr" for hdr post
  proof -
    let ?ls = "lines @ hdr # post"
    have i': "i < length ?ls" using assms(2) by simp
    have tk: "take i ?ls = take i lines" using assms(2) by simp
    have fs: "\<forall>j<i. \<not> headerLine (?ls ! j)" using assms(2,3) by (simp add: nth_append)
    have st: "startsWith (trim (?ls ! i)) '':''" using assms(2,4) by (simp add: nth_append)
    have dr: "drop (i + 1) ?ls = drop (i + 1) lines @ hdr # post" using assms(2) by simp
    have sec: "parseSection ?ls i = parseSection lines i"
      using assms(2) countDataLines_append_header [OF h, of "drop (Suc i) lines" post]
      by (simp add: parseSection_def nth_append)
    have dl: "parseDataLines toNum ?ls (i + 1) flds n = parseDataLines toNum lines (i + 1) flds n"
      if "parseSection lines i = Inr (key, flds, n)" for key flds n
    proof -
      from that have "n = countDataLines (drop (i + 1) lines)"
        by (auto simp: parseSection_def Let_def split: sum.splits)
      then have "n - 0 \<le> dataRowCount (drop (i + 1) lines)"
        using countDataLines_le [of "drop (i + 1) lines"] by simp
      from parseDataLinesLoop_append [OF this] show ?thesis
        unfolding parseDataLines_def dr by simp
    qed
    have same: "?section ?ls = ?section lines"
      unfolding sec using dl by (auto split: sum.splits)
    from first_header_run [OF i' fs st, of toNum] run show ?thesis
      unfolding tk same by (simp add: parseOrt_def assms(1) [symmetric])
  qed
  from c1 c2 c3 c4 show ?thesis by blast
qed

theorem anonymous_section_result_witness:
  "splitOn LF ''a:b\<newline>:name,age:\<newline>Alice,30'' = [''a:b'', '':name,age:'', ''Alice,30'']
   \<and> \<not> headerLine ''a:b''
   \<and> startsWith (trim ('':name,age:'')) '':''
   \<and> parseOrtLoop decNumber [''a:b''] 0 [] = Inr (VObj [(''a'', VArr [])])
   \<and> parseSection [''a:b'', '':name,age:'', ''Alice,30''] 1
        = Inr (None, [Field ''name'' [], Field ''age'' []], 1)
   \<and> parseOrt decNumber ''a:b\<newline>:name,age:\<newline>Alice,30''
        = Inr (VObj [(''name'', VStr ''Alice''), (''age'', VNum 30)])
   \<and> headerLine ''k:''
   \<and> parseOrtLoop decNumber [''a:b'', '':name,age:'', ''Alice,30'', ''k:'', ''7''] 0 []
        = Inr (VObj [(''name'', VStr ''Alice''), (''age'', VNum 30)])"
proof -
  let ?lines = "[''a:b'', '':name,age:'', ''Alice,30'']"
  let ?content = "''a:b\<newline>:name,age:\<newline>Alice,30''"
  have l: "?lines = splitOn LF ?content" by code_simp
  have i: "1 < length ?lines" by simp
  have nh: "\<not> headerLine ''a:b''" by code_simp
  then have fs: "\<forall>j<1. \<not> headerLine (?lines ! j)" by simp
  have st: "startsWith (trim (?lines ! 1)) '':''" by code_simp
  have pre: "parseOrtLoop decNumber (take 1 ?lines) 0 [] = Inr (VObj [(''a'', VArr [])])"
    by code_simp
  have sec: "parseSection ?lines 1 = Inr (None, [Field ''name'' [], Field ''age'' []], 1)"
    by code_simp
  have dl: "parseDataLines decNumber ?lines (1 + 1) [Field ''name'' [], Field ''age'' []] 1
              = Inr (VArr [VObj [(''name'', VStr ''Alice''), (''age'', VNum 30)]])"
    by code_simp
  have hd: "headerLine ''k:''" by code_simp
  note T = anonymous_section_result [OF l i fs st, of decNumber]
  from T [THEN conjunct1] pre sec dl
  have r: "parseOrt decNumber ?content
        = Inr (VObj [(''name'', VStr ''Alice''), (''age'', VNum 30)])" by simp
  from T [THEN conjunct2, THEN conjunct2, THEN conjunct2, rule_format, OF hd, of "[''7'']"] r
  have r2: "parseOrtLoop decNumber [''a:b'', '':name,age:'', ''Alice,30'', ''k:'', ''7''] 0 []
        = Inr (VObj [(''name'', VStr ''Alice''), (''age'', VNum 30)])" by simp
  from st have st': "startsWith (trim ('':name,age:'')) '':''" by simp
  from pre have pre': "parseOrtLoop decNumber [''a:b''] 0 [] = Inr (VObj [(''a'', VArr [])])" by simp
  from l [symmetric] nh st' pre' sec r hd r2 show ?thesis by blast
qed

text \<open>
  The claim as stated fails: a line before the first header line that has a colon is
  read as a header by the top-level loop, and the error it raises is the result of the
  whole parse, though the anonymous section alone gives a record.
\<close>

theorem anonymous_section_after_colon_line_counterexample:
  "splitOn LF ''a:b)\<newline>:x:\<newline>1'' = [''a:b)'', '':x:'', ''1'']
   \<and> \<not> headerLine ''a:b)'' \<and> headerLine '':x:''
   \<and> parseOrt decNumber ''a:b)\<newline>:x:\<newline>1''
        = Inl \<lparr>lineNum = 1, line = ''a:b)'', message = UnmatchedClosingParenthesis\<rparr>
   \<and> parseOrt decNumber '':x:\<newline>1'' = Inr (VObj [(''x'', VNum 1)])
   \<and> \<not> headerLine ''a:b,c'' \<and> \<not> headerLine ''1''
   \<and> parseOrt decNumber ''a:b,c\<newline>1\<newline>:x:\<newline>1''
        = Inl \<lparr>lineNum = 2, line = ''1'', message = ExpectedValues 2 1\<rparr>"
  by code_simp

section \<open>Arity mismatches\<close>

lemma parseDataLinesLoop_bad_row:
  assumes "flds \<noteq> []"
  shows "j < length rest \<Longrightarrow> \<not> blankOrComment (rest ! j) \<Longrightarrow>
     processed + dataRowCount (take j rest) < count \<Longrightarrow>
     length (parseDataValues (trim (rest ! j))) \<noteq> length flds \<Longrightarrow>
     \<exists>e. parseDataLinesLoop toNum flds count rest i result processed = Inl e
         \<and> i < lineNum e \<and> lineNum e \<le> i + j + 1
         \<and> line e = trim (rest ! (lineNum e - i - 1))
         \<and> isArityMessage (message e)
         \<and> (lineNum e = i + j + 1 \<longrightarrow>
              message e = ExpectedValues (length flds)
                            (length (parseDataValues (trim (rest ! j)))))"
proof (induction rest arbitrary: j i result processed)
  case Nil
  then show ?case by simp
next
  case (Cons raw rest)
  from Cons.prems(3) have nf: "\<not> processed \<ge> count" by simp
  show ?case
  proof (cases j)
    case 0
    with Cons.prems nf assms show ?thesis
      by (simp add: Let_def blankOrComment_def isArityMessage_def)
  next
    case (Suc j')
    note j = this
    show ?thesis
    proof (cases "blankOrComment raw")
      case True
      from Cons.prems j True
      have "\<exists>e. parseDataLinesLoop toNum flds count rest (i + 1) result processed = Inl e
         \<and> i + 1 < lineNum e \<and> lineNum e \<le> (i + 1) + j' + 1
         \<and> line e = trim (rest ! (lineNum e - (i + 1) - 1))
         \<and> isArityMessage (message e)
         \<and> (lineNum e = (i + 1) + j' + 1 \<longrightarrow>
              message e = ExpectedValues (length flds)
                            (length (parseDataValues (trim (rest ! j')))))"
        by (intro Cons.IH) simp_all
      then obtain e where e: "parseDataLinesLoop toNum flds count rest (i + 1) result processed = Inl e"
         "i + 1 < lineNum e" "lineNum e \<le> (i + 1) + j' + 1"
         "line e = trim (rest ! (lineNum e - (i + 1) - 1))"
         "isArityMessage (message e)"
         "lineNum e = (i + 1) + j' + 1 \<longrightarrow>
              message e = ExpectedValues (length flds)
                            (length (parseDataValues (trim (rest ! j'))))" by blast
      from e(1) True nf
      have "parseDataLinesLoop toNum flds count (raw # rest) i result processed = Inl e"
        by (simp add: Let_def blankOrComment_def)
      with e j show ?thesis by (auto simp: nth_Cons')
    next
      case False
      note data = this
      show ?thesis
      proof (cases "length (parseDataValues (trim raw)) \<noteq> length flds")
        case True
        with nf data assms j show ?thesis
          by (simp add: Let_def blankOrComment_def isArityMessage_def)
      next
        case False
        note ok = this
        show ?thesis
        proof (cases "fieldLoop toNum flds (parseDataValues (trim raw)) (trim raw) (i + 1) []")
          case (Inl e')
          with nf data ok assms
          have "parseDataLinesLoop toNum flds count (raw # rest) i result processed = Inl e'"
            by (simp add: Let_def blankOrComment_def)
          with parseFieldValue_error(2) [OF Inl] j show ?thesis
            by (auto simp: isArityMessage_def)
        next
          case (Inr obj)
          from Cons.prems j data
          have "\<exists>e. parseDataLinesLoop toNum flds count rest (i + 1) (result @ [VObj obj])
                    (processed + 1) = Inl e
             \<and> i + 1 < lineNum e \<and> lineNum e \<le> (i + 1) + j' + 1
             \<and> line e = trim (rest ! (lineNum e - (i + 1) - 1))
             \<and> isArityMessage (message e)
             \<and> (lineNum e = (i + 1) + j' + 1 \<longrightarrow>
                  message e = ExpectedValues (length flds)
                                (length (parseDataValues (trim (rest ! j')))))"
            by (intro Cons.IH) simp_all
          then obtain e where e: "parseDataLinesLoop toNum flds count rest (i + 1)
                 (result @ [VObj obj]) (processed + 1) = Inl e"
             "i + 1 < lineNum e" "lineNum e \<le> (i + 1) + j' + 1"
             "line e = trim (rest ! (lineNum e - (i + 1) - 1))"
             "isArityMessage (message e)"
             "lineNum e = (i + 1) + j' + 1 \<longrightarrow>
                  message e = ExpectedValues (length flds)
                                (length (parseDataValues (trim (rest ! j'))))" by blast
          from e(1) Inr nf data ok assms
          have "parseDataLinesLoop toNum flds count (raw # rest) i result processed = Inl e"
            by (simp add: Let_def blankOrComment_def)
          with e j show ?thesis by (auto simp: nth_Cons')
        qed
      qed
    qed
  qed
qed

lemma dataRowCount_take_no_header:
  assumes "\<forall>k\<le>j. \<not> headerLine (xs ! k)" "j < length xs" "\<not> blankOrComment (xs ! j)"
  shows "dataRowCount (take j xs) < countDataLines xs"
proof -
  have xs: "xs = take j xs @ (xs ! j) # drop (Suc j) xs"
    using assms(2) by (simp add: id_take_nth_drop)
  have nh: "\<forall>raw \<in> set (take j xs). \<not> headerLine raw"
    using assms(1,2) by (auto simp: in_set_conv_nth)
  have "countDataLines xs = dataRowCount (take j xs) + countDataLines ((xs ! j) # drop (Suc j) xs)"
    using countDataLines_no_header [OF nh, of "(xs ! j) # drop (Suc j) xs"] xs by simp
  moreover have "countDataLines ((xs ! j) # drop (Suc j) xs) > 0"
    using assms(1,3) by (auto simp: Let_def headerLine_def blankOrComment_def)
  ultimately show ?thesis by simp
qed

lemma arity_mismatch_row:
  assumes a: "h < length lines \<and> \<not> blankOrComment (lines ! h) \<and> includesChar (trim (lines ! h)) CHR '':''
      \<and> parseSection lines h = Inr (key, flds, n) \<and> flds \<noteq> []
      \<and> h < r \<and> r < length lines \<and> \<not> blankOrComment (lines ! r)
      \<and> list_all (\<lambda>raw. \<not> headerLine raw) (take (r - h) (drop (h + 1) lines))
      \<and> length (parseDataValues (trim (lines ! r))) \<noteq> length flds"
  shows "\<exists>e. parseOrtLoop toNum lines h result = Inl e
            \<and> h + 1 < lineNum e \<and> lineNum e \<le> r + 1
            \<and> line e = trim (lines ! (lineNum e - 1))
            \<and> isArityMessage (message e)
            \<and> (lineNum e = r + 1 \<longrightarrow>
                 message e = ExpectedValues (length flds)
                               (length (parseDataValues (trim (lines ! r)))))"
proof -
  let ?rest = "drop (h + 1) lines"
  let ?j = "r - h - 1"
  from a have h: "h < length lines" "h < r" "r < length lines" by simp_all
  from a have sec: "parseSection lines h = Inr (key, flds, n)" by simp
  from a have hl: "\<not> blankOrComment (lines ! h)" "includesChar (trim (lines ! h)) CHR '':''"
    by simp_all
  from h have j: "?j < length ?rest" and rj: "?rest ! ?j = lines ! r" by auto
  from sec have n: "n = countDataLines ?rest"
    by (auto simp: parseSection_def Let_def split: sum.splits)
  have "\<forall>k\<le>?j. \<not> headerLine (?rest ! k)"
  proof (intro allI impI)
    fix k assume k: "k \<le> ?j"
    with h have kl: "k < length (take (r - h) ?rest)" by auto
    from a have "list_all (\<lambda>raw. \<not> headerLine raw) (take (r - h) ?rest)" by simp
    with kl have "\<not> headerLine (take (r - h) ?rest ! k)"
      unfolding list_all_length by blast
    with kl show "\<not> headerLine (?rest ! k)" by simp
  qed
  from dataRowCount_take_no_header [OF this j] a rj n
  have cnt: "0 + dataRowCount (take ?j ?rest) < n" by simp
  from a have ne: "flds \<noteq> []" by simp
  from a rj have nb: "\<not> blankOrComment (?rest ! ?j)"
    and mm: "length (parseDataValues (trim (?rest ! ?j))) \<noteq> length flds" by simp_all
  from parseDataLinesLoop_bad_row [OF ne j nb cnt mm, of toNum "h + 1" "[]"]
  obtain e where e: "parseDataLines toNum lines (h + 1) flds n = Inl e"
    "h + 1 < lineNum e" "lineNum e \<le> h + 1 + ?j + 1"
    "line e = trim (?rest ! (lineNum e - (h + 1) - 1))" "isArityMessage (message e)"
    "lineNum e = h + 1 + ?j + 1 \<longrightarrow>
       message e = ExpectedValues (length flds) (length (parseDataValues (trim (?rest ! ?j))))"
    unfolding parseDataLines_def by blast
  from h e(2,3) have "h + 1 + (lineNum e - (h + 1) - 1) = lineNum e - 1" by simp
  with h e(2,3) have idx: "?rest ! (lineNum e - (h + 1) - 1) = lines ! (lineNum e - 1)"
    by (subst nth_drop) simp_all
  from h(1) hl sec e(1) have res: "parseOrtLoop toNum lines h result = Inl e"
    by (subst parseOrtLoop.simps) (simp add: Let_def blankOrComment_def split: option.splits)
  from h e(3) have le: "lineNum e \<le> r + 1" by simp
  from h e(6) rj have last: "lineNum e = r + 1 \<longrightarrow>
                 message e = ExpectedValues (length flds)
                               (length (parseDataValues (trim (lines ! r))))" by simp
  from res e(2) le e(4) idx e(5) last show ?thesis by (intro exI [of _ e]) simp
qed

lemma arity_mismatch_nested:
  assumes "nested \<noteq> [] \<and> startsWith (trim valueStr) ''('' \<and> endsWith (trim valueStr) '')''
        \<and> trim valueStr \<noteq> ''()''
        \<and> length (parseDataValues (substring 1 (length (trim valueStr) - 1) (trim valueStr)))
             \<noteq> length nested"
  shows "parseFieldValue toNum (Field nm nested) valueStr ln lineNo =
            Inl \<lparr>lineNum = lineNo, line = ln,
                 message = ExpectedNestedValues (length nested)
                   (length (parseDataValues
                      (substring 1 (length (trim valueStr) - 1) (trim valueStr))))\<rparr>"
proof -
  from assms have "trim valueStr \<noteq> []" "\<not> startsWith (trim valueStr) ''[''"
    by (cases "trim valueStr"; simp add: startsWith_def)+
  with assms show ?thesis
    by (simp add: Let_def)
qed




section \<open>Lines without a colon\<close>

text \<open>
  Claim C5, amended. \<^verbatim>\<open>parseHeader\<close> fails with the message \<^verbatim>\<open>Invalid header format\<close>
  on a line without a colon, but \<^verbatim>\<open>parseOrt\<close> never hands it such a line: its loop
  passes over a line without a colon as it passes over a blank line, and no error of
  \<^verbatim>\<open>parseOrt\<close> has that message.
\<close>

theorem malformed_header_unreachable:
  "(\<not> includesChar ln CHR '':'' \<longrightarrow>
      parseHeader ln lineNo = Inl \<lparr>lineNum = lineNo, line = ln, message = InvalidHeaderFormat\<rparr>)
   \<and> (lineIdx < length lines \<and> \<not> includesChar (trim (lines ! lineIdx)) CHR '':'' \<longrightarrow>
        parseOrtLoop toNum lines lineIdx result = parseOrtLoop toNum lines (lineIdx + 1) result)
   \<and> (\<forall>e. parseOrt toNum content = Inl e \<longrightarrow> message e \<noteq> InvalidHeaderFormat)"
proof (intro conjI impI allI)
  assume nc: "\<not> includesChar ln CHR '':''"
  then have "indexOf ln CHR '':'' = None"
    by (simp add: includesChar_def indexOf_None_iff)
  moreover from nc have "\<not> startsWith ln '':''"
    by (cases ln) (auto simp: startsWith_def includesChar_def)
  ultimately
  show "parseHeader ln lineNo = Inl \<lparr>lineNum = lineNo, line = ln, message = InvalidHeaderFormat\<rparr>"
    by (simp add: parseHeader_def)
next
  assume "lineIdx < length lines \<and> \<not> includesChar (trim (lines ! lineIdx)) CHR '':''"
  then show "parseOrtLoop toNum lines lineIdx result = parseOrtLoop toNum lines (lineIdx + 1) result"
    by (subst parseOrtLoop.simps) (simp add: Let_def)
next
  fix e
  assume "parseOrt toNum content = Inl e"
  from parseOrtLoop_error [OF this [unfolded parseOrt_def]]
  show "message e \<noteq> InvalidHeaderFormat" by simp
qed

theorem malformed_header_unreachable_witness:
  "\<not> includesChar ''users'' CHR '':''
   \<and> parseHeader ''users'' 1 = Inl \<lparr>lineNum = 1, line = ''users'', message = InvalidHeaderFormat\<rparr>
   \<and> parseOrtLoop decNumber [''users'', ''k:'', ''7''] 0 []
        = parseOrtLoop decNumber [''users'', ''k:'', ''7''] 1 []
   \<and> parseOrt decNumber ''k:a)''
        = Inl \<lparr>lineNum = 1, line = ''k:a)'', message = UnmatchedClosingParenthesis\<rparr>
   \<and> UnmatchedClosingParenthesis \<noteq> InvalidHeaderFormat"
proof -
  note T = malformed_header_unreachable [of "''users''" 1 0 "[''users'', ''k:'', ''7'']"
      decNumber "[]" "''k:a)''"]
  have h1: "\<not> includesChar ''users'' CHR '':''" by code_simp
  have h2: "0 < length [''users'', ''k:'', ''7'']
     \<and> \<not> includesChar (trim ([''users'', ''k:'', ''7''] ! 0)) CHR '':''" by code_simp
  have h3: "parseOrt decNumber ''k:a)''
        = Inl \<lparr>lineNum = 1, line = ''k:a)'', message = UnmatchedClosingParenthesis\<rparr>"
    by code_simp
  from T [THEN conjunct1, rule_format, OF h1]
  have c1: "parseHeader ''users'' 1
        = Inl \<lparr>lineNum = 1, line = ''users'', message = InvalidHeaderFormat\<rparr>" .
  from T [THEN conjunct2, THEN conjunct1, rule_format, OF h2]
  have c2: "parseOrtLoop decNumber [''users'', ''k:'', ''7''] 0 []
        = parseOrtLoop decNumber [''users'', ''k:'', ''7''] 1 []" by simp
  from T [THEN conjunct2, THEN conjunct2, rule_format, OF h3]
  have c3: "UnmatchedClosingParenthesis \<noteq> InvalidHeaderFormat" by simp
  from h1 c1 c2 h3 c3 show ?thesis by blast
qed

text \<open>
  The claim as stated fails: a line without a colon where a header could stand is
  passed over, and the parse succeeds.
\<close>

theorem colonless_line_skipped_counterexample:
  "parseOrt decNumber ''users\<newline>Alice,30'' = Inr (VObj [])"
  by code_simp

section \<open>Single-value sections\<close>

text \<open>
  Claim C8. A section \<^verbatim>\<open>key:\<close> stores the value of its first data line, and its
  further data lines should be passed over. The loop of \<^verbatim>\<open>parseOrt\<close> resumes
  \<^verbatim>\<open>dataLines + 1\<close> lines below the header, which is short of the end of the section
  by the number of blank and comment lines inside it; a further data line with a colon
  is then read as a header. In the document below, \<^verbatim>\<open>a:b\<close> is the second data line of
  the section \<^verbatim>\<open>k:\<close> (it is no header line, and the section counts two data lines),
  and yet it adds the entry \<^verbatim>\<open>a\<close> to the result.
\<close>

theorem single_value_section_further_line_read:
  "splitOn LF ''k:\<newline>\<newline>foo\<newline>a:b'' = [''k:'', [], ''foo'', ''a:b'']
   \<and> \<not> headerLine ''a:b''
   \<and> parseSection [''k:'', [], ''foo'', ''a:b''] 0 = Inr (Some ''k'', [], 2)
   \<and> parseOrt decNumber ''k:\<newline>\<newline>foo\<newline>a:b''
        = Inr (VObj [(''k'', VStr ''foo''), (''a'', VArr [])])
   \<and> parseOrt decNumber ''k:\<newline>foo\<newline>a:b'' = Inr (VObj [(''k'', VStr ''foo'')])"
  by code_simp

section \<open>Splitting on commas\<close>

lemma scanLoop_append:
  "scanLoop vs cur esc d bd (xs @ ys) =
     (case scanLoop vs cur esc d bd xs of (vs', cur') \<Rightarrow>
        (case scanState esc d bd xs of (esc', d', bd') \<Rightarrow> scanLoop vs' cur' esc' d' bd' ys))"
proof (induction vs cur esc d bd xs rule: scanLoop.induct)
  case (1 vals current escaped depth bracketDepth)
  show ?case by simp
next
  case (2 vals current escaped depth bracketDepth ch s)
  then show ?case by (simp del: scanLoop.simps(2) add: scanLoop.simps(2) [of _ _ _ _ _ ch "s @ ys"] scanLoop.simps(2) [of _ _ _ _ _ ch s])
qed

lemma scanState_append:
  "scanState esc d bd (xs @ ys) =
     (case scanState esc d bd xs of (esc', d', bd') \<Rightarrow> scanState esc' d' bd' ys)"
  by (induction esc d bd xs rule: scanState.induct) simp_all

lemma scanState_shift:
  "scanState esc (d + a) (bd + b) xs =
     (case scanState esc a b xs of (esc', d', bd') \<Rightarrow> (esc', d + d', bd + bd'))"
  by (induction esc a b xs rule: scanState.induct) (simp_all add: add.assoc add_diff_eq [symmetric])

lemma scanState_from_zero:
  "scanState esc d bd xs =
     (case scanState esc 0 0 xs of (esc', d', bd') \<Rightarrow> (esc', d + d', bd + bd'))"
  using scanState_shift [of esc d 0 bd 0 xs] by simp

lemma comma_step:
  assumes "scanLoop [] [] False 0 0 pre = (vs, cur)" "scanState False 0 0 pre = (esc, d, bd)"
  shows "scanLoop [] [] False 0 0 (pre @ CHR '','' # post) =
       (if \<not> esc \<and> d = 0 \<and> bd = 0 then scanLoop (vs @ [cur]) [] False 0 0 post
        else scanLoop vs (cur @ '','') False d bd post)"
  using assms by (simp add: scanLoop_append)

lemma inside_paren:
  assumes "scanState False 0 0 p = (False, dp, bp)" "scanState False 0 0 mid = (em, dm, bm)"
  shows "scanState False 0 0 (p @ CHR ''('' # mid) = (em, dp + 1 + dm, bp + bm)"
  using assms scanState_from_zero [of False "dp + 1" bp mid]
  by (simp add: scanState_append)

lemma inside_bracket:
  assumes "scanState False 0 0 p = (False, dp, bp)" "scanState False 0 0 mid = (em, dm, bm)"
  shows "scanState False 0 0 (p @ CHR ''['' # mid) = (em, dp + dm, bp + 1 + bm)"
  using assms scanState_from_zero [of False dp "bp + 1" mid]
  by (simp add: scanState_append)

text \<open>
  Claim C7, amended. The scan keeps two independent counters, the number of unescaped
  opening minus closing parentheses and the same for square brackets, and neither is
  kept from going below zero; a backslash that is not itself escaped escapes the next
  character, which then changes no counter. A comma ends the current piece exactly when
  it is not escaped and both counters are zero when the scan reaches it; otherwise it is
  added to the current piece. So a comma inside a group never splits, provided the
  counter of the group's kind was not negative where the group opened, and has not
  fallen below its value at the opening since. \<^verbatim>\<open>parseDataValues\<close>, \<^verbatim>\<open>parseArray\<close> and
  \<^verbatim>\<open>splitPairs\<close> all split by this scan.
\<close>

theorem comma_split_iff_top_level:
  "(scanLoop [] [] False 0 0 pre = (vs, cur) \<and> scanState False 0 0 pre = (esc, d, bd) \<longrightarrow>
      scanLoop [] [] False 0 0 (pre @ CHR '','' # post) =
       (if \<not> esc \<and> d = 0 \<and> bd = 0 then scanLoop (vs @ [cur]) [] False 0 0 post
        else scanLoop vs (cur @ '','') False d bd post))
   \<and> (scanState False 0 0 p = (False, dp, bp) \<and> scanState False 0 0 mid = (em, dm, bm)
        \<and> 0 \<le> dp \<and> 0 \<le> dm
        \<and> scanLoop [] [] False 0 0 (p @ CHR ''('' # mid) = (ws, piece) \<longrightarrow>
      scanLoop [] [] False 0 0 ((p @ CHR ''('' # mid) @ CHR '','' # post) =
        scanLoop ws (piece @ '','') False (dp + 1 + dm) (bp + bm) post)
   \<and> (scanState False 0 0 p = (False, dp, bp) \<and> scanState False 0 0 mid = (em, dm, bm)
        \<and> 0 \<le> bp \<and> 0 \<le> bm
        \<and> scanLoop [] [] False 0 0 (p @ CHR ''['' # mid) = (ws, piece) \<longrightarrow>
      scanLoop [] [] False 0 0 ((p @ CHR ''['' # mid) @ CHR '','' # post) =
        scanLoop ws (piece @ '','') False (dp + dm) (bp + 1 + bm) post)
   \<and> parseDataValues ln =
        (case scanLoop [] [] False 0 0 ln of (vals, current) \<Rightarrow> vals @ [current])
   \<and> arrayPieces s =
        (case scanLoop [] [] False 0 0 s of (pieces, current) \<Rightarrow>
           if trim current \<noteq> [] then pieces @ [trim current] else pieces)
   \<and> splitPairs s =
        (case scanLoop [] [] False 0 0 s of (pairs, current) \<Rightarrow>
           if trim current \<noteq> [] then pairs @ [trim current] else pairs)"
proof (intro conjI impI)
  assume "scanLoop [] [] False 0 0 pre = (vs, cur) \<and> scanState False 0 0 pre = (esc, d, bd)"
  then show "scanLoop [] [] False 0 0 (pre @ CHR '','' # post) =
       (if \<not> esc \<and> d = 0 \<and> bd = 0 then scanLoop (vs @ [cur]) [] False 0 0 post
        else scanLoop vs (cur @ '','') False d bd post)"
    using comma_step by blast
next
  assume a: "scanState False 0 0 p = (False, dp, bp) \<and> scanState False 0 0 mid = (em, dm, bm)
        \<and> 0 \<le> dp \<and> 0 \<le> dm
        \<and> scanLoop [] [] False 0 0 (p @ CHR ''('' # mid) = (ws, piece)"
  then have st: "scanState False 0 0 (p @ CHR ''('' # mid) = (em, dp + 1 + dm, bp + bm)"
    using inside_paren by blast
  from a have "dp + 1 + dm \<noteq> 0" by simp
  with comma_step [OF _ st, of ws piece post] a
  show "scanLoop [] [] False 0 0 ((p @ CHR ''('' # mid) @ CHR '','' # post) =
        scanLoop ws (piece @ '','') False (dp + 1 + dm) (bp + bm) post"
    by simp
next
  assume a: "scanState False 0 0 p = (False, dp, bp) \<and> scanState False 0 0 mid = (em, dm, bm)
        \<and> 0 \<le> bp \<and> 0 \<le> bm
        \<and> scanLoop [] [] False 0 0 (p @ CHR ''['' # mid) = (ws, piece)"
  then have st: "scanState False 0 0 (p @ CHR ''['' # mid) = (em, dp + dm, bp + 1 + bm)"
    using inside_bracket by blast
  from a have "bp + 1 + bm \<noteq> 0" by simp
  with comma_step [OF _ st, of ws piece post] a
  show "scanLoop [] [] False 0 0 ((p @ CHR ''['' # mid) @ CHR '','' # post) =
        scanLoop ws (piece @ '','') False (dp + dm) (bp + 1 + bm) post"
    by simp
next
  show "parseDataValues ln =
        (case scanLoop [] [] False 0 0 ln of (vals, current) \<Rightarrow> vals @ [current])"
    by (simp add: parseDataValues_def)
next
  show "arrayPieces s =
        (case scanLoop [] [] False 0 0 s of (pieces, current) \<Rightarrow>
           if trim current \<noteq> [] then pieces @ [trim current] else pieces)"
    by (simp add: arrayPieces_def Let_def)
next
  show "splitPairs s =
        (case scanLoop [] [] False 0 0 s of (pairs, current) \<Rightarrow>
           if trim current \<noteq> [] then pairs @ [trim current] else pairs)"
    by (simp add: splitPairs_def Let_def)
qed

theorem comma_split_iff_top_level_witness:
  "scanLoop [] [] False 0 0 ''x'' = ([], ''x'') \<and> scanState False 0 0 ''x'' = (False, 0, 0)
   \<and> scanLoop [] [] False 0 0 (''x'' @ CHR '','' # ''y'') = scanLoop [''x''] [] False 0 0 ''y''
   \<and> scanState False 0 0 ''a'' = (False, 0, 0) \<and> scanState False 0 0 ''b'' = (False, 0, 0)
   \<and> scanLoop [] [] False 0 0 (''a'' @ CHR ''('' # ''b'') = ([], ''a(b'')
   \<and> scanLoop [] [] False 0 0 ((''a'' @ CHR ''('' # ''b'') @ CHR '','' # ''c),d'')
        = scanLoop [] ''a(b,'' False 1 0 ''c),d''
   \<and> scanLoop [] [] False 0 0 (''a'' @ CHR ''['' # ''b'') = ([], ''a[b'')
   \<and> scanLoop [] [] False 0 0 ((''a'' @ CHR ''['' # ''b'') @ CHR '','' # ''c],d'')
        = scanLoop [] ''a[b,'' False 0 1 ''c],d''
   \<and> parseDataValues ''a(b,c),d'' = [''a(b,c)'', ''d'']
   \<and> parseDataValues ''a[b,c],d'' = [''a[b,c]'', ''d'']"
proof -
  have h1: "scanLoop [] [] False 0 0 ''x'' = ([], ''x'') \<and> scanState False 0 0 ''x'' = (False, 0, 0)"
    by code_simp
  have sa: "scanState False 0 0 ''a'' = (False, 0, 0)" by code_simp
  have sb: "scanState False 0 0 ''b'' = (False, 0, 0)" by code_simp
  have lp: "scanLoop [] [] False 0 0 (''a'' @ CHR ''('' # ''b'') = ([], ''a(b'')" by code_simp
  have lb: "scanLoop [] [] False 0 0 (''a'' @ CHR ''['' # ''b'') = ([], ''a[b'')" by code_simp
  have h2: "scanState False 0 0 ''a'' = (False, 0, 0) \<and> scanState False 0 0 ''b'' = (False, 0, 0)
        \<and> (0::int) \<le> 0 \<and> (0::int) \<le> 0
        \<and> scanLoop [] [] False 0 0 (''a'' @ CHR ''('' # ''b'') = ([], ''a(b'')"
    using sa sb lp by simp
  have h3: "scanState False 0 0 ''a'' = (False, 0, 0) \<and> scanState False 0 0 ''b'' = (False, 0, 0)
        \<and> (0::int) \<le> 0 \<and> (0::int) \<le> 0
        \<and> scanLoop [] [] False 0 0 (''a'' @ CHR ''['' # ''b'') = ([], ''a[b'')"
    using sa sb lb by simp
  note T1 = comma_split_iff_top_level [of "''x''" "[]" "''x''" False 0 0 "''y''"]
  note T2 = comma_split_iff_top_level [of _ _ _ _ _ _ "''c),d''" "''a''" 0 0 "''b''" False 0 0
              "[]" "''a(b''"]
  note T3 = comma_split_iff_top_level [of _ _ _ _ _ _ "''c],d''" "''a''" 0 0 "''b''" False 0 0
              "[]" "''a[b''"]
  from T1 [THEN conjunct1, rule_format, OF h1]
  have c1: "scanLoop [] [] False 0 0 (''x'' @ CHR '','' # ''y'') = scanLoop [''x''] [] False 0 0 ''y''"
    by simp
  from T2 [THEN conjunct2, THEN conjunct1, rule_format, OF h2]
  have c2: "scanLoop [] [] False 0 0 ((''a'' @ CHR ''('' # ''b'') @ CHR '','' # ''c),d'')
        = scanLoop [] ''a(b,'' False 1 0 ''c),d''" by simp
  from T3 [THEN conjunct2, THEN conjunct2, THEN conjunct1, rule_format, OF h3]
  have c3: "scanLoop [] [] False 0 0 ((''a'' @ CHR ''['' # ''b'') @ CHR '','' # ''c],d'')
        = scanLoop [] ''a[b,'' False 0 1 ''c],d''" by simp
  have v1: "parseDataValues ''a(b,c),d'' = [''a(b,c)'', ''d'']" by code_simp
  have v2: "parseDataValues ''a[b,c],d'' = [''a[b,c]'', ''d'']" by code_simp
  from h1 c1 sa sb lp c2 lb c3 v1 v2 show ?thesis by blast
qed

text \<open>
  The claim as stated fails: after an unmatched closing parenthesis the counter is
  negative, and it is zero inside the group that follows, whose comma then splits; and
  a comma after a backslash that is itself escaped splits.
\<close>

theorem comma_inside_group_split_counterexample:
  "parseDataValues ''),(a,b)'' = [''),(a'', ''b)'']
   \<and> parseDataValues [CHR ''a'', BSL, BSL, CHR '','', CHR ''b''] = [[CHR ''a'', BSL, BSL], ''b'']"
  by code_simp

section \<open>Tabular or literal\<close>

lemma sort_eq_iff_set:
  fixes xs ys :: "string list"
  assumes "distinct xs" "distinct ys"
  shows "sort xs = sort ys \<longleftrightarrow> set xs = set ys"
proof
  assume "sort xs = sort ys"
  then have "set (sort xs) = set (sort ys)" by simp
  then show "set xs = set ys" by simp
next
  assume "set xs = set ys"
  with assms show "sort xs = sort ys"
    by (intro sorted_distinct_set_unique) simp_all
qed

lemma sameKeysLoop_iff:
  "sameKeysLoop firstKeys items \<longleftrightarrow>
     list_all (\<lambda>x. isObject x \<and> sort (objectKeys (entriesOf x)) = firstKeys) items"
proof (induction items)
  case Nil
  show ?case by simp
next
  case (Cons item items)
  then show ?case by (cases item) (simp_all add: Let_def)
qed

lemma isUniformObjectArray_iff:
  assumes "list_all (\<lambda>x. distinct (objectKeys (entriesOf x))) arr"
  shows "isUniformObjectArray arr \<longleftrightarrow>
           arr \<noteq> [] \<and> list_all isObject arr
           \<and> list_all (\<lambda>x. set (objectKeys (entriesOf x)) = set (objectKeys (entriesOf (hd arr)))) arr"
proof (cases arr)
  case Nil
  then show ?thesis by (simp add: isUniformObjectArray_def)
next
  case (Cons first items)
  from assms Cons have d1: "distinct (objectKeys (entriesOf first))"
    and ds: "list_all (\<lambda>x. distinct (objectKeys (entriesOf x))) items" by simp_all
  have step: "list_all (\<lambda>x. isObject x \<and> sort (objectKeys (entriesOf x)) = sort (objectKeys (entriesOf first))) items
      \<longleftrightarrow> list_all isObject items
          \<and> list_all (\<lambda>x. set (objectKeys (entriesOf x)) = set (objectKeys (entriesOf first))) items"
    using ds
  proof (induction items)
    case Nil
    show ?case by simp
  next
    case (Cons x xs)
    then show ?case using sort_eq_iff_set [OF _ d1, of "objectKeys (entriesOf x)"] by auto
  qed
  show ?thesis
  proof (cases first)
    case (VObj kvs)
    with Cons step show ?thesis
      by (simp add: isUniformObjectArray_def Let_def sameKeysLoop_iff)
  qed (use Cons in \<open>simp_all add: isUniformObjectArray_def\<close>)
qed

text \<open>
  Claim C6, amended. For the arrays the generator renders as a section (the top-level
  value, or the value of a key of the top-level object) it chooses the tabular form,
  a field header and one row per element, if and only if the array is non-empty, every
  element is an object, and all elements have the same set of keys, whatever their
  order; every other such array is rendered as a bracketed literal list. An array
  nested deeper, inside a value or a row, is always rendered as a bracketed literal
  list.
\<close>

theorem tabular_iff_uniform:
  "(list_all (\<lambda>x. distinct (objectKeys (entriesOf x))) arr \<longrightarrow>
      (isUniformObjectArray arr \<longleftrightarrow>
         arr \<noteq> [] \<and> list_all isObject arr
         \<and> list_all (\<lambda>x. set (objectKeys (entriesOf x)) = set (objectKeys (entriesOf (hd arr)))) arr))
   \<and> generateOrt numStr (VArr arr) =
        (if isUniformObjectArray arr
         then joinWith [LF] (('':'' @ generateHeader (entriesOf (hd arr)))
                # map (rowText numStr (objectKeys (entriesOf (hd arr)))) arr)
         else if arr = [] then '':[]''
         else '':['' @ joinWith '','' (generateValues numStr arr False) @ '']'')
   \<and> generateOrt numStr (VObj [(key, VArr arr)]) =
        (if isUniformObjectArray arr
         then joinWith [LF] ((key @ '':'' @ generateHeader (entriesOf (hd arr)))
                # map (rowText numStr (objectKeys (entriesOf (hd arr)))) arr)
         else if arr = [] then key @ '':'' @ [LF] @ ''[]''
         else key @ '':'' @ [LF] @ ''['' @ joinWith '','' (generateValues numStr arr False) @ '']'')
   \<and> entryBlock numStr key (VArr arr) =
        (if isUniformObjectArray arr
         then trimEnd (joinWith [LF] ((key @ '':'' @ generateHeader (entriesOf (hd arr)))
                # map (rowText numStr (objectKeys (entriesOf (hd arr)))) arr))
         else if arr = [] then key @ '':'' @ [LF] @ ''[]''
         else trimEnd (key @ '':'' @ [LF] @ ''['' @ joinWith '','' (generateValues numStr arr False) @ '']''))
   \<and> generateValue numStr (VArr arr) inline =
        (if arr = [] then ''[]'' else ''['' @ joinWith '','' (generateValues numStr arr True) @ '']'')
   \<and> generateObjectFieldValue numStr (Some (VArr arr)) =
        (if arr = [] then ''[]'' else ''['' @ joinWith '','' (generateValues numStr arr True) @ '']'')"
proof (intro conjI impI)
  assume "list_all (\<lambda>x. distinct (objectKeys (entriesOf x))) arr"
  then show "isUniformObjectArray arr \<longleftrightarrow>
         arr \<noteq> [] \<and> list_all isObject arr
         \<and> list_all (\<lambda>x. set (objectKeys (entriesOf x)) = set (objectKeys (entriesOf (hd arr)))) arr"
    by (rule isUniformObjectArray_iff)
next
  have ne: "isUniformObjectArray arr \<Longrightarrow> arr \<noteq> []"
    by (auto simp: isUniformObjectArray_def)
  show "generateOrt numStr (VArr arr) =
        (if isUniformObjectArray arr
         then joinWith [LF] (('':'' @ generateHeader (entriesOf (hd arr)))
                # map (rowText numStr (objectKeys (entriesOf (hd arr)))) arr)
         else if arr = [] then '':[]''
         else '':['' @ joinWith '','' (generateValues numStr arr False) @ '']'')"
    using ne by (auto simp: generateOrt_def generateTopLevelObjectArray_def Let_def)
  show "generateOrt numStr (VObj [(key, VArr arr)]) =
        (if isUniformObjectArray arr
         then joinWith [LF] ((key @ '':'' @ generateHeader (entriesOf (hd arr)))
                # map (rowText numStr (objectKeys (entriesOf (hd arr)))) arr)
         else if arr = [] then key @ '':'' @ [LF] @ ''[]''
         else key @ '':'' @ [LF] @ ''['' @ joinWith '','' (generateValues numStr arr False) @ '']'')"
    using ne by (auto simp: generateOrt_def generateObjectArray_def generateSimpleArray_def
        objectKeys_def Let_def)
  show "entryBlock numStr key (VArr arr) =
        (if isUniformObjectArray arr
         then trimEnd (joinWith [LF] ((key @ '':'' @ generateHeader (entriesOf (hd arr)))
                # map (rowText numStr (objectKeys (entriesOf (hd arr)))) arr))
         else if arr = [] then key @ '':'' @ [LF] @ ''[]''
         else trimEnd (key @ '':'' @ [LF] @ ''['' @ joinWith '','' (generateValues numStr arr False) @ '']''))"
    using ne by (auto simp: entryBlock_def generateObjectArray_def generateSimpleArray_def Let_def)
  show "generateValue numStr (VArr arr) inline =
        (if arr = [] then ''[]'' else ''['' @ joinWith '','' (generateValues numStr arr True) @ '']'')"
    by simp
  show "generateObjectFieldValue numStr (Some (VArr arr)) =
        (if arr = [] then ''[]'' else ''['' @ joinWith '','' (generateValues numStr arr True) @ '']'')"
    by simp
qed

theorem tabular_iff_uniform_witness:
  "list_all (\<lambda>x. distinct (objectKeys (entriesOf x)))
     [VObj [(''x'', VNum (1::int)), (''y'', VNum 2)], VObj [(''y'', VNum 4), (''x'', VNum 3)]]
   \<and> isUniformObjectArray
       [VObj [(''x'', VNum (1::int)), (''y'', VNum 2)], VObj [(''y'', VNum 4), (''x'', VNum 3)]]
   \<and> generateOrt decString (VObj [(''b'',
         VArr [VObj [(''x'', VNum 1), (''y'', VNum 2)], VObj [(''y'', VNum 4), (''x'', VNum 3)]])])
       = ''b:x,y:\<newline>1,2\<newline>3,4''"
proof -
  let ?arr = "[VObj [(''x'', VNum (1::int)), (''y'', VNum 2)], VObj [(''y'', VNum 4), (''x'', VNum 3)]]"
  note T = tabular_iff_uniform [of ?arr decString "''b''"]
  have h: "list_all (\<lambda>x. distinct (objectKeys (entriesOf x))) ?arr" by code_simp
  have r: "?arr \<noteq> [] \<and> list_all isObject ?arr
         \<and> list_all (\<lambda>x. set (objectKeys (entriesOf x)) = set (objectKeys (entriesOf (hd ?arr)))) ?arr"
    by (auto simp: objectKeys_def)
  from T [THEN conjunct1, rule_format, OF h] r have u: "isUniformObjectArray ?arr" by blast
  have t: "joinWith [LF] ((''b'' @ '':'' @ generateHeader (entriesOf (hd ?arr)))
                # map (rowText decString (objectKeys (entriesOf (hd ?arr)))) ?arr)
           = ''b:x,y:\<newline>1,2\<newline>3,4''" by code_simp
  from T [THEN conjunct2, THEN conjunct2, THEN conjunct1] u t
  have g: "generateOrt decString (VObj [(''b'', VArr ?arr)]) = ''b:x,y:\<newline>1,2\<newline>3,4''"
    by simp
  from h u g show ?thesis by blast
qed

text \<open>
  The claim as stated fails for an array below the section level: a non-empty array of
  objects with the same keys, inside an object, is rendered as a bracketed literal list.
\<close>

theorem nested_uniform_array_literal_counterexample:
  "isUniformObjectArray [VObj [(''a'', VNum (1::int))], VObj [(''a'', VNum 2)]]
   \<and> generateOrt decString
        (VObj [(''k'', VObj [(''x'', VArr [VObj [(''a'', VNum 1)], VObj [(''a'', VNum 2)]])])])
      = ''k:\<newline>(x:[(a:1),(a:2)])''"
  by code_simp

section \<open>Copies handed out by get\<close>

lemma normalizeH_JRef_Some:
  assumes "normalizeH fuel h (JRef a) = Some (w, h1)"
  shows "\<exists>f. fuel = Suc f \<and> a < length h \<and>
     ((\<exists>xs ys h'. h ! a = ArrCell xs \<and> normalizeList f h xs = Some (ys, h')
          \<and> w = JRef (length h') \<and> h1 = h' @ [ArrCell ys])
      \<or> (\<exists>kvs res h'. h ! a = ObjCell kvs \<and> normalizeEntries f h kvs [] = Some (res, h')
          \<and> w = JRef (length h') \<and> h1 = h' @ [ObjCell res]))"
proof (cases fuel)
  case 0
  with assms show ?thesis by simp
next
  case (Suc f)
  show ?thesis
  proof (cases "a < length h")
    case False
    with assms Suc show ?thesis by simp
  next
    case True
    show ?thesis
    proof (cases "h ! a")
      case (ArrCell xs)
      with assms Suc True show ?thesis
        by (cases "normalizeList f h xs") auto
    next
      case (ObjCell kvs)
      with assms Suc True show ?thesis
        by (cases "normalizeEntries f h kvs []") auto
    qed
  qed
qed

lemma freshExt_refl: "freshExt h h"
proof -
  have "\<exists>ext. h = h @ ext" by simp
  moreover have "\<forall>a r. length h \<le> a \<and> a < length h \<and> JRef r \<in> set (cellVals (h ! a))
             \<longrightarrow> length h \<le> r \<and> r < length h" by auto
  ultimately show ?thesis unfolding freshExt_def by blast
qed

lemma freshExt_length: "freshExt h h1 \<Longrightarrow> length h \<le> length h1"
proof -
  assume "freshExt h h1"
  then obtain ext where "h1 = h @ ext" unfolding freshExt_def by blast
  then show ?thesis by simp
qed

lemma freshExt_trans:
  assumes "freshExt h h1" "freshExt h1 h2"
  shows "freshExt h h2"
proof -
  from assms obtain e1 e2 where e1: "h1 = h @ e1" and e2: "h2 = h1 @ e2"
    unfolding freshExt_def by blast
  from assms(1) have f1: "\<And>a r. length h \<le> a \<Longrightarrow> a < length h1 \<Longrightarrow>
      JRef r \<in> set (cellVals (h1 ! a)) \<Longrightarrow> length h \<le> r \<and> r < length h1"
    unfolding freshExt_def by blast
  from assms(2) have f2: "\<And>a r. length h1 \<le> a \<Longrightarrow> a < length h2 \<Longrightarrow>
      JRef r \<in> set (cellVals (h2 ! a)) \<Longrightarrow> length h1 \<le> r \<and> r < length h2"
    unfolding freshExt_def by blast
  have main: "length h \<le> r \<and> r < length h2"
    if b: "length h \<le> b" "b < length h2" "JRef r \<in> set (cellVals (h2 ! b))" for b r
  proof (cases "b < length h1")
    case True
    with b(3) e2 have "JRef r \<in> set (cellVals (h1 ! b))" by (simp add: nth_append)
    from f1 [OF b(1) True this] e2 show ?thesis by simp
  next
    case False
    then have "length h1 \<le> b" by simp
    from f2 [OF this b(2,3)] e1 show ?thesis by simp
  qed
  show ?thesis
    unfolding freshExt_def
  proof (intro conjI allI impI)
    from e1 e2 show "\<exists>ext. h2 = h @ ext" by simp
  next
    fix a r
    assume "length h \<le> a \<and> a < length h2 \<and> JRef r \<in> set (cellVals (h2 ! a))"
    then show "length h \<le> r" "r < length h2" using main [of a r] by simp_all
  qed
qed

lemma freshExt_snoc:
  assumes "freshExt h h1" "freshVals h h1 (cellVals c)"
  shows "freshExt h (h1 @ [c])"
proof -
  from assms obtain e1 where e1: "h1 = h @ e1"
    unfolding freshExt_def by blast
  from assms(1) have f1: "\<And>a r. length h \<le> a \<Longrightarrow> a < length h1 \<Longrightarrow>
      JRef r \<in> set (cellVals (h1 ! a)) \<Longrightarrow> length h \<le> r \<and> r < length h1"
    unfolding freshExt_def by blast
  have main: "length h \<le> r \<and> r < length (h1 @ [c])"
    if b: "length h \<le> b" "b < length (h1 @ [c])" "JRef r \<in> set (cellVals ((h1 @ [c]) ! b))" for b r
  proof (cases "b < length h1")
    case True
    with b(3) have "JRef r \<in> set (cellVals (h1 ! b))" by (simp add: nth_append)
    from f1 [OF b(1) True this] show ?thesis by simp
  next
    case False
    with b(2) have "b = length h1" by simp
    with b(3) have "JRef r \<in> set (cellVals c)" by simp
    with assms(2) have "length h \<le> r \<and> r < length h1"
      unfolding freshVals_def by blast
    then show ?thesis by simp
  qed
  show ?thesis
    unfolding freshExt_def
  proof (intro conjI allI impI)
    from e1 show "\<exists>ext. h1 @ [c] = h @ ext" by simp
  next
    fix a r
    assume "length h \<le> a \<and> a < length (h1 @ [c]) \<and> JRef r \<in> set (cellVals ((h1 @ [c]) ! a))"
    then show "length h \<le> r" "r < length (h1 @ [c])" using main [of a r] by simp_all
  qed
qed

lemma freshVals_mono:
  assumes "freshVals h1 h2 vs" "length h \<le> length h1" "length h2 \<le> length h3"
  shows "freshVals h h3 vs"
  unfolding freshVals_def
proof (intro allI impI)
  fix r assume "JRef r \<in> set vs"
  with assms(1) have "length h1 \<le> r \<and> r < length h2" unfolding freshVals_def by blast
  with assms(2,3) show "length h \<le> r \<and> r < length h3" by simp
qed

lemma normalize_fresh:
  "normalizeH fuel h v = Some (w, h1) \<Longrightarrow> freshExt h h1 \<and> freshVals h h1 [w]"
  "normalizeList fuel h xs = Some (ys, h2) \<Longrightarrow> freshExt h h2 \<and> freshVals h h2 ys"
  "normalizeEntries fuel h es acc = Some (res, h3) \<Longrightarrow>
     freshExt h h3
     \<and> (\<forall>r. JRef r \<in> set (map snd res) \<longrightarrow>
            JRef r \<in> set (map snd acc) \<or> length h \<le> r \<and> r < length h3)"
proof (induction fuel h v and fuel h xs and fuel h es acc arbitrary: w h1 and ys h2 and res h3
       rule: normalizeH_normalizeList_normalizeEntries.induct)
  case (1 fuel h a)
  from normalizeH_JRef_Some [OF "1.prems"] obtain f where f: "fuel = Suc f" and a: "a < length h"
    and alt: "(\<exists>xs ys h'. h ! a = ArrCell xs \<and> normalizeList f h xs = Some (ys, h')
          \<and> w = JRef (length h') \<and> h1 = h' @ [ArrCell ys])
      \<or> (\<exists>kvs res h'. h ! a = ObjCell kvs \<and> normalizeEntries f h kvs [] = Some (res, h')
          \<and> w = JRef (length h') \<and> h1 = h' @ [ObjCell res])" by blast
  from alt show ?case
  proof
    assume "\<exists>xs ys h'. h ! a = ArrCell xs \<and> normalizeList f h xs = Some (ys, h')
          \<and> w = JRef (length h') \<and> h1 = h' @ [ArrCell ys]"
    then obtain xs ys h' where c: "h ! a = ArrCell xs" and nl: "normalizeList f h xs = Some (ys, h')"
      and w: "w = JRef (length h')" and h1: "h1 = h' @ [ArrCell ys]" by blast
    from "1.IH"(1) [OF f a c nl] have fe: "freshExt h h'" and fv: "freshVals h h' ys" by simp_all
    from fv have "freshVals h h' (cellVals (ArrCell ys))" by simp
    from freshExt_snoc [OF fe this] h1 have "freshExt h h1" by simp
    moreover from freshExt_length [OF fe] w h1 have "freshVals h h1 [w]"
      by (simp add: freshVals_def)
    ultimately show ?thesis by simp
  next
    assume "\<exists>kvs res h'. h ! a = ObjCell kvs \<and> normalizeEntries f h kvs [] = Some (res, h')
          \<and> w = JRef (length h') \<and> h1 = h' @ [ObjCell res]"
    then obtain kvs res h' where c: "h ! a = ObjCell kvs"
      and nl: "normalizeEntries f h kvs [] = Some (res, h')"
      and w: "w = JRef (length h')" and h1: "h1 = h' @ [ObjCell res]" by blast
    from "1.IH"(2) [OF f a c nl] have fe: "freshExt h h'"
      and fv: "\<forall>r. JRef r \<in> set (map snd res) \<longrightarrow>
            JRef r \<in> set (map snd []) \<or> length h \<le> r \<and> r < length h'" by simp_all
    from fv have "freshVals h h' (cellVals (ObjCell res))" by (simp add: freshVals_def)
    from freshExt_snoc [OF fe this] h1 have "freshExt h h1" by simp
    moreover from freshExt_length [OF fe] w h1 have "freshVals h h1 [w]"
      by (simp add: freshVals_def)
    ultimately show ?thesis by simp
  qed
next
  case (2 fuel h)
  then show ?case by (auto simp: freshExt_refl freshVals_def)
next
  case (3 fuel h b)
  then show ?case by (auto simp: freshExt_refl freshVals_def)
next
  case (4 fuel h n)
  then show ?case by (auto simp: freshExt_refl freshVals_def)
next
  case (5 fuel h s)
  then show ?case by (auto simp: freshExt_refl freshVals_def)
next
  case (6 fuel h)
  then show ?case by (auto simp: freshExt_refl freshVals_def)
next
  case (7 fuel h x xs)
  from "7.prems" obtain y h' ys' where
    n1: "normalizeH fuel h x = Some (y, h')" and n2: "normalizeList fuel h' xs = Some (ys', h2)"
    and ys: "ys = y # ys'"
    by (auto split: option.splits)
  from "7.IH"(1) [OF n1] have fe1: "freshExt h h'" and fv1: "freshVals h h' [y]" by simp_all
  from "7.IH"(2) [OF n1 refl n2] have fe2: "freshExt h' h2" and fv2: "freshVals h' h2 ys'"
    by simp_all
  from freshExt_trans [OF fe1 fe2] have "freshExt h h2" .
  moreover have "freshVals h h2 ys"
    unfolding freshVals_def
  proof (intro allI impI)
    fix r assume "JRef r \<in> set ys"
    with ys have "JRef r \<in> set [y] \<or> JRef r \<in> set ys'" by simp
    then show "length h \<le> r \<and> r < length h2"
    proof
      assume "JRef r \<in> set [y]"
      with fv1 have "length h \<le> r \<and> r < length h'" unfolding freshVals_def by blast
      with freshExt_length [OF fe2] show ?thesis by simp
    next
      assume "JRef r \<in> set ys'"
      with fv2 have "length h' \<le> r \<and> r < length h2" unfolding freshVals_def by blast
      with freshExt_length [OF fe1] show ?thesis by simp
    qed
  qed
  ultimately show ?case by simp
next
  case (8 fuel h result)
  then show ?case by (simp add: freshExt_refl)
next
  case (9 fuel h e es result)
  from "9.prems" obtain y h' where
    n1: "normalizeH fuel h (snd e) = Some (y, h')"
    and n2: "normalizeEntries fuel h' es (setKey (fst e) y result) = Some (res, h3)"
    by (auto split: option.splits)
  from "9.IH"(1) [OF n1] have fe1: "freshExt h h'" and fv1: "freshVals h h' [y]" by simp_all
  from "9.IH"(2) [OF n1 refl n2] have fe2: "freshExt h' h3"
    and fv2: "\<forall>r. JRef r \<in> set (map snd res) \<longrightarrow>
            JRef r \<in> set (map snd (setKey (fst e) y result)) \<or> length h' \<le> r \<and> r < length h3"
    by simp_all
  from freshExt_trans [OF fe1 fe2] have "freshExt h h3" .
  moreover have "\<forall>r. JRef r \<in> set (map snd res) \<longrightarrow>
            JRef r \<in> set (map snd result) \<or> length h \<le> r \<and> r < length h3"
  proof (intro allI impI)
    fix r assume "JRef r \<in> set (map snd res)"
    with fv2 have "JRef r \<in> set (map snd (setKey (fst e) y result)) \<or> length h' \<le> r \<and> r < length h3"
      by blast
    then show "JRef r \<in> set (map snd result) \<or> length h \<le> r \<and> r < length h3"
    proof
      assume "JRef r \<in> set (map snd (setKey (fst e) y result))"
      with set_setKey [of "fst e" y result] have "JRef r = y \<or> JRef r \<in> set (map snd result)"
        by auto
      then show ?thesis
      proof
        assume "JRef r = y"
        with fv1 have "length h \<le> r \<and> r < length h'" unfolding freshVals_def by simp
        with freshExt_length [OF fe2] show ?thesis by simp
      qed simp
    next
      assume "length h' \<le> r \<and> r < length h3"
      with freshExt_length [OF fe1] show ?thesis by simp
    qed
  qed
  ultimately show ?case by simp
qed

lemma rankedBelow_append: "rankedBelow rk n h \<Longrightarrow> rankedBelow rk n (h @ ext)"
  unfolding rankedBelow_def by (simp add: nth_append)

lemma rankedBelow_fresh: "rankedBelow rk n h \<Longrightarrow> freshExt h h1 \<Longrightarrow> rankedBelow rk n h1"
proof -
  assume r: "rankedBelow rk n h" and "freshExt h h1"
  then obtain ext where "h1 = h @ ext" unfolding freshExt_def by blast
  with rankedBelow_append [OF r] show ?thesis by simp
qed

lemma rankedBelow_cell:
  "rankedBelow rk n h \<Longrightarrow> a < n \<Longrightarrow> JRef r \<in> set (cellVals (h ! a)) \<Longrightarrow> r < n \<and> rk r < rk a"
  unfolding rankedBelow_def by blast

lemma normalize_total:
  "rankedBelow rk n h \<Longrightarrow> (\<forall>a. v = JRef a \<longrightarrow> a < n \<and> rk a < fuel) \<Longrightarrow>
     \<exists>w h1. normalizeH fuel h v = Some (w, h1)"
  "rankedBelow rk n h \<Longrightarrow> (\<forall>a. JRef a \<in> set xs \<longrightarrow> a < n \<and> rk a < fuel) \<Longrightarrow>
     \<exists>ys h2. normalizeList fuel h xs = Some (ys, h2)"
  "rankedBelow rk n h \<Longrightarrow> (\<forall>a. JRef a \<in> set (map snd es) \<longrightarrow> a < n \<and> rk a < fuel) \<Longrightarrow>
     \<exists>res h3. normalizeEntries fuel h es acc = Some (res, h3)"
proof (induction fuel h v and fuel h xs and fuel h es acc
       rule: normalizeH_normalizeList_normalizeEntries.induct)
  case (1 fuel h a)
  from "1.prems" have a: "a < n" and rk: "rk a < fuel" by simp_all
  then obtain f where f: "fuel = Suc f" by (cases fuel) simp_all
  from "1.prems"(1) a have al: "a < length h" unfolding rankedBelow_def by simp
  have below: "\<forall>r. JRef r \<in> set (cellVals (h ! a)) \<longrightarrow> r < n \<and> rk r < f"
  proof (intro allI impI)
    fix r assume "JRef r \<in> set (cellVals (h ! a))"
    from rankedBelow_cell [OF "1.prems"(1) a this] rk f show "r < n \<and> rk r < f" by simp
  qed
  show ?case
  proof (cases "h ! a")
    case (ArrCell xs)
    with below have "\<forall>r. JRef r \<in> set xs \<longrightarrow> r < n \<and> rk r < f" by simp
    from "1.IH"(1) [OF f al ArrCell "1.prems"(1) this]
    obtain ys h2 where "normalizeList f h xs = Some (ys, h2)" by blast
    with f al ArrCell show ?thesis by simp
  next
    case (ObjCell kvs)
    with below have "\<forall>r. JRef r \<in> set (map snd kvs) \<longrightarrow> r < n \<and> rk r < f" by simp
    from "1.IH"(2) [OF f al ObjCell "1.prems"(1) this]
    obtain res h3 where "normalizeEntries f h kvs [] = Some (res, h3)" by blast
    with f al ObjCell show ?thesis by simp
  qed
next
  case (2 fuel h)
  show ?case by simp
next
  case (3 fuel h b)
  show ?case by simp
next
  case (4 fuel h n)
  show ?case by simp
next
  case (5 fuel h s)
  show ?case by simp
next
  case (6 fuel h)
  show ?case by simp
next
  case (7 fuel h x xs)
  from "7.prems"(2) have "\<forall>a. x = JRef a \<longrightarrow> a < n \<and> rk a < fuel" by simp
  from "7.IH"(1) [OF "7.prems"(1) this] obtain y h1 where
    n1: "normalizeH fuel h x = Some (y, h1)" by blast
  from normalize_fresh(1) [OF n1] have "freshExt h h1" by simp
  from rankedBelow_fresh [OF "7.prems"(1) this] have r1: "rankedBelow rk n h1" .
  from "7.prems"(2) have "\<forall>a. JRef a \<in> set xs \<longrightarrow> a < n \<and> rk a < fuel" by simp
  from "7.IH"(2) [OF n1 refl r1 this] obtain ys h2 where
    "normalizeList fuel h1 xs = Some (ys, h2)" by blast
  with n1 show ?case by simp
next
  case (8 fuel h result)
  show ?case by simp
next
  case (9 fuel h e es result)
  from "9.prems"(2) have "\<forall>a. snd e = JRef a \<longrightarrow> a < n \<and> rk a < fuel" by simp
  from "9.IH"(1) [OF "9.prems"(1) this] obtain y h1 where
    n1: "normalizeH fuel h (snd e) = Some (y, h1)" by blast
  from normalize_fresh(1) [OF n1] have "freshExt h h1" by simp
  from rankedBelow_fresh [OF "9.prems"(1) this] have r1: "rankedBelow rk n h1" .
  from "9.prems"(2) have "\<forall>a. JRef a \<in> set (map snd es) \<longrightarrow> a < n \<and> rk a < fuel" by simp
  from "9.IH"(2) [OF n1 refl r1 this] obtain res h3 where
    "normalizeEntries fuel h1 es (setKey (fst e) y result) = Some (res, h3)" by blast
  with n1 show ?case by simp
qed

lemma objectAt_Some:
  "objectAt h v = Some (a, obj) \<Longrightarrow> v = JRef a \<and> a < length h \<and> h ! a = ObjCell obj"
  by (auto simp: objectAt_def split: jsval.splits if_splits cell.splits)

lemma arrayAt_Some:
  "arrayAt h v = Some (a, xs) \<Longrightarrow> v = JRef a \<and> a < length h \<and> h ! a = ArrCell xs"
  by (auto simp: arrayAt_def split: jsval.splits if_splits cell.splits)

lemma setValue_frame:
  assumes "setValue fuel h1 w key x = Some (Inr h2)" "\<forall>a. w = JRef a \<longrightarrow> n \<le> a" "n \<le> length h1"
  shows "take n h2 = take n h1"
proof -
  have upd: "take n (h'[a := c]) = take n h1"
    if "normalizeH fuel h1 x = Some (y, h')" "w = JRef a" for y h' a c
  proof -
    from normalize_fresh(1) [OF that(1)] obtain ext where "h' = h1 @ ext"
      unfolding freshExt_def by blast
    moreover from assms(2) that(2) have "n \<le> a" by simp
    ultimately show ?thesis using assms(3) by simp
  qed
  show ?thesis
  proof (cases key)
    case (KeyStr k)
    with assms(1) obtain a obj y h' where "objectAt h1 w = Some (a, obj)"
      "normalizeH fuel h1 x = Some (y, h')" "h2 = h'[a := ObjCell (setKey k y obj)]"
      by (auto split: option.splits prod.splits)
    with upd objectAt_Some show ?thesis by blast
  next
    case (KeyNum i)
    with assms(1) obtain a xs y h' where "arrayAt h1 w = Some (a, xs)"
      "normalizeH fuel h1 x = Some (y, h')" "h2 = h'[a := ArrCell (xs[nat i := y])]"
      by (auto split: option.splits prod.splits if_splits)
    with upd arrayAt_Some show ?thesis by blast
  qed
qed

lemma get_fresh:
  assumes "get fuel h this key = Some (Inr (w, h1))"
  shows "freshExt h h1 \<and> freshVals h h1 [w]"
proof -
  have proto: "freshExt h (h @ [ObjCell []]) \<and> freshVals h (h @ [ObjCell []]) [JRef (length h)]"
  proof -
    have "freshVals h h (cellVals (ObjCell []))" by (simp add: freshVals_def)
    from freshExt_snoc [OF freshExt_refl this] show ?thesis by (simp add: freshVals_def)
  qed
  show ?thesis
  proof (cases key)
    case (KeyStr k)
    with assms obtain a obj where o: "objectAt h this = Some (a, obj)"
      and c: "property obj k \<noteq> Undefined" "construct fuel h (property obj k) = Some (Inr (w, h1))"
      by (auto split: option.splits prod.splits property.splits)
    show ?thesis
    proof (cases "property obj k")
      case (Stored x)
      with c have "normalizeH fuel h x = Some (w, h1)" by auto
      from normalize_fresh(1) [OF this] show ?thesis .
    next
      case InheritedFunction
      with c show ?thesis by simp
    next
      case ObjectPrototype
      with c proto show ?thesis by simp
    next
      case Undefined
      with c show ?thesis by simp
    qed
  next
    case (KeyNum i)
    with assms obtain x where "normalizeH fuel h x = Some (w, h1)"
      by (auto split: option.splits prod.splits if_splits)
    from normalize_fresh(1) [OF this] show ?thesis .
  qed
qed

lemma get_total:
  assumes "ranked rk h" "\<forall>a < length h. rk a < fuel"
  shows "\<exists>r. get fuel h this key = Some r"
proof -
  have nz: "\<exists>r. map_option Inr (normalizeH fuel h x) = Some (r :: accessError + 'a jsval \<times> 'a heap)"
    if "a < length h" "x \<in> set (cellVals (h ! a))" for a x
  proof -
    have "\<forall>b. x = JRef b \<longrightarrow> b < length h \<and> rk b < fuel"
    proof (intro allI impI)
      fix b assume "x = JRef b"
      with that rankedBelow_cell [OF assms(1) [unfolded ranked_def] that(1), of b]
      have "b < length h" by simp
      with assms(2) show "b < length h \<and> rk b < fuel" by simp
    qed
    from normalize_total(1) [OF assms(1) [unfolded ranked_def] this] show ?thesis by auto
  qed
  show ?thesis
  proof (cases key)
    case (KeyStr k)
    show ?thesis
    proof (cases "objectAt h this")
      case None
      with KeyStr show ?thesis by simp
    next
      case (Some p)
      obtain a obj where p: "p = (a, obj)" by (cases p)
      from objectAt_Some [OF Some [unfolded p]] have c: "a < length h" "h ! a = ObjCell obj" by simp_all
      show ?thesis
      proof (cases "property obj k")
        case (Stored x)
        then have "getKey obj k = Some x"
          by (auto simp: property_def split: option.splits if_splits)
        then have "x \<in> set (cellVals (h ! a))"
          using c(2) by (auto simp: getKey_def dest: map_of_SomeD intro: rev_image_eqI)
        from nz [OF c(1) this] KeyStr \<open>objectAt h this = Some p\<close> p Stored show ?thesis by simp
      next
        case InheritedFunction
        with KeyStr Some p show ?thesis by simp
      next
        case ObjectPrototype
        with KeyStr Some p show ?thesis by simp
      next
        case Undefined
        with KeyStr Some p show ?thesis by simp
      qed
    qed
  next
    case (KeyNum i)
    show ?thesis
    proof (cases "arrayAt h this")
      case None
      with KeyNum show ?thesis by simp
    next
      case (Some p)
      obtain a xs where p: "p = (a, xs)" by (cases p)
      from arrayAt_Some [OF Some [unfolded p]] have c: "a < length h" "h ! a = ArrCell xs" by simp_all
      show ?thesis
      proof (cases "i < 0 \<or> i \<ge> int (length xs)")
        case True
        with KeyNum Some p show ?thesis by simp
      next
        case False
        then have "nat i < length xs" by linarith
        then have "xs ! nat i \<in> set (cellVals (h ! a))" using c(2) by simp
        from nz [OF c(1) this] KeyNum Some p False show ?thesis by simp
      qed
    qed
  qed
qed

lemma setAll_frame:
  "setAll fuel h1 w cs = Some h2 \<Longrightarrow> \<forall>a. w = JRef a \<longrightarrow> n \<le> a \<Longrightarrow> n \<le> length h1 \<Longrightarrow>
     take n h2 = take n h1"
proof (induction cs arbitrary: h1)
  case Nil
  then show ?case by simp
next
  case (Cons c cs)
  show ?case
  proof (cases "setValue fuel h1 w (fst c) (snd c)")
    case None
    with Cons.prems show ?thesis by simp
  next
    case (Some r)
    show ?thesis
    proof (cases r)
      case (Inl e)
      with Some Cons.prems have "setAll fuel h1 w cs = Some h2" by simp
      from Cons.IH [OF this Cons.prems(2,3)] show ?thesis .
    next
      case (Inr h')
      with Some Cons.prems have s: "setAll fuel h' w cs = Some h2" by simp
      from Some Inr have sv: "setValue fuel h1 w (fst c) (snd c) = Some (Inr h')" by simp
      from setValue_frame [OF sv Cons.prems(2,3)] have t: "take n h' = take n h1" .
      then have "length (take n h') = length (take n h1)" by simp
      with Cons.prems(3) have "n \<le> length h'" by simp
      from Cons.IH [OF s Cons.prems(2) this] t show ?thesis by simp
    qed
  qed
qed

lemma treeOf_append:
  "treeOf fuel h v = Some t \<Longrightarrow> treeOf fuel (h @ ext) v = Some t"
  "treeOfList fuel h xs = Some ts \<Longrightarrow> treeOfList fuel (h @ ext) xs = Some ts"
  "treeOfEntries fuel h es acc = Some res \<Longrightarrow> treeOfEntries fuel (h @ ext) es acc = Some res"
proof (induction fuel h v and fuel h xs and fuel h es acc arbitrary: t and ts and res
       rule: treeOf_treeOfList_treeOfEntries.induct)
  case (1 fuel h a)
  then obtain f where f: "fuel = Suc f" by (cases fuel) simp_all
  from "1.prems" f have a: "a < length h" by (simp split: if_splits)
  show ?case
  proof (cases "h ! a")
    case (ArrCell xs)
    with "1.prems" f a obtain ts where ts: "treeOfList f h xs = Some ts" "t = VArr ts" by auto
    from "1.IH"(1) [OF f a ArrCell ts(1)] f a ArrCell ts(2) show ?thesis
      by (simp add: nth_append)
  next
    case (ObjCell kvs)
    with "1.prems" f a obtain r where r: "treeOfEntries f h kvs [] = Some r" "t = VObj r" by auto
    from "1.IH"(2) [OF f a ObjCell r(1)] f a ObjCell r(2) show ?thesis
      by (simp add: nth_append)
  qed
next
  case (2 fuel h)
  then show ?case by simp
next
  case (3 fuel h b)
  then show ?case by simp
next
  case (4 fuel h n)
  then show ?case by simp
next
  case (5 fuel h s)
  then show ?case by simp
next
  case (6 fuel h)
  then show ?case by simp
next
  case (7 fuel h x xs)
  from "7.prems" obtain t' ts' where t: "treeOf fuel h x = Some t'"
    and ts: "treeOfList fuel h xs = Some ts'" and e: "ts = t' # ts'"
    by (auto split: option.splits)
  from "7.IH"(1) [OF t] "7.IH"(2) [OF t ts] e show ?case by simp
next
  case (8 fuel h result)
  then show ?case by simp
next
  case (9 fuel h e es result)
  from "9.prems" obtain t' where t: "treeOf fuel h (snd e) = Some t'"
    and r: "treeOfEntries fuel h es (setKey (fst e) t' result) = Some res"
    by (auto split: option.splits)
  from "9.IH"(1) [OF t] "9.IH"(2) [OF t r] show ?case by simp
qed

lemma treeOf_frame:
  assumes "take (length h) h2 = h" "treeOf fuel h v = Some t"
  shows "treeOf fuel h2 v = Some t"
proof -
  from assms(1) have "h2 = h @ drop (length h) h2"
    by (metis append_take_drop_id)
  with treeOf_append(1) [OF assms(2), of "drop (length h) h2"] show ?thesis by simp
qed

lemma normalizeEntries_keys:
  "normalizeEntries fuel h es acc = Some (res, h3) \<Longrightarrow>
     distinct (map fst acc) \<Longrightarrow> ''__proto__'' \<notin> set (map fst acc) \<Longrightarrow>
     distinct (map fst res) \<and> ''__proto__'' \<notin> set (map fst res)"
proof (induction es arbitrary: h acc)
  case Nil
  then show ?case by simp
next
  case (Cons e es)
  from Cons.prems(1) obtain y h' where
    n2: "normalizeEntries fuel h' es (setKey (fst e) y acc) = Some (res, h3)"
    by (auto split: option.splits)
  from keys_setKey [OF Cons.prems(2,3), of "fst e" y]
  have "distinct (map fst (setKey (fst e) y acc))" "''__proto__'' \<notin> set (map fst (setKey (fst e) y acc))"
    by simp_all
  from Cons.IH [OF n2 this] show ?case .
qed

lemma list_all2_putKey:
  "list_all2 (\<lambda>p q. fst p = fst q \<and> R (snd p) (snd q)) acc accT \<Longrightarrow> R y t \<Longrightarrow>
     list_all2 (\<lambda>p q. fst p = fst q \<and> R (snd p) (snd q)) (putKey k y acc) (putKey k t accT)"
  by (induction acc accT rule: list_all2_induct) auto

lemma list_all2_setKey:
  "list_all2 (\<lambda>p q. fst p = fst q \<and> R (snd p) (snd q)) acc accT \<Longrightarrow> R y t \<Longrightarrow>
     list_all2 (\<lambda>p q. fst p = fst q \<and> R (snd p) (snd q)) (setKey k y acc) (setKey k t accT)"
  by (simp add: setKey_def list_all2_putKey)

lemma treeOfEntries_read:
  "list_all2 (\<lambda>p q. fst p = fst q \<and> treeOf fuel h (snd p) = Some (snd q)) es esT \<Longrightarrow>
     treeOfEntries fuel h es acc = Some (assignAll acc esT)"
proof (induction es esT arbitrary: acc rule: list_all2_induct)
  case Nil
  then show ?case by simp
next
  case (Cons e es eT esT)
  then show ?case by simp
qed

lemma normalize_tree:
  "normalizeH fuel h v = Some (w, h1) \<Longrightarrow> treeOf fuel h v = Some t \<Longrightarrow> treeOf fuel h1 w = Some t"
  "normalizeList fuel h xs = Some (ys, h2) \<Longrightarrow> treeOfList fuel h xs = Some ts \<Longrightarrow>
     treeOfList fuel h2 ys = Some ts"
  "normalizeEntries fuel h es acc = Some (res, h3) \<Longrightarrow>
     list_all2 (\<lambda>p q. fst p = fst q \<and> treeOf fuel h (snd p) = Some (snd q)) acc accT \<Longrightarrow>
     treeOfEntries fuel h es accT = Some resT \<Longrightarrow>
     list_all2 (\<lambda>p q. fst p = fst q \<and> treeOf fuel h3 (snd p) = Some (snd q)) res resT"
proof (induction fuel h v and fuel h xs and fuel h es acc
       arbitrary: w h1 t and ys h2 ts and res h3 accT resT
       rule: normalizeH_normalizeList_normalizeEntries.induct)
  case (1 fuel h a)
  from normalizeH_JRef_Some [OF "1.prems"(1)] obtain f where f: "fuel = Suc f" and a: "a < length h"
    and alt: "(\<exists>xs ys h'. h ! a = ArrCell xs \<and> normalizeList f h xs = Some (ys, h')
          \<and> w = JRef (length h') \<and> h1 = h' @ [ArrCell ys])
      \<or> (\<exists>kvs res h'. h ! a = ObjCell kvs \<and> normalizeEntries f h kvs [] = Some (res, h')
          \<and> w = JRef (length h') \<and> h1 = h' @ [ObjCell res])" by blast
  from alt show ?case
  proof
    assume "\<exists>xs ys h'. h ! a = ArrCell xs \<and> normalizeList f h xs = Some (ys, h')
          \<and> w = JRef (length h') \<and> h1 = h' @ [ArrCell ys]"
    then obtain xs ys h' where c: "h ! a = ArrCell xs" and nl: "normalizeList f h xs = Some (ys, h')"
      and w: "w = JRef (length h')" and h1: "h1 = h' @ [ArrCell ys]" by blast
    from "1.prems"(2) f a c obtain ts where ts: "treeOfList f h xs = Some ts" "t = VArr ts" by auto
    from "1.IH"(1) [OF f a c nl ts(1)] have "treeOfList f h' ys = Some ts" .
    from treeOf_append(2) [OF this, of "[ArrCell ys]"] f w h1 ts(2) show ?thesis by simp
  next
    assume "\<exists>kvs res h'. h ! a = ObjCell kvs \<and> normalizeEntries f h kvs [] = Some (res, h')
          \<and> w = JRef (length h') \<and> h1 = h' @ [ObjCell res]"
    then obtain kvs res h' where c: "h ! a = ObjCell kvs"
      and nl: "normalizeEntries f h kvs [] = Some (res, h')"
      and w: "w = JRef (length h')" and h1: "h1 = h' @ [ObjCell res]" by blast
    from "1.prems"(2) f a c obtain resT where r: "treeOfEntries f h kvs [] = Some resT" "t = VObj resT"
      by auto
    have "list_all2 (\<lambda>p q. fst p = fst q \<and> treeOf f h (snd p) = Some (snd q)) [] []" by simp
    from "1.IH"(2) [OF f a c nl this r(1)]
    have l: "list_all2 (\<lambda>p q. fst p = fst q \<and> treeOf f h' (snd p) = Some (snd q)) res resT" .
    from treeOfEntries_read [OF l, of "[]"]
    have rd: "treeOfEntries f h' res [] = Some (assignAll [] resT)" .
    from l have keys: "map fst resT = map fst res"
      by (induction res resT rule: list_all2_induct) auto
    from normalizeEntries_keys [OF nl] keys
    have "distinct (map fst ([] @ resT))" "''__proto__'' \<notin> set (map fst resT)" by simp_all
    from assignAll_distinct [OF this] rd have "treeOfEntries f h' res [] = Some resT" by simp
    from treeOf_append(3) [OF this, of "[ObjCell res]"] f w h1 r(2) show ?thesis by simp
  qed
next
  case (2 fuel h)
  then show ?case by auto
next
  case (3 fuel h b)
  then show ?case by auto
next
  case (4 fuel h n)
  then show ?case by auto
next
  case (5 fuel h s)
  then show ?case by auto
next
  case (6 fuel h)
  then show ?case by auto
next
  case (7 fuel h x xs)
  from "7.prems"(1) obtain y h' ys' where
    n1: "normalizeH fuel h x = Some (y, h')" and n2: "normalizeList fuel h' xs = Some (ys', h2)"
    and ys: "ys = y # ys'"
    by (auto split: option.splits)
  from "7.prems"(2) obtain t' ts' where t: "treeOf fuel h x = Some t'"
    and tl: "treeOfList fuel h xs = Some ts'" and e: "ts = t' # ts'"
    by (auto split: option.splits)
  from normalize_fresh(1) [OF n1] obtain ext where ext: "h' = h @ ext"
    unfolding freshExt_def by blast
  from normalize_fresh(2) [OF n2] obtain ext2 where ext2: "h2 = h' @ ext2"
    unfolding freshExt_def by blast
  from "7.IH"(1) [OF n1 t] have "treeOf fuel h' y = Some t'" .
  from treeOf_append(1) [OF this, of ext2] ext2 have y: "treeOf fuel h2 y = Some t'" by simp
  from treeOf_append(2) [OF tl, of ext] ext have "treeOfList fuel h' xs = Some ts'" by simp
  from "7.IH"(2) [OF n1 refl n2 this] have "treeOfList fuel h2 ys' = Some ts'" .
  with y ys e show ?case by simp
next
  case (8 fuel h result)
  then show ?case by auto
next
  case (9 fuel h e es result)
  from "9.prems"(1) obtain y h' where
    n1: "normalizeH fuel h (snd e) = Some (y, h')"
    and n2: "normalizeEntries fuel h' es (setKey (fst e) y result) = Some (res, h3)"
    by (auto split: option.splits)
  from "9.prems"(3) obtain t' where t: "treeOf fuel h (snd e) = Some t'"
    and r: "treeOfEntries fuel h es (setKey (fst e) t' accT) = Some resT"
    by (auto split: option.splits)
  from normalize_fresh(1) [OF n1] obtain ext where ext: "h' = h @ ext"
    unfolding freshExt_def by blast
  from "9.IH"(1) [OF n1 t] have y: "treeOf fuel h' y = Some t'" .
  have "list_all2 (\<lambda>p q. fst p = fst q \<and> treeOf fuel h' (snd p) = Some (snd q)) result accT"
    using "9.prems"(2) treeOf_append(1) [of fuel h _ _ ext] ext
    by (auto elim!: list_all2_mono)
  from list_all2_setKey [OF this, of y t' "fst e"] y
  have l: "list_all2 (\<lambda>p q. fst p = fst q \<and> treeOf fuel h' (snd p) = Some (snd q))
             (setKey (fst e) y result) (setKey (fst e) t' accT)" by simp
  from treeOf_append(3) [OF r, of ext] ext
  have "treeOfEntries fuel h' es (setKey (fst e) t' accT) = Some resT" by simp
  from "9.IH"(2) [OF n1 refl n2 l this] show ?case .
qed

lemma treeOf_total:
  "rankedBelow rk n h \<Longrightarrow> (\<forall>a. v = JRef a \<longrightarrow> a < n \<and> rk a < fuel) \<Longrightarrow>
     \<exists>t. treeOf fuel h v = Some t"
  "rankedBelow rk n h \<Longrightarrow> (\<forall>a. JRef a \<in> set xs \<longrightarrow> a < n \<and> rk a < fuel) \<Longrightarrow>
     \<exists>ts. treeOfList fuel h xs = Some ts"
  "rankedBelow rk n h \<Longrightarrow> (\<forall>a. JRef a \<in> set (map snd es) \<longrightarrow> a < n \<and> rk a < fuel) \<Longrightarrow>
     \<exists>res. treeOfEntries fuel h es acc = Some res"
proof (induction fuel h v and fuel h xs and fuel h es acc
       rule: treeOf_treeOfList_treeOfEntries.induct)
  case (1 fuel h a)
  from "1.prems" have a: "a < n" and rk: "rk a < fuel" by simp_all
  then obtain f where f: "fuel = Suc f" by (cases fuel) simp_all
  from "1.prems"(1) a have al: "a < length h" unfolding rankedBelow_def by simp
  have below: "\<forall>r. JRef r \<in> set (cellVals (h ! a)) \<longrightarrow> r < n \<and> rk r < f"
  proof (intro allI impI)
    fix r assume "JRef r \<in> set (cellVals (h ! a))"
    from rankedBelow_cell [OF "1.prems"(1) a this] rk f show "r < n \<and> rk r < f" by simp
  qed
  show ?case
  proof (cases "h ! a")
    case (ArrCell xs)
    with below have "\<forall>r. JRef r \<in> set xs \<longrightarrow> r < n \<and> rk r < f" by simp
    from "1.IH"(1) [OF f al ArrCell "1.prems"(1) this]
    obtain ts where "treeOfList f h xs = Some ts" by blast
    with f al ArrCell show ?thesis by simp
  next
    case (ObjCell kvs)
    with below have "\<forall>r. JRef r \<in> set (map snd kvs) \<longrightarrow> r < n \<and> rk r < f" by simp
    from "1.IH"(2) [OF f al ObjCell "1.prems"(1) this]
    obtain res where "treeOfEntries f h kvs [] = Some res" by blast
    with f al ObjCell show ?thesis by simp
  qed
next
  case (2 fuel h)
  show ?case by simp
next
  case (3 fuel h b)
  show ?case by simp
next
  case (4 fuel h n)
  show ?case by simp
next
  case (5 fuel h s)
  show ?case by simp
next
  case (6 fuel h)
  show ?case by simp
next
  case (7 fuel h x xs)
  from "7.prems"(2) have "\<forall>a. x = JRef a \<longrightarrow> a < n \<and> rk a < fuel" by simp
  from "7.IH"(1) [OF "7.prems"(1) this] obtain t where t: "treeOf fuel h x = Some t" by blast
  from "7.prems"(2) have "\<forall>a. JRef a \<in> set xs \<longrightarrow> a < n \<and> rk a < fuel" by simp
  from "7.IH"(2) [OF t "7.prems"(1) this] obtain ts where "treeOfList fuel h xs = Some ts" by blast
  with t show ?case by simp
next
  case (8 fuel h result)
  show ?case by simp
next
  case (9 fuel h e es result)
  from "9.prems"(2) have "\<forall>a. snd e = JRef a \<longrightarrow> a < n \<and> rk a < fuel" by simp
  from "9.IH"(1) [OF "9.prems"(1) this] obtain t where t: "treeOf fuel h (snd e) = Some t" by blast
  from "9.prems"(2) have "\<forall>a. JRef a \<in> set (map snd es) \<longrightarrow> a < n \<and> rk a < fuel" by simp
  from "9.IH"(2) [OF t "9.prems"(1) this] obtain res where
    "treeOfEntries fuel h es (setKey (fst e) t result) = Some res" by blast
  with t show ?case by simp
qed

lemma stored_cell:
  assumes "stored h this key = Some x"
  shows "\<exists>a. this = JRef a \<and> a < length h \<and> x \<in> set (cellVals (h ! a))"
proof (cases key)
  case (KeyStr k)
  with assms obtain a obj where o: "objectAt h this = Some (a, obj)" and g: "getKey obj k = Some x"
    by (auto split: option.splits)
  from g have "x \<in> set (map snd obj)"
    by (auto simp: getKey_def dest: map_of_SomeD intro: rev_image_eqI)
  with objectAt_Some [OF o] show ?thesis by simp
next
  case (KeyNum i)
  with assms obtain a xs where o: "arrayAt h this = Some (a, xs)"
    and i: "0 \<le> i" "i < int (length xs)" and x: "x = xs ! nat i"
    by (auto split: option.splits if_splits)
  from i have "nat i < length xs" by linarith
  with x arrayAt_Some [OF o] show ?thesis by simp
qed

lemma get_stored:
  assumes "stored h this key = Some x"
  shows "get fuel h this key = map_option Inr (normalizeH fuel h x)"
proof (cases key)
  case (KeyStr k)
  with assms obtain a obj where o: "objectAt h this = Some (a, obj)" and g: "getKey obj k = Some x"
    by (auto split: option.splits)
  then show ?thesis using KeyStr by (simp add: property_def)
next
  case (KeyNum i)
  with assms obtain a xs where o: "arrayAt h this = Some (a, xs)"
    and i: "0 \<le> i" "i < int (length xs)" and x: "x = xs ! nat i"
    by (auto split: option.splits if_splits)
  then show ?thesis using KeyNum by simp
qed

lemma get_copy:
  assumes g: "get fuel h this key = Some (Inr (w, h1))"
  shows "take (length h) h1 = h
      \<and> (\<forall>a. w = JRef a \<longrightarrow> length h \<le> a \<and> a < length h1)
      \<and> (\<forall>a r. length h \<le> a \<and> a < length h1 \<and> JRef r \<in> set (cellVals (h1 ! a))
             \<longrightarrow> length h \<le> r \<and> r < length h1)
      \<and> (\<forall>fuel' key' x h2. setValue fuel' h1 w key' x = Some (Inr h2) \<longrightarrow>
             take (length h) h2 = h)
      \<and> (\<forall>fuel' cs h2. setAll fuel' h1 w cs = Some h2 \<longrightarrow>
             take (length h) h2 = h
             \<and> (\<forall>f v t. treeOf f h v = Some t \<longrightarrow> treeOf f h2 v = Some t))"
proof -
  from get_fresh [OF g] have fe: "freshExt h h1" and fv: "freshVals h h1 [w]"
    by simp_all
  from fe obtain ext where ext: "h1 = h @ ext" unfolding freshExt_def by blast
  then have t: "take (length h) h1 = h" by simp
  from fv have w: "\<forall>a. w = JRef a \<longrightarrow> length h \<le> a \<and> a < length h1"
    unfolding freshVals_def by simp
  then have w': "\<forall>a. w = JRef a \<longrightarrow> length h \<le> a" by simp
  from ext have le: "length h \<le> length h1" by simp
  from fe have deep: "\<forall>a r. length h \<le> a \<and> a < length h1 \<and> JRef r \<in> set (cellVals (h1 ! a))
             \<longrightarrow> length h \<le> r \<and> r < length h1"
    unfolding freshExt_def by blast
  have frame: "\<forall>fuel' key' x h2. setValue fuel' h1 w key' x = Some (Inr h2) \<longrightarrow>
             take (length h) h2 = h"
  proof (intro allI impI)
    fix fuel' key' x' h2
    assume s: "setValue fuel' h1 w key' x' = Some (Inr h2)"
    from setValue_frame [OF s w' le] t show "take (length h) h2 = h" by simp
  qed
  have run: "\<forall>fuel' cs h2. setAll fuel' h1 w cs = Some h2 \<longrightarrow>
             take (length h) h2 = h
             \<and> (\<forall>f v t. treeOf f h v = Some t \<longrightarrow> treeOf f h2 v = Some t)"
  proof (intro allI impI)
    fix fuel' cs h2
    assume s: "setAll fuel' h1 w cs = Some h2"
    from setAll_frame [OF s w' le] t have t2: "take (length h) h2 = h" by simp
    have "\<forall>f v t. treeOf f h v = Some t \<longrightarrow> treeOf f h2 v = Some t"
      using treeOf_frame [OF t2] by blast
    with t2 show "take (length h) h2 = h
             \<and> (\<forall>f v t. treeOf f h v = Some t \<longrightarrow> treeOf f h2 v = Some t)" by (rule conjI)
  qed
  from t w deep frame run show ?thesis by (intro conjI)
qed

lemma get_same_tree:
  assumes "stored h this key = Some x" "get fuel h this key = Some (Inr (w, h1))"
    "treeOf fuel h x = Some t"
  shows "treeOf fuel h1 w = Some t"
proof -
  from get_stored [OF assms(1), of fuel] assms(2) have "normalizeH fuel h x = Some (w, h1)"
    by (cases "normalizeH fuel h x") simp_all
  from normalize_tree(1) [OF this assms(3)] show ?thesis .
qed

lemma get_stored_total:
  assumes r: "ranked rk h" and f: "\<forall>a < length h. rk a < fuel" and s: "stored h this key = Some x"
  shows "\<exists>w h1 t. get fuel h this key = Some (Inr (w, h1))
            \<and> treeOf fuel h x = Some t \<and> treeOf fuel h1 w = Some t"
proof -
  from stored_cell [OF s] obtain a where a: "a < length h" "x \<in> set (cellVals (h ! a))" by blast
  have b: "\<forall>b. x = JRef b \<longrightarrow> b < length h \<and> rk b < fuel"
  proof (intro allI impI)
    fix b assume "x = JRef b"
    with a rankedBelow_cell [OF r [unfolded ranked_def] a(1), of b]
    have "b < length h" by simp
    with f show "b < length h \<and> rk b < fuel" by simp
  qed
  from normalize_total(1) [OF r [unfolded ranked_def] b] obtain w h1 where
    n: "normalizeH fuel h x = Some (w, h1)" by blast
  from treeOf_total(1) [OF r [unfolded ranked_def] b] obtain t where t: "treeOf fuel h x = Some t"
    by blast
  from get_stored [OF s, of fuel] n have "get fuel h this key = Some (Inr (w, h1))" by simp
  with t normalize_tree(1) [OF n t] show ?thesis by blast
qed

text \<open>
  Claim C9. When \<^verbatim>\<open>get\<close> returns a sub-value, the cells of the heap before the call
  are all unchanged, the returned \<^verbatim>\<open>OrtValue\<close> holds a primitive or a reference to a new
  cell, every reference inside the new cells leads to a new cell, and whatever \<^verbatim>\<open>set\<close>
  later assigns through the returned \<^verbatim>\<open>OrtValue\<close>, in one call or in a run of calls,
  leaves every cell of the heap before the call unchanged, so that every value of the
  original tree reads as the tree it read as before. For a key of the object's own or an
  index in range, the returned value reads as the same tree as the stored child: it is a
  copy of the child, made of new cells down to its leaves. On a ranked heap, given fuel
  above the ranks, \<^verbatim>\<open>get\<close> answers, and for such a key or index it returns the copy.
\<close>

theorem get_returns_fresh_copy:
  "(get fuel h this key = Some (Inr (w, h1)) \<longrightarrow>
      take (length h) h1 = h
      \<and> (\<forall>a. w = JRef a \<longrightarrow> length h \<le> a \<and> a < length h1)
      \<and> (\<forall>a r. length h \<le> a \<and> a < length h1 \<and> JRef r \<in> set (cellVals (h1 ! a))
             \<longrightarrow> length h \<le> r \<and> r < length h1)
      \<and> (\<forall>fuel' key' x h2. setValue fuel' h1 w key' x = Some (Inr h2) \<longrightarrow>
             take (length h) h2 = h)
      \<and> (\<forall>fuel' cs h2. setAll fuel' h1 w cs = Some h2 \<longrightarrow>
             take (length h) h2 = h
             \<and> (\<forall>f v t. treeOf f h v = Some t \<longrightarrow> treeOf f h2 v = Some t)))
   \<and> (stored h this key = Some x \<and> get fuel h this key = Some (Inr (w, h1))
        \<and> treeOf fuel h x = Some t \<longrightarrow> treeOf fuel h1 w = Some t)
   \<and> (ranked rk h \<and> (\<forall>a < length h. rk a < fuel) \<longrightarrow>
        (\<exists>r. get fuel h this key = Some r))
   \<and> (ranked rk h \<and> (\<forall>a < length h. rk a < fuel) \<and> stored h this key = Some x \<longrightarrow>
        (\<exists>w' h' t'. get fuel h this key = Some (Inr (w', h'))
            \<and> treeOf fuel h x = Some t' \<and> treeOf fuel h' w' = Some t'))"
proof (intro conjI)
  show "get fuel h this key = Some (Inr (w, h1)) \<longrightarrow>
      take (length h) h1 = h
      \<and> (\<forall>a. w = JRef a \<longrightarrow> length h \<le> a \<and> a < length h1)
      \<and> (\<forall>a r. length h \<le> a \<and> a < length h1 \<and> JRef r \<in> set (cellVals (h1 ! a))
             \<longrightarrow> length h \<le> r \<and> r < length h1)
      \<and> (\<forall>fuel' key' x h2. setValue fuel' h1 w key' x = Some (Inr h2) \<longrightarrow>
             take (length h) h2 = h)
      \<and> (\<forall>fuel' cs h2. setAll fuel' h1 w cs = Some h2 \<longrightarrow>
             take (length h) h2 = h
             \<and> (\<forall>f v t. treeOf f h v = Some t \<longrightarrow> treeOf f h2 v = Some t))"
    by (rule impI) (rule get_copy)
  show "stored h this key = Some x \<and> get fuel h this key = Some (Inr (w, h1))
        \<and> treeOf fuel h x = Some t \<longrightarrow> treeOf fuel h1 w = Some t"
    using get_same_tree by blast
  show "ranked rk h \<and> (\<forall>a < length h. rk a < fuel) \<longrightarrow>
        (\<exists>r. get fuel h this key = Some r)"
    using get_total by blast
  show "ranked rk h \<and> (\<forall>a < length h. rk a < fuel) \<and> stored h this key = Some x \<longrightarrow>
        (\<exists>w' h' t'. get fuel h this key = Some (Inr (w', h'))
            \<and> treeOf fuel h x = Some t' \<and> treeOf fuel h' w' = Some t')"
    using get_stored_total by blast
qed

theorem get_returns_fresh_copy_witness:
  "get 3 [ArrCell [JNum (1::int), JNum 2], ObjCell [(''c'', JRef 0)], ObjCell [(''a'', JRef 1)]]
       (JRef 2) (KeyStr ''a'')
     = Some (Inr (JRef 4,
         [ArrCell [JNum 1, JNum 2], ObjCell [(''c'', JRef 0)], ObjCell [(''a'', JRef 1)],
          ArrCell [JNum 1, JNum 2], ObjCell [(''c'', JRef 3)]]))
   \<and> stored [ArrCell [JNum (1::int), JNum 2], ObjCell [(''c'', JRef 0)], ObjCell [(''a'', JRef 1)]]
       (JRef 2) (KeyStr ''a'') = Some (JRef 1)
   \<and> treeOf 3 [ArrCell [JNum (1::int), JNum 2], ObjCell [(''c'', JRef 0)], ObjCell [(''a'', JRef 1)]]
       (JRef 1) = Some (VObj [(''c'', VArr [VNum 1, VNum 2])])
   \<and> treeOf 3 [ArrCell [JNum (1::int), JNum 2], ObjCell [(''c'', JRef 0)], ObjCell [(''a'', JRef 1)],
          ArrCell [JNum 1, JNum 2], ObjCell [(''c'', JRef 3)]]
       (JRef 4) = Some (VObj [(''c'', VArr [VNum 1, VNum 2])])
   \<and> setAll 1 [ArrCell [JNum (1::int), JNum 2], ObjCell [(''c'', JRef 0)], ObjCell [(''a'', JRef 1)],
          ArrCell [JNum 1, JNum 2], ObjCell [(''c'', JRef 3)]]
        (JRef 4) [(KeyStr ''c'', JNum 5), (KeyStr ''d'', JStr ''new'')]
     = Some [ArrCell [JNum 1, JNum 2], ObjCell [(''c'', JRef 0)], ObjCell [(''a'', JRef 1)],
          ArrCell [JNum 1, JNum 2], ObjCell [(''c'', JNum 5), (''d'', JStr ''new'')]]
   \<and> treeOf 3 [ArrCell [JNum (1::int), JNum 2], ObjCell [(''c'', JRef 0)], ObjCell [(''a'', JRef 1)]]
       (JRef 2) = Some (VObj [(''a'', VObj [(''c'', VArr [VNum 1, VNum 2])])])
   \<and> treeOf 3 [ArrCell [JNum (1::int), JNum 2], ObjCell [(''c'', JRef 0)], ObjCell [(''a'', JRef 1)],
          ArrCell [JNum 1, JNum 2], ObjCell [(''c'', JNum 5), (''d'', JStr ''new'')]]
       (JRef 2) = Some (VObj [(''a'', VObj [(''c'', VArr [VNum 1, VNum 2])])])
   \<and> ranked (\<lambda>a. a)
       [ArrCell [JNum (1::int), JNum 2], ObjCell [(''c'', JRef 0)], ObjCell [(''a'', JRef 1)]]"
proof -
  let ?h = "[ArrCell [JNum (1::int), JNum 2], ObjCell [(''c'', JRef 0)], ObjCell [(''a'', JRef 1)]]"
  let ?h1 = "[ArrCell [JNum (1::int), JNum 2], ObjCell [(''c'', JRef 0)], ObjCell [(''a'', JRef 1)],
          ArrCell [JNum 1, JNum 2], ObjCell [(''c'', JRef 3)]]"
  let ?h2 = "[ArrCell [JNum (1::int), JNum 2], ObjCell [(''c'', JRef 0)], ObjCell [(''a'', JRef 1)],
          ArrCell [JNum 1, JNum 2], ObjCell [(''c'', JNum 5), (''d'', JStr ''new'')]]"
  let ?t = "VObj [(''c'', VArr [VNum (1::int), VNum 2])]"
  have s: "stored ?h (JRef 2) (KeyStr ''a'') = Some (JRef 1)" by code_simp
  have tx: "treeOf 3 ?h (JRef 1) = Some ?t" by code_simp
  have tv: "treeOf 3 ?h (JRef 2) = Some (VObj [(''a'', ?t)])" by code_simp
  have sa: "setAll 1 ?h1 (JRef 4) [(KeyStr ''c'', JNum 5), (KeyStr ''d'', JStr ''new'')] = Some ?h2"
    by code_simp
  have rk: "ranked (\<lambda>a. a) ?h"
    by (auto simp: ranked_def rankedBelow_def less_Suc_eq numeral_3_eq_3)
  have fu: "\<forall>a < length ?h. (\<lambda>a. a) a < (3::nat)" by simp
  note T = get_returns_fresh_copy
    [of 3 ?h "JRef 2" "KeyStr ''a''" "JRef 4" ?h1 "JRef 1" ?t "\<lambda>a. a"]
  from T [THEN conjunct2, THEN conjunct2, THEN conjunct2, rule_format] rk fu s
  obtain w' h' t' where g': "get 3 ?h (JRef 2) (KeyStr ''a'') = Some (Inr (w', h'))" by blast
  have "get 3 ?h (JRef 2) (KeyStr ''a'') = Some (Inr (JRef 4, ?h1))" by code_simp
  with g' have g: "get 3 ?h (JRef 2) (KeyStr ''a'') = Some (Inr (JRef 4, ?h1))" by simp
  from T [THEN conjunct2, THEN conjunct1, rule_format] s g tx
  have tw: "treeOf 3 ?h1 (JRef 4) = Some ?t" by blast
  from T [THEN conjunct1, rule_format, OF g]
  have "\<forall>fuel' cs h2. setAll fuel' ?h1 (JRef 4) cs = Some h2 \<longrightarrow>
             take (length ?h) h2 = ?h
             \<and> (\<forall>f v t. treeOf f ?h v = Some t \<longrightarrow> treeOf f h2 v = Some t)" by blast
  with sa have "\<forall>f v t. treeOf f ?h v = Some t \<longrightarrow> treeOf f ?h2 v = Some t" by blast
  with tv have tv2: "treeOf 3 ?h2 (JRef 2) = Some (VObj [(''a'', ?t)])" by blast
  from g s tx tw sa tv tv2 rk show ?thesis by blast
qed

section \<open>The default for a stored null\<close>



section \<open>Round trip\<close>

subsection \<open>The literal form\<close>

lemma atomicD:
  "atomic t \<Longrightarrow> 0 \<le> d \<Longrightarrow> 0 \<le> bd \<Longrightarrow>
     scanLoop vals cur False d bd (t @ rest) = scanLoop vals (cur @ t) False d bd rest"
  unfolding atomic_def by blast

lemma atomic_Nil: "atomic []"
  unfolding atomic_def by simp

lemma atomic_append: "atomic s \<Longrightarrow> atomic t \<Longrightarrow> atomic (s @ t)"
  unfolding atomic_def by simp

lemma atomic_plain_char: "\<not> specialChar c \<Longrightarrow> atomic [c]"
  unfolding atomic_def specialChar_def by simp

lemma atomic_plain: "list_all (\<lambda>c. \<not> specialChar c) t \<Longrightarrow> atomic t"
proof (induction t)
  case Nil
  show ?case by (rule atomic_Nil)
next
  case (Cons c t)
  then have "atomic [c]" "atomic t" by (simp_all add: atomic_plain_char)
  from atomic_append [OF this] show ?case by simp
qed

lemma atomic_escapeChar: "atomic (escapeChar c)"
  unfolding atomic_def escapeChar_def by simp

lemma atomic_escape: "atomic (escape s)"
  by (induction s) (simp_all add: atomic_Nil atomic_append atomic_escapeChar)

lemma scan_inner:
  assumes "0 \<le> d" "0 \<le> bd" "d \<noteq> 0 \<or> bd \<noteq> 0"
  shows "\<forall>p \<in> set ps. atomic p \<Longrightarrow>
         scanLoop vals cur False d bd (joinWith '','' ps @ rest)
           = scanLoop vals (cur @ joinWith '','' ps) False d bd rest"
proof (induction ps arbitrary: cur)
  case Nil
  show ?case by simp
next
  case (Cons x ps)
  from Cons.prems have x: "atomic x" and r: "\<forall>p \<in> set ps. atomic p" by simp_all
  show ?case
  proof (cases ps)
    case Nil
    then show ?thesis using atomicD [OF x assms(1,2)] by simp
  next
    case (Cons y ys)
    have "scanLoop vals cur False d bd (joinWith '','' (x # ps) @ rest)
        = scanLoop vals (cur @ x) False d bd (CHR '','' # joinWith '','' ps @ rest)"
      using atomicD [OF x assms(1,2)] Cons by simp
    also have "\<dots> = scanLoop vals (cur @ x @ '','') False d bd (joinWith '','' ps @ rest)"
      using assms(3) by auto
    also have "\<dots> = scanLoop vals ((cur @ x @ '','') @ joinWith '','' ps) False d bd rest"
      by (rule Cons.IH [OF r])
    finally show ?thesis using Cons by simp
  qed
qed

lemma atomic_bracket:
  assumes "\<forall>p \<in> set ps. atomic p"
  shows "atomic (''['' @ joinWith '','' ps @ '']'')"
  unfolding atomic_def
proof (intro allI impI)
  fix vals cur d bd rest
  assume d: "(0::int) \<le> d" and bd: "(0::int) \<le> bd"
  then have "scanLoop vals (cur @ ''['') False d (bd + 1) (joinWith '','' ps @ CHR '']'' # rest)
       = scanLoop vals ((cur @ ''['') @ joinWith '','' ps) False d (bd + 1) (CHR '']'' # rest)"
    using assms by (intro scan_inner) simp_all
  then show "scanLoop vals cur False d bd ((''['' @ joinWith '','' ps @ '']'') @ rest)
       = scanLoop vals (cur @ ''['' @ joinWith '','' ps @ '']'') False d bd rest"
    by simp
qed

lemma atomic_paren:
  assumes "\<forall>p \<in> set ps. atomic p"
  shows "atomic (''('' @ joinWith '','' ps @ '')'')"
  unfolding atomic_def
proof (intro allI impI)
  fix vals cur d bd rest
  assume d: "(0::int) \<le> d" and bd: "(0::int) \<le> bd"
  then have "scanLoop vals (cur @ ''('') False (d + 1) bd (joinWith '','' ps @ CHR '')'' # rest)
       = scanLoop vals ((cur @ ''('') @ joinWith '','' ps) False (d + 1) bd (CHR '')'' # rest)"
    using assms by (intro scan_inner) simp_all
  then show "scanLoop vals cur False d bd ((''('' @ joinWith '','' ps @ '')'') @ rest)
       = scanLoop vals (cur @ ''('' @ joinWith '','' ps @ '')'') False d bd rest"
    by simp
qed

lemma scan_split:
  "\<forall>p \<in> set ps. atomic p \<Longrightarrow> ps \<noteq> [] \<Longrightarrow>
     scanLoop vals cur False 0 0 (joinWith '','' ps)
           = (vals @ butlast ((cur @ hd ps) # tl ps), last ((cur @ hd ps) # tl ps))"
proof (induction ps arbitrary: vals cur)
  case Nil
  then show ?case by simp
next
  case (Cons x ps)
  from Cons.prems have x: "atomic x" and r: "\<forall>p \<in> set ps. atomic p" by simp_all
  show ?case
  proof (cases ps)
    case Nil
    from atomicD [OF x, of 0 0 vals cur "[]"] Nil show ?thesis by simp
  next
    case (Cons y ys)
    then have ne: "ps \<noteq> []" by simp
    have "scanLoop vals cur False 0 0 (joinWith '','' (x # ps))
        = scanLoop vals (cur @ x) False 0 0 (CHR '','' # joinWith '','' ps)"
      using atomicD [OF x, of 0 0 vals cur] Cons by simp
    also have "\<dots> = scanLoop (vals @ [cur @ x]) [] False 0 0 (joinWith '','' ps)"
      by simp
    also have "\<dots> = ((vals @ [cur @ x]) @ butlast (([] @ hd ps) # tl ps),
                      last (([] @ hd ps) # tl ps))"
      by (rule Cons.IH [OF r ne])
    finally show ?thesis using Cons by simp
  qed
qed

lemma scan_split_top:
  assumes "\<forall>p \<in> set ps. atomic p" "ps \<noteq> []"
  shows "scanLoop [] [] False 0 0 (joinWith '','' ps) = (butlast ps, last ps)"
  using scan_split [OF assms, of "[]" "[]"] assms(2) by simp

lemma generateValues_map:
  "generateValues numStr xs inl = map (\<lambda>v. generateValue numStr v inl) xs"
  by (induction xs) simp_all

lemma generatePairs_map:
  "generatePairs numStr es = map (\<lambda>e. fst e @ '':'' @ generateValue numStr (snd e) True) es"
  by (induction es) simp_all

lemma generateValue_inline: "generateValue numStr v inl = generateValue numStr v True"
  by (cases v) simp_all

lemma startsWith_Cons [simp]: "startsWith (c # t) [d] \<longleftrightarrow> c = d"
  by (simp add: startsWith_def)

lemma startsWith_Nil [simp]: "\<not> startsWith [] [d]"
  by (simp add: startsWith_def)

lemma endsWith_snoc [simp]: "endsWith (t @ [c]) [d] \<longleftrightarrow> c = d"
  by (simp add: endsWith_def)

lemma endsWith_Nil [simp]: "\<not> endsWith [] [d]"
  by (simp add: endsWith_def)

lemma endsWith_last: "t \<noteq> [] \<Longrightarrow> endsWith t [d] \<longleftrightarrow> last t = d"
  by (cases t rule: rev_cases) simp_all

lemma startsWith_hd: "t \<noteq> [] \<Longrightarrow> startsWith t [d] \<longleftrightarrow> hd t = d"
  by (cases t) simp_all

lemma parseValue_bracket:
  assumes "body \<noteq> []"
  shows "parseValue toNum (''['' @ body @ '']'') = parseArray toNum body"
proof -
  let ?t = "''['' @ body @ '']''"
  have tr: "trim ?t = ?t" by (intro trim_id) (simp add: isSpace_def)
  have e: "endsWith ?t '']''" using endsWith_snoc [of "''['' @ body" "CHR '']''" "CHR '']''"] by simp
  have sub: "substring 1 (length ?t - 1) ?t = body" by (simp add: substring_def)
  from assms have ne: "?t \<noteq> ''[]''" by simp
  show ?thesis
    by (subst parseValue.simps) (simp only: Let_def tr e sub ne, simp)
qed

lemma parseValue_paren:
  assumes "body \<noteq> []"
  shows "parseValue toNum (''('' @ body @ '')'') = parseInlineObject toNum body"
proof -
  let ?t = "''('' @ body @ '')''"
  have tr: "trim ?t = ?t" by (intro trim_id) (simp add: isSpace_def)
  have e: "endsWith ?t '')''" using endsWith_snoc [of "''('' @ body" "CHR '')''" "CHR '')''"] by simp
  have sub: "substring 1 (length ?t - 1) ?t = body" by (simp add: substring_def)
  from assms have ne: "?t \<noteq> ''()''" by simp
  show ?thesis
    by (subst parseValue.simps) (simp only: Let_def tr e sub ne, simp)
qed

lemma parseValue_scalar:
  assumes "trim t = t" "t \<noteq> []" "hd t \<noteq> CHR ''[''" "hd t \<noteq> CHR ''(''"
  shows "parseValue toNum t =
           (case toNum (unescape t) of
              Some num \<Rightarrow> VNum num
            | None \<Rightarrow> if unescape t = ''true'' then VBool True
                      else if unescape t = ''false'' then VBool False
                      else VStr (unescape t))"
proof -
  from assms have "\<not> startsWith t ''[''" "\<not> startsWith t ''(''" "t \<noteq> ''[]''" "t \<noteq> ''()''"
    by (auto simp: startsWith_hd)
  with assms(1,2) show ?thesis
    by (subst parseValue.simps) (simp add: Let_def)
qed

lemma parseValue_trim: "parseValue toNum (trim t) = parseValue toNum t"
  by (simp add: parseValue.simps [of toNum t] parseValue.simps [of toNum "trim t"] trim_trim)

lemma unescapeLoop_escape: "unescapeLoop False (escape s) = s"
  by (induction s) (simp_all add: unescapeLoop_escapeChar)

lemma unescapeLoop_plain: "BSL \<notin> set t \<Longrightarrow> unescapeLoop False t = t"
  by (induction t) auto

lemma LF_notin_escape: "LF \<notin> set (escape s)"
  by (induction s) (auto simp: escapeChar_def)

lemma hd_escape: "s \<noteq> [] \<Longrightarrow> hd (escape s) \<noteq> CHR ''['' \<and> hd (escape s) \<noteq> CHR ''(''"
  by (cases s) (auto simp: escapeChar_def)

lemma escape_nonempty: "s \<noteq> [] \<Longrightarrow> escape s \<noteq> []"
  by (cases s) (auto simp: escapeChar_def)

lemma set_joinWith: "set (joinWith sep ps) \<subseteq> set sep \<union> (\<Union>p \<in> set ps. set p)"
  by (induction sep ps rule: joinWith.induct) auto

lemma joinWith_last: "ps \<noteq> [] \<Longrightarrow> \<exists>pre. joinWith sep ps = pre @ last ps"
proof (induction sep ps rule: joinWith.induct)
  case (1 sep)
  then show ?case by simp
next
  case (2 sep x)
  show ?case by simp
next
  case (3 sep x y ys)
  then obtain pre where "joinWith sep (y # ys) = pre @ last (y # ys)" by auto
  then have "joinWith sep (x # y # ys) = (x @ sep @ pre) @ last (x # y # ys)" by simp
  then show ?case by blast
qed

lemma indexOf_append:
  "c \<notin> set k \<Longrightarrow> indexOf (k @ c # g) c = Some (length k)"
  by (induction k) auto

lemma textOK_VNull: "textOK toNum numStr VNull"
proof -
  have "trim [] = []" by (simp add: trim_def trimStart_def trimEnd_def)
  then have "parseValue toNum [] = VNull" by (subst parseValue.simps) simp
  with \<open>trim [] = []\<close> show ?thesis by (simp add: textOK_def atomic_Nil)
qed

lemma textOK_VBool:
  assumes "toNum (if b then ''true'' else ''false'') = None"
  shows "textOK toNum numStr (VBool b)"
proof -
  let ?t = "if b then ''true'' else ''false''"
  have a: "atomic ?t" by (intro atomic_plain) (simp add: specialChar_def)
  have tr: "trim ?t = ?t" by (intro trim_id) (simp add: isSpace_def)
  have u: "unescape ?t = ?t" unfolding unescape_def by (intro unescapeLoop_plain) simp
  have "parseValue toNum ?t = VBool b"
    using assms u by (subst parseValue_scalar [OF tr]) auto
  with a tr show ?thesis by (simp add: textOK_def)
qed

lemma textOK_VNum:
  assumes "numOK toNum numStr n"
  shows "textOK toNum numStr (VNum n)"
proof -
  let ?t = "numStr n"
  from assms have ne: "?t \<noteq> []" and pl: "list_all (\<lambda>c. \<not> specialChar c \<and> \<not> isSpace c) ?t"
    and tn: "toNum ?t = Some n" by (simp_all add: numOK_def)
  from pl have a: "atomic ?t" by (intro atomic_plain) (simp add: list_all_iff)
  from pl ne have h: "\<not> specialChar (hd ?t) \<and> \<not> isSpace (hd ?t)" "\<not> isSpace (last ?t)"
    by (simp_all add: list_all_iff)
  then have tr: "trim ?t = ?t" by (intro trim_id) simp
  from pl have "BSL \<notin> set ?t" "LF \<notin> set ?t"
    by (auto simp: list_all_iff specialChar_def isSpace_def)
  then have u: "unescape ?t = ?t" and lf: "LF \<notin> set ?t"
    unfolding unescape_def by (simp_all add: unescapeLoop_plain)
  from h(1) have "hd ?t \<noteq> CHR ''[''" "hd ?t \<noteq> CHR ''(''" by (auto simp: specialChar_def)
  from parseValue_scalar [OF tr ne this, where toNum = toNum] u tn have "parseValue toNum ?t = VNum n" by simp
  with a tr lf ne show ?thesis by (simp add: textOK_def)
qed

lemma textOK_VStr:
  assumes "strOK toNum s"
  shows "textOK toNum numStr (VStr s)"
proof -
  let ?t = "escape s"
  from assms have ne: "s \<noteq> []" and tr: "trim ?t = ?t" and tn: "toNum s = None"
    and nb: "s \<noteq> ''true''" "s \<noteq> ''false''" by (simp_all add: strOK_def)
  have u: "unescape ?t = s" unfolding unescape_def by (rule unescapeLoop_escape)
  from hd_escape [OF ne] have "hd ?t \<noteq> CHR ''[''" "hd ?t \<noteq> CHR ''(''" by simp_all
  from parseValue_scalar [OF tr escape_nonempty [OF ne] this, where toNum = toNum] u tn nb
  have "parseValue toNum ?t = VStr s" by simp
  with tr escape_nonempty [OF ne] show ?thesis
    by (simp add: textOK_def atomic_escape LF_notin_escape)
qed

lemma textOK_VArr:
  assumes all: "list_all (textOK toNum numStr) xs" and lst: "xs = [] \<or> last xs \<noteq> VNull"
  shows "textOK toNum numStr (VArr xs)"
proof (cases "xs = []")
  case True
  have a: "atomic ''[]''"
    using atomic_bracket [of "[]"] by simp
  have tr: "trim ''[]'' = ''[]''" by (intro trim_id) (simp add: isSpace_def)
  have "parseValue toNum ''[]'' = VArr []"
    by (subst parseValue.simps) (simp add: tr)
  with True a tr show ?thesis by (simp add: textOK_def)
next
  case False
  let ?gen = "\<lambda>v. generateValue numStr v True"
  let ?gens = "map ?gen xs"
  let ?body = "joinWith '','' ?gens"
  let ?t = "''['' @ ?body @ '']''"
  have t: "generateValue numStr (VArr xs) True = ?t"
    using False by (simp add: generateValues_map)
  from all have ok: "\<And>x. x \<in> set xs \<Longrightarrow> textOK toNum numStr x"
    by (simp add: list_all_iff)
  have at: "\<forall>p \<in> set ?gens. atomic p" using ok by (auto simp: textOK_def)
  have gne: "?gens \<noteq> []" using False by simp
  from False lst have "last xs \<in> set xs" "last xs \<noteq> VNull" by simp_all
  with ok [of "last xs"] have lg: "?gen (last xs) \<noteq> []" "trim (?gen (last xs)) = ?gen (last xs)"
    by (auto simp: textOK_def)
  have lastg: "last ?gens = ?gen (last xs)" using False by (simp add: last_map)
  from joinWith_last [OF gne, of "'',''"] obtain pre where pre: "?body = pre @ last ?gens" by blast
  with lg lastg have bne: "?body \<noteq> []" by simp
  from trim_idD(2) [OF lg(2) lg(1)] have "\<not> isSpace (last (last ?gens))" using lastg by simp
  moreover have "last (last ?gens) \<in> set ?body" using pre lg lastg by simp
  ultimately have tb: "trim ?body \<noteq> []" by (rule trim_nonempty [rotated])
  have pieces: "arrayPieces ?body = ?gens"
  proof -
    from scan_split_top [OF at gne] lg lastg
    have "arrayPieces ?body = butlast ?gens @ [last ?gens]"
      by (simp add: arrayPieces_def Let_def)
    with gne show ?thesis by simp
  qed
  have "map (parseValue toNum) ?gens = xs"
    using ok by (intro nth_equalityI) (auto simp: textOK_def)
  with tb pieces have pa: "parseArray toNum ?body = VArr xs"
    by (simp add: parseArray.simps)
  have 1: "atomic ?t" by (rule atomic_bracket [OF at])
  have 2: "trim ?t = ?t" by (intro trim_id) (simp add: isSpace_def)
  have 3: "LF \<notin> set ?t"
  proof -
    have "LF \<notin> set ?body"
      using set_joinWith [of "'',''" ?gens] ok by (auto simp: textOK_def)
    then show ?thesis by simp
  qed
  from parseValue_bracket [OF bne, where toNum = toNum] pa have 4: "parseValue toNum ?t = VArr xs" by simp
  from 1 2 3 4 show ?thesis unfolding textOK_def t by simp
qed

lemma pair_parts:
  assumes k: "keyOK k" and g: "trim g = g"
  shows "trim (k @ '':'' @ g) = k @ '':'' @ g"
    and "pairEntries [k @ '':'' @ g] = [(k, g)]"
proof -
  let ?p = "k @ '':'' @ g"
  from k have tk: "trim k = k" and nc: "CHR '':'' \<notin> set k"
    by (auto simp: keyOK_def list_all_iff)
  have h: "\<not> isSpace (hd ?p)"
  proof (cases "k = []")
    case True
    then show ?thesis by (simp add: isSpace_def)
  next
    case False
    with trim_idD(1) [OF tk] show ?thesis by simp
  qed
  have l: "\<not> isSpace (last ?p)"
  proof (cases "g = []")
    case True
    then show ?thesis by (simp add: isSpace_def)
  next
    case False
    with trim_idD(2) [OF g] show ?thesis by simp
  qed
  from h l show "trim ?p = ?p" by (intro trim_id) simp
  from indexOf_append [OF nc, of g] tk g
  show "pairEntries [?p] = [(k, g)]" by simp
qed

lemma pairEntries_Cons:
  assumes k: "keyOK k" and g: "trim g = g"
  shows "pairEntries ((k @ '':'' @ g) # ps) = (k, g) # pairEntries ps"
proof -
  from k have tk: "trim k = k" and nc: "CHR '':'' \<notin> set k"
    by (auto simp: keyOK_def list_all_iff)
  from indexOf_append [OF nc, of g] tk g show ?thesis by simp
qed

lemma pairEntries_map:
  assumes "\<forall>e \<in> set es. keyOK (fst e) \<and> trim (f (snd e)) = f (snd e)"
  shows "pairEntries (map (\<lambda>e. fst e @ '':'' @ f (snd e)) es) = map (\<lambda>e. (fst e, f (snd e))) es"
  using assms
proof (induction es)
  case Nil
  show ?case by simp
next
  case (Cons e es)
  from Cons.prems have e: "keyOK (fst e)" "trim (f (snd e)) = f (snd e)"
    and r: "\<forall>e \<in> set es. keyOK (fst e) \<and> trim (f (snd e)) = f (snd e)" by simp_all
  from pairEntries_Cons [OF e] Cons.IH [OF r] show ?case by simp
qed

lemma textOK_VObj:
  assumes all: "list_all (\<lambda>e. keyOK (fst e) \<and> textOK toNum numStr (snd e)) kvs"
    and dist: "distinct (map fst kvs)"
  shows "textOK toNum numStr (VObj kvs)"
proof (cases "kvs = []")
  case True
  have a: "atomic ''()''"
    using atomic_paren [of "[]"] by simp
  have tr: "trim ''()'' = ''()''" by (intro trim_id) (simp add: isSpace_def)
  have "parseValue toNum ''()'' = VObj []"
    by (subst parseValue.simps) (simp add: tr)
  with True a tr show ?thesis by (simp add: textOK_def objectKeys_def)
next
  case False
  let ?gen = "\<lambda>v. generateValue numStr v True"
  let ?pair = "\<lambda>e. fst e @ '':'' @ ?gen (snd e)"
  let ?pairs = "map ?pair kvs"
  let ?body = "joinWith '','' ?pairs"
  let ?t = "''('' @ ?body @ '')''"
  have t: "generateValue numStr (VObj kvs) True = ?t"
    using False by (simp add: generatePairs_map objectKeys_def)
  from all have ok: "\<And>e. e \<in> set kvs \<Longrightarrow> keyOK (fst e) \<and> textOK toNum numStr (snd e)"
    by (simp add: list_all_iff)
  have at: "\<forall>p \<in> set ?pairs. atomic p"
  proof
    fix p assume "p \<in> set ?pairs"
    then obtain e where e: "e \<in> set kvs" "p = ?pair e" by auto
    from ok [OF e(1)] have "atomic (fst e)"
      by (intro atomic_plain) (simp add: keyOK_def list_all_iff)
    moreover have "atomic '':''" by (intro atomic_plain) (simp add: specialChar_def)
    moreover from ok [OF e(1)] have "atomic (?gen (snd e))" by (simp add: textOK_def)
    ultimately show "atomic p" unfolding e(2) by (intro atomic_append)
  qed
  have pne: "?pairs \<noteq> []" using False by simp
  have stable: "\<forall>p \<in> set ?pairs. trim p = p \<and> p \<noteq> []"
  proof
    fix p assume "p \<in> set ?pairs"
    then obtain e where e: "e \<in> set kvs" "p = ?pair e" by auto
    from ok [OF e(1)] have "trim (?pair e) = ?pair e"
      by (intro pair_parts(1)) (simp_all add: textOK_def)
    with e(2) show "trim p = p \<and> p \<noteq> []" by simp
  qed
  from pne stable have lp: "trim (last ?pairs) = last ?pairs" "last ?pairs \<noteq> []"
    using last_in_set [OF pne] by blast+
  from joinWith_last [OF pne, of "'',''"] obtain pre where pre: "?body = pre @ last ?pairs" by blast
  with lp have bne: "?body \<noteq> []" by simp
  from trim_idD(2) [OF lp] have "\<not> isSpace (last (last ?pairs))" .
  moreover have "last (last ?pairs) \<in> set ?body" using pre lp by simp
  ultimately have tb: "trim ?body \<noteq> []" by (rule trim_nonempty [rotated])
  have sp: "splitPairs ?body = ?pairs"
  proof -
    from scan_split_top [OF at pne] lp
    have "splitPairs ?body = butlast ?pairs @ [last ?pairs]"
      by (simp add: splitPairs_def Let_def)
    with pne show ?thesis by simp
  qed
  have pe: "pairEntries ?pairs = map (\<lambda>e. (fst e, ?gen (snd e))) kvs"
    using ok by (intro pairEntries_map) (simp add: textOK_def)
  have "map (\<lambda>e. (fst e, parseValue toNum (snd e))) (map (\<lambda>e. (fst e, ?gen (snd e))) kvs) = kvs"
    using ok by (intro nth_equalityI) (auto simp: textOK_def prod_eq_iff)
  moreover have "''__proto__'' \<notin> set (map fst kvs)" using ok by (fastforce simp: keyOK_def)
  with dist have "assignAll [] kvs = kvs" using assignAll_distinct [of "[]" kvs] by simp
  ultimately have po: "parseInlineObject toNum ?body = VObj kvs"
    using tb sp pe by (simp add: parseInlineObject.simps)
  have 1: "atomic ?t" by (rule atomic_paren [OF at])
  have 2: "trim ?t = ?t" by (intro trim_id) (simp add: isSpace_def)
  have 3: "LF \<notin> set ?t"
  proof -
    have "LF \<notin> set p" if "p \<in> set ?pairs" for p
    proof -
      from that obtain e where e: "e \<in> set kvs" "p = ?pair e" by auto
      from ok [OF e(1)] show ?thesis unfolding e(2)
        by (auto simp: textOK_def keyOK_def list_all_iff)
    qed
    then have nolf: "\<forall>p \<in> set ?pairs. LF \<notin> set p" by blast
    have "LF \<notin> set ?body"
    proof
      assume "LF \<in> set ?body"
      with set_joinWith [of "'',''" ?pairs]
      have "LF \<in> set '','' \<or> (\<exists>p \<in> set ?pairs. LF \<in> set p)" by blast
      with nolf show False by simp
    qed
    then show ?thesis by simp
  qed
  from parseValue_paren [OF bne, where toNum = toNum] po
  have 4: "parseValue toNum ?t = VObj kvs" by simp
  from 1 2 3 4 show ?thesis unfolding textOK_def t by simp
qed

lemma literalSafe_textOK:
  "literalSafe toNum numStr v \<Longrightarrow> textOK toNum numStr v"
  "literalSafeList toNum numStr xs \<Longrightarrow> list_all (textOK toNum numStr) xs"
  "literalSafeEntries toNum numStr es \<Longrightarrow>
     list_all (\<lambda>e. keyOK (fst e) \<and> textOK toNum numStr (snd e)) es"
proof (induction toNum numStr v and toNum numStr xs and toNum numStr es
       rule: literalSafe_literalSafeList_literalSafeEntries.induct)
  case (1 toNum numStr)
  show ?case by (rule textOK_VNull)
next
  case (2 toNum numStr b)
  then show ?case by (intro textOK_VBool) simp
next
  case (3 toNum numStr n)
  then show ?case by (intro textOK_VNum) simp
next
  case (4 toNum numStr s)
  then show ?case by (intro textOK_VStr) simp
next
  case (5 toNum numStr xs)
  then show ?case by (intro textOK_VArr) simp_all
next
  case (6 toNum numStr kvs)
  then show ?case by (intro textOK_VObj) simp_all
next
  case (7 toNum numStr)
  show ?case by simp
next
  case (8 toNum numStr x xs)
  then show ?case by simp
next
  case (9 toNum numStr)
  show ?case by simp
next
  case (10 toNum numStr e es)
  then show ?case by simp
qed

lemma splitOn_none: "c \<notin> set a \<Longrightarrow> splitOn c a = [a]"
  by (induction a) auto

lemma splitOn_append: "c \<notin> set a \<Longrightarrow> splitOn c (a @ c # b) = a # splitOn c b"
  by (induction a) auto

lemma header_line_of_key:
  assumes "sectionKeyOK k"
  shows "trim (k @ '':'') = k @ '':''"
    and "\<not> startsWith (k @ '':'') ''#''"
    and "includesChar (k @ '':'') CHR '':''"
    and "parseHeader (k @ '':'') n = Inr (Some k, [])"
proof -
  from assms have tk: "trim k = k" and nc: "CHR '':'' \<notin> set k" and ne: "k \<noteq> []"
    and nh: "\<not> startsWith k ''#''"
    by (auto simp: sectionKeyOK_def keyOK_def list_all_iff)
  from trim_idD(1) [OF tk ne] ne show "trim (k @ '':'') = k @ '':''"
    by (intro trim_id) (simp add: isSpace_def)
  from nh ne show "\<not> startsWith (k @ '':'') ''#''" by (cases k) simp_all
  show "includesChar (k @ '':'') CHR '':''" by (simp add: includesChar_def)
  from nc ne have ns: "\<not> startsWith (k @ '':'') '':''" by (cases k) auto
  have "trim [] = []" by (simp add: trim_def trimStart_def trimEnd_def)
  with ns indexOf_append [OF nc, of "[]"] tk
  show "parseHeader (k @ '':'') n = Inr (Some k, [])"
    by (simp add: parseHeader_def dropEndColon_def)
qed

lemma round_trip_value:
  assumes "literalSafe toNum numStr v"
  shows "parseValue toNum (generateValue numStr v inl) = v"
  using literalSafe_textOK(1) [OF assms] generateValue_inline [of numStr v inl]
  by (simp add: textOK_def)

subsection \<open>Headers of tables\<close>

lemma balancedD:
  "balanced t \<Longrightarrow> 0 < d \<Longrightarrow>
     collectNested d (t @ rest) = (case collectNested d rest of (n, r) \<Rightarrow> (t @ n, r))"
  unfolding balanced_def by blast

lemma balanced_Nil: "balanced []"
  unfolding balanced_def by (simp split: prod.splits)

lemma balanced_char: "c \<noteq> CHR ''('' \<Longrightarrow> c \<noteq> CHR '')'' \<Longrightarrow> balanced [c]"
  unfolding balanced_def by (simp split: prod.splits)

lemma balanced_append:
  assumes "balanced s" "balanced t"
  shows "balanced (s @ t)"
  unfolding balanced_def
proof (intro allI impI)
  fix d :: nat and rest
  assume d: "0 < d"
  from balancedD [OF assms(1) d, of "t @ rest"] balancedD [OF assms(2) d, of rest]
  show "collectNested d ((s @ t) @ rest) = (case collectNested d rest of (n, r) \<Rightarrow> ((s @ t) @ n, r))"
    by (simp split: prod.splits)
qed

lemma balanced_plain: "list_all (\<lambda>c. \<not> specialChar c) t \<Longrightarrow> balanced t"
proof (induction t)
  case Nil
  show ?case by (rule balanced_Nil)
next
  case (Cons c t)
  then have "balanced [c]" "balanced t"
    by (auto intro: balanced_char simp: specialChar_def)
  from balanced_append [OF this] show ?case by simp
qed

lemma balanced_paren:
  assumes "balanced t"
  shows "balanced (''('' @ t @ '')'')"
  unfolding balanced_def
proof (intro allI impI)
  fix d :: nat and rest
  assume d: "0 < d"
  have "collectNested (d + 1) (t @ CHR '')'' # rest)
          = (case collectNested (d + 1) (CHR '')'' # rest) of (n, r) \<Rightarrow> (t @ n, r))"
    by (rule balancedD [OF assms]) simp
  with d show "collectNested d ((''('' @ t @ '')'') @ rest)
          = (case collectNested d rest of (n, r) \<Rightarrow> ((''('' @ t @ '')'') @ n, r))"
    by (simp split: prod.splits)
qed

lemma collect_close:
  assumes "balanced t"
  shows "collectNested 1 (t @ CHR '')'' # rest) = (t, rest)"
  using balancedD [OF assms, of 1 "CHR '')'' # rest"] by simp

lemma joinWith_Cons:
  "joinWith sep (x # xs) = (if xs = [] then x else x @ sep @ joinWith sep xs)"
  by (cases xs) simp_all

lemma parseFieldsLoop_plain:
  assumes "list_all (\<lambda>c. \<not> specialChar c) t"
  shows "parseFieldsLoop ln lineNo result current 0 (t @ rest)
           = parseFieldsLoop ln lineNo result (current @ t) 0 rest"
  using assms
proof (induction t arbitrary: current)
  case Nil
  show ?case by simp
next
  case (Cons c t)
  then have c: "c \<noteq> CHR ''(''" "c \<noteq> CHR '')''" "c \<noteq> CHR '',''"
    and t: "list_all (\<lambda>c. \<not> specialChar c) t"
    by (auto simp: specialChar_def)
  from c Cons.IH [OF t, of "current @ [c]"] show ?case by simp
qed

lemma parse_after_field:
  assumes rest: "\<And>result. parseFieldsLoop ln n result [] 0 (joinWith '','' ps) = Inr (result @ fs)"
    and f: "field = [] \<or> (trim field = field \<and> list_all (\<lambda>c. \<not> specialChar c) field)"
  shows "parseFieldsLoop ln n result field 0 (if ps = [] then [] else '','' @ joinWith '','' ps)
           = Inr ((if field = [] then result else result @ [Field field []]) @ fs)"
proof (cases "ps = []")
  case True
  from rest [of "[]"] True have fs: "fs = []"
    by (simp add: trim_def trimStart_def trimEnd_def)
  from f have "trim field = field"
    by (auto simp: trim_def trimStart_def trimEnd_def)
  with True fs show ?thesis by (simp add: Let_def)
next
  case False
  from f have "trim field = field"
    by (auto simp: trim_def trimStart_def trimEnd_def)
  with False rest show ?thesis by (simp add: Let_def)
qed

lemma fieldsOK_names:
  "fieldsOK fs \<Longrightarrow> f \<in> set fs \<Longrightarrow>
     keyOK (name f) \<and> name f \<noteq> [] \<and> fieldsOK (nestedFields f)"
proof (induction fs)
  case Nil
  then show ?case by simp
next
  case (Cons g fs)
  then show ?case by (cases g) auto
qed

lemma fieldsOK_distinct: "fieldsOK fs \<Longrightarrow> distinct (map name fs)"
proof (induction fs)
  case Nil
  then show ?case by simp
next
  case (Cons g fs)
  then show ?case by (cases g) auto
qed

lemma keyOK_plain: "keyOK k \<Longrightarrow> list_all (\<lambda>c. \<not> specialChar c) k \<and> trim k = k"
  by (auto simp: keyOK_def list_all_iff)

lemma header_parse:
  "fieldsOK (fieldsOf es) \<Longrightarrow>
     balanced (joinWith '','' (headerParts es))
     \<and> (\<forall>ln n result. parseFieldsLoop ln n result [] 0 (joinWith '','' (headerParts es))
                        = Inr (result @ fieldsOf es))"
proof (induction es rule: fieldsOf.induct)
  case 1
  show ?case by (simp add: balanced_Nil trim_def trimStart_def trimEnd_def)
next
  case (2 e es)
  let ?k = "fst e"
  let ?rest = "joinWith '','' (headerParts es)"
  let ?tail = "if headerParts es = [] then [] else '','' @ ?rest"
  from "2.prems" have k: "keyOK ?k" "?k \<noteq> []" and okes: "fieldsOK (fieldsOf es)" by simp_all
  from keyOK_plain [OF k(1)] have pl: "list_all (\<lambda>c. \<not> specialChar c) ?k" and tr: "trim ?k = ?k"
    by simp_all
  from "2.IH"(2) [OF okes] have bal: "balanced ?rest"
    and loop: "\<And>ln n result. parseFieldsLoop ln n result [] 0 ?rest = Inr (result @ fieldsOf es)"
    by simp_all
  have btail: "balanced ?tail"
    using balanced_append [OF balanced_char [of "CHR '',''"] bal] by (simp add: balanced_Nil)
  show ?case
  proof (cases "\<exists>nested. snd e = VObj nested")
    case False
    then have part: "headerParts (e # es) = ?k # headerParts es"
      and fo: "fieldsOf (e # es) = Field ?k [] # fieldsOf es"
      by (cases "snd e"; simp)+
    have tx: "joinWith '','' (headerParts (e # es)) = ?k @ ?tail"
      unfolding part by (simp add: joinWith_Cons)
    have "balanced (?k @ ?tail)" by (rule balanced_append [OF balanced_plain [OF pl] btail])
    moreover have "parseFieldsLoop ln n result [] 0 (?k @ ?tail) = Inr (result @ fieldsOf (e # es))"
      for ln n result
      using parseFieldsLoop_plain [OF pl, of ln n result "[]" ?tail]
        parse_after_field [of ln n "headerParts es" "fieldsOf es" ?k result, OF loop] pl tr k(2) fo
      by simp
    ultimately show ?thesis unfolding tx by blast
  next
    case True
    then obtain nested where v: "snd e = VObj nested" by blast
    let ?inner = "joinWith '','' (headerParts nested)"
    from v have part: "headerParts (e # es) = (?k @ ''('' @ ?inner @ '')'') # headerParts es"
      and fo: "fieldsOf (e # es) = Field ?k (fieldsOf nested) # fieldsOf es"
      by simp_all
    from "2.prems" v have okn: "fieldsOK (fieldsOf nested)" by simp
    from "2.IH"(1) [OF v okn] have baln: "balanced ?inner"
      and loopn: "\<And>ln n result. parseFieldsLoop ln n result [] 0 ?inner = Inr (result @ fieldsOf nested)"
      by simp_all
    have tx: "joinWith '','' (headerParts (e # es)) = ?k @ ''('' @ ?inner @ '')'' @ ?tail"
      unfolding part by (simp add: joinWith_Cons)
    have pf: "parseFields ?inner ln n = Inr (fieldsOf nested)" for ln n
    proof (cases "?inner = []")
      case True
      with loopn [of ln n "[]"] have "fieldsOf nested = []"
        by (simp add: trim_def trimStart_def trimEnd_def)
      with True show ?thesis by (simp add: parseFields.simps)
    next
      case False
      with loopn [of ln n "[]"] show ?thesis by (simp add: parseFields.simps)
    qed
    have "balanced (?k @ ''('' @ ?inner @ '')'' @ ?tail)"
      using balanced_append [OF balanced_plain [OF pl]
              balanced_append [OF balanced_paren [OF baln] btail]] by simp
    moreover have "parseFieldsLoop ln n result [] 0 (?k @ ''('' @ ?inner @ '')'' @ ?tail)
              = Inr (result @ fieldsOf (e # es))" for ln n result
    proof -
      have "parseFieldsLoop ln n result [] 0 (?k @ ''('' @ ?inner @ '')'' @ ?tail)
          = parseFieldsLoop ln n result ?k 0 (CHR ''('' # ?inner @ CHR '')'' # ?tail)"
        using parseFieldsLoop_plain [OF pl, of ln n result "[]" "''('' @ ?inner @ '')'' @ ?tail"]
        by simp
      also have "\<dots> = parseFieldsLoop ln n (result @ [Field ?k (fieldsOf nested)]) [] 0 ?tail"
        using collect_close [OF baln, of ?tail] pf [of ln n] tr by (simp add: Let_def)
      also have "\<dots> = Inr ((result @ [Field ?k (fieldsOf nested)]) @ fieldsOf es)"
        using parse_after_field [of ln n "headerParts es" "fieldsOf es" "[]"
                "result @ [Field ?k (fieldsOf nested)]", OF loop] by simp
      finally show ?thesis using fo by simp
    qed
    ultimately show ?thesis unfolding tx by blast
  qed
qed

lemma header_fields_parse:
  assumes "fieldsOK (fieldsOf es)"
  shows "parseFields (generateHeaderFields es) ln n = Inr (fieldsOf es)"
proof (cases "generateHeaderFields es = []")
  case True
  with header_parse [OF assms, THEN conjunct2, rule_format, of ln n "[]"]
  have "fieldsOf es = []" by (simp add: trim_def trimStart_def trimEnd_def)
  with True show ?thesis by (simp add: parseFields.simps)
next
  case False
  with header_parse [OF assms, THEN conjunct2, rule_format, of ln n "[]"]
  show ?thesis by (simp add: parseFields.simps)
qed

subsection \<open>Cells and rows\<close>

lemma cellText_literal:
  "\<not> isObject v \<Longrightarrow> cellText numStr v = generateValue numStr v True"
  by (cases v) simp_all

lemma nestedFieldValues_map:
  "nestedFieldValues numStr es = map (\<lambda>e. cellText numStr (snd e)) es"
  by (induction es) simp_all

lemma literal_no_paren:
  assumes "literalSafe toNum numStr v" "\<not> isObject v" "generateValue numStr v True \<noteq> []"
  shows "\<not> startsWith (generateValue numStr v True) ''(''"
proof (cases v)
  case VNull
  with assms show ?thesis by simp
next
  case (VBool b)
  then show ?thesis by (cases b) simp_all
next
  case (VNum n)
  with assms have "numStr n \<noteq> []" "list_all (\<lambda>c. \<not> specialChar c \<and> \<not> isSpace c) (numStr n)"
    by (simp_all add: numOK_def)
  then have "hd (numStr n) \<noteq> CHR ''(''" by (cases "numStr n") (auto simp: specialChar_def)
  with VNum assms(3) show ?thesis by (simp add: startsWith_hd)
next
  case (VStr s)
  with assms have "s \<noteq> []" by (simp add: strOK_def)
  from hd_escape [OF this] escape_nonempty [OF this] VStr show ?thesis
    by (simp add: startsWith_hd)
next
  case (VArr xs)
  then show ?thesis by simp
next
  case (VObj es)
  with assms show ?thesis by simp
qed

lemma parseFieldValue_literal:
  assumes ls: "literalSafe toNum numStr v" and no: "\<not> isObject v"
  shows "parseFieldValue toNum (Field nm nested) (generateValue numStr v True) ln n = Inr v"
proof -
  let ?t = "generateValue numStr v True"
  from literalSafe_textOK(1) [OF ls] have tr: "trim ?t = ?t" and pv: "parseValue toNum ?t = v"
    and nul: "v = VNull \<or> ?t \<noteq> []" by (simp_all add: textOK_def)
  show ?thesis
  proof (cases "nested = []")
    case True
    with pv show ?thesis by simp
  next
    case False
    show ?thesis
    proof (cases "?t = []")
      case True
      with nul have "v = VNull" by simp
      with False True tr show ?thesis by simp
    next
      case ne: False
      from literal_no_paren [OF ls no ne] have np: "\<not> startsWith ?t ''(''" .
      then have "?t \<noteq> ''()''" by auto
      with False ne np tr pv show ?thesis by (simp add: Let_def)
    qed
  qed
qed

lemma joinWith_nonempty:
  assumes "ts \<noteq> []" "length ts = 1 \<longrightarrow> hd ts \<noteq> []"
  shows "joinWith '','' ts \<noteq> []"
proof (cases ts)
  case Nil
  with assms show ?thesis by simp
next
  case (Cons t us)
  with assms show ?thesis by (cases us) auto
qed

lemma paren_text:
  "trim (''('' @ b @ '')'') = ''('' @ b @ '')''"
  "startsWith (''('' @ b @ '')'') ''(''"
  "endsWith (''('' @ b @ '')'') '')''"
  "\<not> startsWith (''('' @ b @ '')'') ''[''"
  "substring 1 (length (''('' @ b @ '')'') - 1) (''('' @ b @ '')'') = b"
proof -
  show "trim (''('' @ b @ '')'') = ''('' @ b @ '')''"
    by (intro trim_id) (simp add: isSpace_def)
  show "startsWith (''('' @ b @ '')'') ''(''" by simp
  have "endsWith ((''('' @ b) @ '')'') '')''" by (simp only: endsWith_snoc)
  then show "endsWith (''('' @ b @ '')'') '')''" by simp
  show "\<not> startsWith (''('' @ b @ '')'') ''[''" by simp
  show "substring 1 (length (''('' @ b @ '')'') - 1) (''('' @ b @ '')'') = b"
    by (simp add: substring_def)
qed

lemma parseFieldValue_tuple:
  assumes "nested \<noteq> []" "b \<noteq> []" "parseDataValues b = ts" "length ts = length nested"
    "fieldLoop toNum nested ts ln n [] = Inr obj"
  shows "parseFieldValue toNum (Field nm nested) (''('' @ b @ '')'') ln n = Inr (VObj obj)"
proof -
  define t where "t = ''('' @ b @ '')''"
  have 1: "trim t = t" "startsWith t ''(''" "endsWith t '')''" "\<not> startsWith t ''[''"
    "substring 1 (length t - 1) t = b"
    unfolding t_def by (rule paren_text)+
  from assms(2) have 2: "t \<noteq> []" "t \<noteq> ''()''" unfolding t_def by simp_all
  show ?thesis
    unfolding t_def [symmetric] using assms 1 2 by (simp add: Let_def)
qed

lemma cell_text:
  "cellOK (toNum :: string \<Rightarrow> 'n option) numStr f v \<Longrightarrow> fieldsOK (nestedFields f) \<Longrightarrow>
     atomic (cellText numStr v) \<and> trim (cellText numStr v) = cellText numStr v
     \<and> LF \<notin> set (cellText numStr v) \<and> (cellText numStr v = [] \<longrightarrow> v = VNull)
     \<and> (\<forall>ln n. parseFieldValue toNum f (cellText numStr v) ln n = Inr v)"
  "cellsOK (toNum' :: string \<Rightarrow> 'n option) numStr' fs es \<Longrightarrow> fieldsOK fs \<Longrightarrow>
     map fst es = map name fs
     \<and> (\<forall>e \<in> set es. atomic (cellText numStr' (snd e))
            \<and> trim (cellText numStr' (snd e)) = cellText numStr' (snd e)
            \<and> LF \<notin> set (cellText numStr' (snd e))
            \<and> (cellText numStr' (snd e) = [] \<longrightarrow> snd e = VNull))
     \<and> (\<forall>ln n acc. fieldLoop toNum' fs (map (\<lambda>e. cellText numStr' (snd e)) es) ln n acc
                       = Inr (assignAll acc es))"
proof (induction toNum numStr f v and toNum' numStr' fs es rule: cellOK_cellsOK.induct)
  case (1 toNum numStr nm nested v)
  show ?case
  proof (cases "isObject v")
    case False
    with "1.prems"(1) have ls: "literalSafe toNum numStr v" by (cases v) simp_all
    let ?g = "generateValue numStr v True"
    from literalSafe_textOK(1) [OF ls] have tk: "atomic ?g" "trim ?g = ?g" "LF \<notin> set ?g"
      "v = VNull \<or> ?g \<noteq> []" by (simp_all add: textOK_def)
    note ct = cellText_literal [OF False, of numStr]
    note pf = parseFieldValue_literal [OF ls False, of nm nested]
    show ?thesis unfolding ct using tk pf by (auto simp del: parseFieldValue.simps)
  next
    case True
    then obtain es where v: "v = VObj es" by (cases v) simp_all
    show ?thesis
    proof (cases "es = []")
      case True
      have a: "atomic ''()''" using atomic_paren [of "[]"] by simp
      have tr: "trim ''()'' = ''()''" by (intro trim_id) (simp add: isSpace_def)
      have "parseValue toNum ''()'' = VObj []"
        by (subst parseValue.simps) (simp add: tr)
      with True v a tr show ?thesis by (simp add: objectKeys_def Let_def)
    next
      case False
      let ?ts = "map (\<lambda>e. cellText numStr (snd e)) es"
      let ?b = "joinWith '','' ?ts"
      let ?t = "''('' @ ?b @ '')''"
      from v False "1.prems"(1) have ok: "cellsOK toNum numStr nested es" and nn: "map snd es \<noteq> [VNull]"
        by simp_all
      from "1.prems"(2) have fo: "fieldsOK nested" by simp
      from "1.IH" [OF v ok fo] have names: "map fst es = map name nested"
        and parts: "\<forall>e \<in> set es. atomic (cellText numStr (snd e))
            \<and> trim (cellText numStr (snd e)) = cellText numStr (snd e)
            \<and> LF \<notin> set (cellText numStr (snd e))
            \<and> (cellText numStr (snd e) = [] \<longrightarrow> snd e = VNull)"
        and loop: "\<And>ln n acc. fieldLoop toNum nested ?ts ln n acc = Inr (assignAll acc es)"
        by simp_all
      have t: "cellText numStr v = ?t"
        using v False by (simp add: objectKeys_def nestedFieldValues_map)
      from parts have at: "\<forall>p \<in> set ?ts. atomic p" by simp
      from False have tne: "?ts \<noteq> []" by simp
      have "length ?ts = 1 \<longrightarrow> hd ?ts \<noteq> []"
      proof
        assume "length ?ts = 1"
        then obtain e where e: "es = [e]" by (cases es) simp_all
        with nn have "snd e \<noteq> VNull" by simp
        with parts e show "hd ?ts \<noteq> []" by auto
      qed
      from joinWith_nonempty [OF tne this] have bne: "?b \<noteq> []" .
      then have n0: "?t \<noteq> []" "?t \<noteq> ''()''" by simp_all
      from names have len: "length ?ts = length nested"
        using length_map [of fst es] length_map [of name nested] by simp
      with tne have nne: "nested \<noteq> []" by auto
      from scan_split_top [OF at tne] have pdv: "parseDataValues ?b = ?ts"
        using tne by (simp add: parseDataValues_def)
      from fieldsOK_distinct [OF fo] names have d: "distinct (map fst ([] @ es))" by simp
      have "''__proto__'' \<notin> set (map fst es)"
      proof
        assume "''__proto__'' \<in> set (map fst es)"
        with names obtain g where "g \<in> set nested" "name g = ''__proto__''" by auto
        with fieldsOK_names [OF fo, of g] show False by (simp add: keyOK_def)
      qed
      from assignAll_distinct [OF d this] have aa: "assignAll [] es = es" by simp
      have pf: "parseFieldValue toNum (Field nm nested) ?t ln n = Inr v" for ln n
        using parseFieldValue_tuple [OF nne bne pdv len, of toNum ln n es nm] loop [of ln n "[]"] aa v
        by simp
      have lf: "LF \<notin> set ?t"
      proof -
        have "set ?b \<subseteq> set '','' \<union> (\<Union>p \<in> set ?ts. set p)" by (rule set_joinWith)
        with parts show ?thesis by auto
      qed
      from atomic_paren [OF at] paren_text(1) [of ?b] lf n0(1) pf show ?thesis
        unfolding t by simp
    qed
  qed
next
  case (2 toNum numStr es)
  then show ?case by simp
next
  case (3 toNum numStr f fs es)
  from "3.prems"(1) obtain e es' where es: "es = e # es'" and nm: "fst e = name f"
    and c: "cellOK toNum numStr f (snd e)" and cs: "cellsOK toNum numStr fs es'"
    by (cases es) simp_all
  obtain nm' nested where f: "f = Field nm' nested" by (cases f)
  from "3.prems"(2) f have fo: "fieldsOK (nestedFields f)" and fos: "fieldsOK fs" by simp_all
  note h = "3.IH"(1) [OF es c fo]
  note t = "3.IH"(2) [OF es cs fos]
  from h have pf: "\<And>ln n. parseFieldValue toNum f (cellText numStr (snd e)) ln n = Inr (snd e)"
    by simp
  from t have loop: "\<And>ln n acc. fieldLoop toNum fs (map (\<lambda>e. cellText numStr (snd e)) es') ln n acc
                       = Inr (assignAll acc es')" by simp
  have "fieldLoop toNum (f # fs) (map (\<lambda>e. cellText numStr (snd e)) es) ln n acc
          = Inr (assignAll acc es)" for ln n acc
    using es nm pf [of ln n] loop [of ln n "setKey (name f) (snd e) acc"]
    by (simp del: parseFieldValue.simps)
  with h t es nm show ?case by simp
qed

lemma getKey_distinct:
  "distinct (map fst es) \<Longrightarrow> e \<in> set es \<Longrightarrow> getKey es (fst e) = Some (snd e)"
  by (simp add: getKey_def)

lemma hd_joinWith:
  assumes "\<forall>t \<in> set ts. t = [] \<or> \<not> isSpace (hd t)" "joinWith '','' ts \<noteq> []"
  shows "\<not> isSpace (hd (joinWith '','' ts))"
proof (cases ts)
  case Nil
  with assms(2) show ?thesis by simp
next
  case (Cons x xs)
  show ?thesis
  proof (cases "x = []")
    case False
    with assms(1) Cons have "\<not> isSpace (hd x)" by auto
    with False Cons show ?thesis by (cases xs) simp_all
  next
    case True
    with Cons assms(2) obtain y ys where "xs = y # ys" by (cases xs) simp_all
    with True Cons show ?thesis by (simp add: isSpace_def)
  qed
qed

lemma last_joinWith:
  "\<forall>t \<in> set ts. t = [] \<or> \<not> isSpace (last t) \<Longrightarrow> joinWith '','' ts \<noteq> [] \<Longrightarrow>
     \<not> isSpace (last (joinWith '','' ts))"
proof (induction ts)
  case Nil
  then show ?case by simp
next
  case (Cons x ts)
  show ?case
  proof (cases ts)
    case Nil
    with Cons.prems show ?thesis by auto
  next
    case (Cons y ys)
    show ?thesis
    proof (cases "joinWith '','' ts = []")
      case True
      with Cons show ?thesis by (simp add: isSpace_def)
    next
      case False
      from Cons.prems have "\<forall>t \<in> set ts. t = [] \<or> \<not> isSpace (last t)" by simp
      from Cons.IH [OF this False] False Cons show ?thesis by simp
    qed
  qed
qed

lemma trim_joinWith:
  assumes "\<forall>t \<in> set ts. trim t = t"
  shows "trim (joinWith '','' ts) = joinWith '','' ts"
proof (cases "joinWith '','' ts = []")
  case True
  then show ?thesis by (simp add: trim_def trimStart_def trimEnd_def)
next
  case False
  from assms have "\<forall>t \<in> set ts. t = [] \<or> \<not> isSpace (hd t)"
    "\<forall>t \<in> set ts. t = [] \<or> \<not> isSpace (last t)"
    using trim_idD by blast+
  from hd_joinWith [OF this(1) False] last_joinWith [OF this(2) False] show ?thesis
    by (intro trim_id) simp
qed

text \<open>The line of a row.\<close>

lemma row_line:
  assumes ok: "cellsOK toNum numStr flds es" and fo: "fieldsOK flds" and ne: "flds \<noteq> []"
  shows "rowText numStr (map name flds) (VObj es) = joinWith '','' (map (\<lambda>e. cellText numStr (snd e)) es)"
    and "trim (rowText numStr (map name flds) (VObj es)) = rowText numStr (map name flds) (VObj es)"
    and "LF \<notin> set (rowText numStr (map name flds) (VObj es))"
    and "parseDataValues (rowText numStr (map name flds) (VObj es)) = map (\<lambda>e. cellText numStr (snd e)) es"
    and "length (map (\<lambda>e. cellText numStr (snd e)) es) = length flds"
    and "fieldLoop toNum flds (map (\<lambda>e. cellText numStr (snd e)) es) ln n [] = Inr es"
proof -
  let ?ts = "map (\<lambda>e. cellText numStr (snd e)) es"
  let ?r = "rowText numStr (map name flds) (VObj es)"
  from cell_text(2) [OF ok fo] have names: "map fst es = map name flds"
    and parts: "\<forall>e \<in> set es. atomic (cellText numStr (snd e))
            \<and> trim (cellText numStr (snd e)) = cellText numStr (snd e)
            \<and> LF \<notin> set (cellText numStr (snd e))
            \<and> (cellText numStr (snd e) = [] \<longrightarrow> snd e = VNull)"
    and loop: "\<And>ln n acc. fieldLoop toNum flds ?ts ln n acc = Inr (assignAll acc es)"
    by simp_all
  from fieldsOK_distinct [OF fo] names have d: "distinct (map fst es)" by simp
  have "map (\<lambda>k. generateObjectFieldValue numStr (getKey es k)) (map fst es) = ?ts"
    using getKey_distinct [OF d] by simp
  with names show r: "?r = joinWith '','' ?ts" by (simp add: rowText_def)
  from parts have "\<forall>t \<in> set ?ts. trim t = t" by simp
  from trim_joinWith [OF this] r show "trim ?r = ?r" by simp
  have "set (joinWith '','' ?ts) \<subseteq> set '','' \<union> (\<Union>p \<in> set ?ts. set p)" by (rule set_joinWith)
  with parts r show "LF \<notin> set ?r" by auto
  from names have len: "length es = length flds"
    using length_map [of fst es] length_map [of name flds] by simp
  with ne have tne: "?ts \<noteq> []" by auto
  from parts have at: "\<forall>p \<in> set ?ts. atomic p" by simp
  from scan_split_top [OF at tne] tne r show "parseDataValues ?r = ?ts"
    by (simp add: parseDataValues_def)
  from len show "length ?ts = length flds" by simp
  from d have d': "distinct (map fst ([] @ es))" by simp
  have "''__proto__'' \<notin> set (map fst es)"
  proof
    assume "''__proto__'' \<in> set (map fst es)"
    with names obtain g where "g \<in> set flds" "name g = ''__proto__''" by auto
    with fieldsOK_names [OF fo, of g] show False by (simp add: keyOK_def)
  qed
  from assignAll_distinct [OF d' this] loop [of ln n "[]"]
  show "fieldLoop toNum flds ?ts ln n [] = Inr es" by simp
qed

lemma dataLine_facts:
  assumes "dataLineText t" "trim t = t"
  shows "\<not> blankOrComment t" "\<not> headerLine t"
  using assms by (simp_all add: dataLineText_def blankOrComment_def headerLine_def)

lemma parse_row:
  assumes r: "rowOK toNum numStr flds row" and fo: "fieldsOK flds" and ne: "flds \<noteq> []"
    and c: "processed < count"
  shows "parseDataLinesLoop toNum flds count (rowText numStr (map name flds) row # rest) i result processed
       = parseDataLinesLoop toNum flds count rest (i + 1) (result @ [row]) (processed + 1)"
proof -
  from r obtain es where row: "row = VObj es" and ok: "cellsOK toNum numStr flds es"
    and dl: "dataLineText (rowText numStr (map name flds) row)"
    by (cases row) (simp_all add: rowOK_def)
  let ?r = "rowText numStr (map name flds) row"
  note L = row_line [OF ok fo ne, folded row]
  from dl have d: "?r \<noteq> []" "\<not> startsWith ?r ''#''" by (simp_all add: dataLineText_def)
  from ne have nz: "length flds \<noteq> 0" by simp
  show ?thesis
    using c d nz L(2) L(4) L(5) L(6) [of "?r" "i + 1"] row
    by (simp add: Let_def del: fieldLoop.simps)
qed

lemma parse_rows:
  assumes fo: "fieldsOK flds" and ne: "flds \<noteq> []"
  shows "list_all (rowOK toNum numStr flds) rows \<Longrightarrow> processed + length rows \<le> count \<Longrightarrow>
     parseDataLinesLoop toNum flds count (map (rowText numStr (map name flds)) rows) i result processed
       = Inr (VArr (result @ rows))"
proof (induction rows arbitrary: i result processed)
  case Nil
  show ?case by simp
next
  case (Cons row rows)
  from Cons.prems have row: "rowOK toNum numStr flds row"
    and rows: "list_all (rowOK toNum numStr flds) rows"
    and c: "processed < count" "(processed + 1) + length rows \<le> count" by simp_all
  from parse_row [OF row fo ne c(1)] Cons.IH [OF rows c(2)] show ?case by simp
qed

lemma rows_lines:
  assumes fo: "fieldsOK flds" and ne: "flds \<noteq> []"
    and rows: "list_all (rowOK toNum numStr flds) rows"
  shows "\<forall>t \<in> set (map (rowText numStr (map name flds)) rows).
           trim t = t \<and> LF \<notin> set t \<and> \<not> blankOrComment t \<and> \<not> headerLine t"
proof
  fix t assume "t \<in> set (map (rowText numStr (map name flds)) rows)"
  then obtain row where row: "row \<in> set rows" and t: "t = rowText numStr (map name flds) row" by auto
  with rows have r: "rowOK toNum numStr flds row" by (simp add: list_all_iff)
  then obtain es where e: "row = VObj es" and ok: "cellsOK toNum numStr flds es"
    and dl: "dataLineText (rowText numStr (map name flds) row)"
    by (cases row) (simp_all add: rowOK_def)
  note L = row_line [OF ok fo ne, folded e]
  from L(2,3) dataLine_facts [OF dl L(2)] t
  show "trim t = t \<and> LF \<notin> set t \<and> \<not> blankOrComment t \<and> \<not> headerLine t" by simp
qed

lemma dataRowCount_all:
  "\<forall>t \<in> set ts. \<not> blankOrComment t \<Longrightarrow> dataRowCount ts = length ts"
  by (induction ts) simp_all

subsection \<open>Header lines\<close>

lemma names_fieldsOf: "map name (fieldsOf es) = map fst es"
  by (induction es rule: fieldsOf.induct) simp_all

lemma keyOK_ends:
  assumes "keyOK k" "k \<noteq> []"
  shows "\<not> isSpace (hd k)" "\<not> isSpace (last k)" "LF \<notin> set k" "CHR '':'' \<notin> set k"
proof -
  from assms(1) have tr: "trim k = k" by (simp add: keyOK_def)
  from trim_idD [OF tr assms(2)] show "\<not> isSpace (hd k)" "\<not> isSpace (last k)" by simp_all
  from assms(1) show "LF \<notin> set k" "CHR '':'' \<notin> set k" by (auto simp: keyOK_def list_all_iff)
qed

lemma header_parts_text:
  "fieldsOK (fieldsOf es) \<Longrightarrow>
     \<forall>p \<in> set (headerParts es). p \<noteq> [] \<and> \<not> isSpace (hd p) \<and> \<not> isSpace (last p)
        \<and> LF \<notin> set p \<and> CHR '':'' \<notin> set p"
proof (induction es rule: fieldsOf.induct)
  case 1
  show ?case by simp
next
  case (2 e es)
  let ?k = "fst e"
  from "2.prems" have k: "keyOK ?k" "?k \<noteq> []" and okes: "fieldsOK (fieldsOf es)" by simp_all
  note ke = keyOK_ends [OF k]
  note rest = "2.IH"(2) [OF okes]
  show ?case
  proof (cases "\<exists>nested. snd e = VObj nested")
    case False
    then have part: "headerParts (e # es) = ?k # headerParts es"
      by (cases "snd e"; simp)
    show ?thesis unfolding part using k(2) ke rest by simp
  next
    case True
    then obtain nested where v: "snd e = VObj nested" by blast
    let ?inner = "joinWith '','' (headerParts nested)"
    from v have part: "headerParts (e # es) = (?k @ ''('' @ ?inner @ '')'') # headerParts es"
      by simp
    from "2.prems" v have okn: "fieldsOK (fieldsOf nested)" by simp
    note inner = "2.IH"(1) [OF v okn]
    have "set ?inner \<subseteq> set '','' \<union> (\<Union>p \<in> set (headerParts nested). set p)"
      by (rule set_joinWith)
    with inner have i: "LF \<notin> set ?inner" "CHR '':'' \<notin> set ?inner" by auto
    have "hd (?k @ ''('' @ ?inner @ '')'') = hd ?k" using k(2) by simp
    moreover have "last (?k @ ''('' @ ?inner @ '')'') = CHR '')''" by simp
    ultimately show ?thesis unfolding part using k(2) ke rest i by (simp add: isSpace_def)
  qed
qed

lemma header_text:
  assumes ok: "fieldsOK (fieldsOf es)" and ne: "es \<noteq> []"
  shows "generateHeaderFields es \<noteq> []"
    and "trim (generateHeaderFields es) = generateHeaderFields es"
    and "LF \<notin> set (generateHeaderFields es)"
    and "CHR '':'' \<notin> set (generateHeaderFields es)"
proof -
  let ?ps = "headerParts es"
  note P = header_parts_text [OF ok]
  from ne have pne: "?ps \<noteq> []" by (cases es) simp_all
  from P have "length ?ps = 1 \<longrightarrow> hd ?ps \<noteq> []" using pne by (cases ?ps) simp_all
  from joinWith_nonempty [OF pne this] show "generateHeaderFields es \<noteq> []" by simp
  from P have "\<forall>t \<in> set ?ps. trim t = t" using trim_id by blast
  from trim_joinWith [OF this] show "trim (generateHeaderFields es) = generateHeaderFields es"
    by simp
  have "set (joinWith '','' ?ps) \<subseteq> set '','' \<union> (\<Union>p \<in> set ?ps. set p)" by (rule set_joinWith)
  with P show "LF \<notin> set (generateHeaderFields es)" "CHR '':'' \<notin> set (generateHeaderFields es)"
    by auto
qed

lemma splitOn_note: "splitOn c s \<noteq> []"
  by (induction s) (auto split: list.splits)

lemma splitOn_end: "last (splitOn c (s @ [c])) = [] \<and> 2 \<le> length (splitOn c (s @ [c]))"
proof (induction s)
  case Nil
  show ?case by simp
next
  case (Cons x s)
  obtain p ps where sp: "splitOn c (s @ [c]) = p # ps" using splitOn_note [of c "s @ [c]"]
    by (cases "splitOn c (s @ [c])") simp_all
  with Cons have ps: "ps \<noteq> []" by auto
  with sp Cons have "last ps = []" by simp
  moreover from ps have "Suc 0 \<le> length ps" by (cases ps) simp_all
  ultimately show ?case using sp ps by simp
qed

lemma splitOn_last:
  "t \<noteq> [] \<Longrightarrow> last t \<noteq> c \<Longrightarrow> last (splitOn c t) \<noteq> []"
proof (induction t)
  case Nil
  then show ?case by simp
next
  case (Cons x s)
  show ?case
  proof (cases "s = []")
    case True
    with Cons.prems show ?thesis by simp
  next
    case False
    with Cons have ih: "last (splitOn c s) \<noteq> []" by simp
    obtain p ps where sp: "splitOn c s = p # ps" using splitOn_note [of c s]
      by (cases "splitOn c s") simp_all
    with ih show ?thesis by (cases "ps = []") auto
  qed
qed

lemma isHeader_end:
  assumes "trim t = t" "t \<noteq> []" "last t = CHR '':''"
  shows "isHeader t"
proof -
  from assms(2,3) obtain s where "t = s @ '':''" by (metis append_butlast_last_id)
  with splitOn_end [of "CHR '':''" s] assms(1) show ?thesis by (simp add: isHeader_def Let_def)
qed

lemma not_isHeader:
  assumes "trim t = t" "t \<noteq> []" "hd t \<noteq> CHR '':''" "last t \<noteq> CHR '':''"
  shows "\<not> isHeader t"
  using assms splitOn_last [OF assms(2,4)] by (simp add: isHeader_def Let_def startsWith_hd)

lemma headerLine_end:
  assumes "trim t = t" "t \<noteq> []" "\<not> startsWith t ''#''" "last t = CHR '':''"
  shows "headerLine t"
proof -
  from assms(2,4) have "CHR '':'' \<in> set t" by (metis last_in_set)
  with assms isHeader_end [OF assms(1,2,4)] show ?thesis
    by (simp add: headerLine_def includesChar_def)
qed

lemma section_step:
  assumes h: "trim hdr = hdr" "hdr \<noteq> []" "\<not> startsWith hdr ''#''" "includesChar hdr CHR '':''"
    and ph: "\<And>n. parseHeader hdr n = Inr (Some k, fstr)"
    and pf: "\<And>n. parseFields fstr hdr n = Inr flds"
    and cnt: "countDataLines (ds @ post) = length ds"
    and dl: "\<And>i. parseDataLinesLoop toNum flds (length ds) (ds @ post) i [] 0 = Inr v"
  shows "parseOrtLoop toNum (pre @ hdr # ds @ post) (length pre) acc
           = parseOrtLoop toNum (pre @ hdr # ds @ post) (length pre + (length ds + 1)) (setKey k v acc)"
proof -
  define ls where "ls = pre @ hdr # ds @ post"
  have 1: "length pre < length ls" "ls ! length pre = hdr" "drop (length pre + 1) ls = ds @ post"
    unfolding ls_def by simp_all
  have sec: "parseSection ls (length pre) = Inr (Some k, flds, length ds)"
    unfolding parseSection_def using 1 h ph pf cnt by (simp add: Let_def)
  have d: "parseDataLines toNum ls (length pre + 1) flds (length ds) = Inr v"
    unfolding parseDataLines_def using 1 dl by simp
  then have d': "parseDataLines toNum ls (Suc (length pre)) flds (length ds) = Inr v" by simp
  show ?thesis
    unfolding ls_def [symmetric]
    by (subst parseOrtLoop.simps) (simp add: Let_def 1 h sec d')
qed

lemma literal_header:
  assumes "sectionKeyOK k"
  shows "trim (k @ '':'') = k @ '':''"
    and "k @ '':'' \<noteq> []"
    and "\<not> startsWith (k @ '':'') ''#''"
    and "includesChar (k @ '':'') CHR '':''"
    and "parseHeader (k @ '':'') n = Inr (Some k, [])"
    and "LF \<notin> set (k @ '':'')"
    and "headerLine (k @ '':'')"
proof -
  note H = header_line_of_key [OF assms]
  from H show 1: "trim (k @ '':'') = k @ '':''" and 3: "\<not> startsWith (k @ '':'') ''#''"
    and "includesChar (k @ '':'') CHR '':''" and "parseHeader (k @ '':'') n = Inr (Some k, [])"
    by simp_all
  show "k @ '':'' \<noteq> []" by simp
  from assms show "LF \<notin> set (k @ '':'')"
    by (auto simp: sectionKeyOK_def keyOK_def list_all_iff)
  from headerLine_end [OF 1 _ 3] show "headerLine (k @ '':'')" by simp
qed

lemma table_header:
  assumes k: "sectionKeyOK k" and H: "H \<noteq> []" "trim H = H" "LF \<notin> set H" "CHR '':'' \<notin> set H"
  shows "trim (k @ '':'' @ H @ '':'') = k @ '':'' @ H @ '':''"
    and "k @ '':'' @ H @ '':'' \<noteq> []"
    and "\<not> startsWith (k @ '':'' @ H @ '':'') ''#''"
    and "includesChar (k @ '':'' @ H @ '':'') CHR '':''"
    and "parseHeader (k @ '':'' @ H @ '':'') n = Inr (Some k, H)"
    and "LF \<notin> set (k @ '':'' @ H @ '':'')"
    and "headerLine (k @ '':'' @ H @ '':'')"
proof -
  let ?h = "k @ '':'' @ H @ '':''"
  from k have tk: "trim k = k" and nc: "CHR '':'' \<notin> set k" and ne: "k \<noteq> []"
    and nh: "\<not> startsWith k ''#''" and lf: "LF \<notin> set k"
    by (auto simp: sectionKeyOK_def keyOK_def list_all_iff)
  from trim_idD(1) [OF tk ne] ne show 1: "trim ?h = ?h"
    by (intro trim_id) (simp add: isSpace_def)
  show "?h \<noteq> []" by simp
  from nh ne show 3: "\<not> startsWith ?h ''#''" by (cases k) simp_all
  show "includesChar ?h CHR '':''" by (simp add: includesChar_def)
  from nc ne have ns: "\<not> startsWith ?h '':''" by (cases k) auto
  have de: "dropEndColon (H @ '':'') = H" by (simp add: dropEndColon_def)
  from ns indexOf_append [OF nc, of "H @ '':''"] tk de H(2)
  show "parseHeader ?h n = Inr (Some k, H)"
    by (simp add: parseHeader_def)
  from lf H(3) show "LF \<notin> set ?h" by simp
  have "last ?h = CHR '':''" by simp
  from headerLine_end [OF 1 _ 3 this] show "headerLine ?h" by simp
qed

lemma anonymous_header:
  assumes H: "H \<noteq> []" "trim H = H" "LF \<notin> set H" "CHR '':'' \<notin> set H"
  shows "trim ('':'' @ H @ '':'') = '':'' @ H @ '':''"
    and "startsWith ('':'' @ H @ '':'') '':''"
    and "parseHeader ('':'' @ H @ '':'') n = Inr (None, H)"
    and "LF \<notin> set ('':'' @ H @ '':'')"
proof -
  show "trim ('':'' @ H @ '':'') = '':'' @ H @ '':''"
    by (intro trim_id) (simp add: isSpace_def)
  show "startsWith ('':'' @ H @ '':'') '':''" by simp
  have "dropEndColon (H @ '':'') = H" by (simp add: dropEndColon_def)
  then show "parseHeader ('':'' @ H @ '':'') n = Inr (None, H)" by (simp add: parseHeader_def)
  from H(3) show "LF \<notin> set ('':'' @ H @ '':'')" by simp
qed

subsection \<open>Sections\<close>

lemma row_keys:
  assumes "rowOK toNum numStr flds row" "fieldsOK flds"
  shows "isObject row" "objectKeys (entriesOf row) = map name flds"
    "distinct (objectKeys (entriesOf row))"
proof -
  from assms(1) show o: "isObject row" and "objectKeys (entriesOf row) = map name flds"
    using cell_text(2) [OF _ assms(2), of toNum numStr "entriesOf row"]
    by (simp_all add: rowOK_def objectKeys_def)
  with fieldsOK_distinct [OF assms(2)] show "distinct (objectKeys (entriesOf row))" by simp
qed

lemma table_facts:
  assumes t: "tableOK toNum numStr rows"
  shows "rows \<noteq> []"
    and "entriesOf (hd rows) \<noteq> []"
    and "fieldsOf (entriesOf (hd rows)) \<noteq> []"
    and "fieldsOK (fieldsOf (entriesOf (hd rows)))"
    and "list_all (rowOK toNum numStr (fieldsOf (entriesOf (hd rows)))) rows"
    and "objectKeys (entriesOf (hd rows)) = map name (fieldsOf (entriesOf (hd rows)))"
    and "isUniformObjectArray rows"
proof -
  let ?first = "entriesOf (hd rows)"
  let ?flds = "fieldsOf ?first"
  from t show ne: "rows \<noteq> []" and f: "?flds \<noteq> []" and ok: "fieldsOK ?flds"
    and rows: "list_all (rowOK toNum numStr ?flds) rows"
    by (simp_all add: tableOK_def Let_def)
  from f show "?first \<noteq> []" by auto
  show "objectKeys ?first = map name ?flds" by (simp add: objectKeys_def names_fieldsOf)
  have k: "\<And>row. row \<in> set rows \<Longrightarrow> isObject row \<and> objectKeys (entriesOf row) = map name ?flds
         \<and> distinct (objectKeys (entriesOf row))"
  proof -
    fix row assume "row \<in> set rows"
    with rows have "rowOK toNum numStr ?flds row" by (simp add: list_all_iff)
    from row_keys [OF this ok] show "isObject row \<and> objectKeys (entriesOf row) = map name ?flds
         \<and> distinct (objectKeys (entriesOf row))" by simp
  qed
  then have d: "list_all (\<lambda>x. distinct (objectKeys (entriesOf x))) rows"
    unfolding list_all_iff by blast
  from ne have "hd rows \<in> set rows" by simp
  with k have "objectKeys ?first = map name ?flds" by blast
  with k ne show "isUniformObjectArray rows"
    unfolding isUniformObjectArray_iff [OF d] list_all_iff by simp
qed

lemma bracket_dataLine:
  assumes "trim t = t" "t \<noteq> []" "hd t = CHR ''[''" "last t = CHR '']''"
  shows "dataLineText t"
proof -
  from assms have "\<not> isHeader t" by (intro not_isHeader) simp_all
  with assms show ?thesis by (simp add: dataLineText_def startsWith_hd)
qed

lemma array_text:
  "generateValue numStr (VArr xs) True \<noteq> []"
  "hd (generateValue numStr (VArr xs) True) = CHR ''[''"
  "last (generateValue numStr (VArr xs) True) = CHR '']''"
  by simp_all

lemma section_cases:
  assumes s: "sectionOK toNum numStr (k, v)"
  obtains (table) rows where "v = VArr rows" "tableOK toNum numStr rows"
      "sectionLines numStr k v =
         (k @ '':'' @ generateHeaderFields (entriesOf (hd rows)) @ '':'')
           # map (rowText numStr (map name (fieldsOf (entriesOf (hd rows))))) rows"
    | (literal) "\<not> (\<exists>arr. v = VArr arr \<and> isUniformObjectArray arr)"
      "literalSafe toNum numStr v" "dataLineText (generateValue numStr v True)"
      "sectionLines numStr k v = [k @ '':'', generateValue numStr v True]"
proof (cases "\<exists>arr. v = VArr arr \<and> isUniformObjectArray arr")
  case True
  then obtain rows where v: "v = VArr rows" and u: "isUniformObjectArray rows" by blast
  with s have t: "tableOK toNum numStr rows" by (simp add: sectionOK_def)
  from table_facts(6) [OF t] v u
  have "sectionLines numStr k v =
         (k @ '':'' @ generateHeaderFields (entriesOf (hd rows)) @ '':'')
           # map (rowText numStr (map name (fieldsOf (entriesOf (hd rows))))) rows"
    by (simp add: sectionLines_def generateHeader_def)
  with v t show ?thesis using table by blast
next
  case False
  have sl: "sectionLines numStr k v = [k @ '':'', generateValue numStr v True]"
    using False by (cases v) (simp_all add: sectionLines_def)
  show ?thesis
  proof (cases "isArray v")
    case True
    then obtain xs where v: "v = VArr xs" by (cases v) simp_all
    with False s have ls: "literalSafe toNum numStr v" by (simp add: sectionOK_def)
    from literalSafe_textOK(1) [OF ls] have "trim (generateValue numStr v True) = generateValue numStr v True"
      by (simp add: textOK_def)
    from bracket_dataLine [OF this] array_text [of numStr xs] v
    have "dataLineText (generateValue numStr v True)" by simp
    with False ls sl show ?thesis using literal by blast
  next
    case na: False
    with s have "literalSafe toNum numStr v" "dataLineText (generateValue numStr v True)"
      by (cases v; simp add: sectionOK_def)+
    with False sl show ?thesis using literal by blast
  qed
qed

lemma section_lines:
  assumes s: "sectionOK toNum numStr (k, v)"
  shows "sectionLines numStr k v \<noteq> []"
    and "headerLine (hd (sectionLines numStr k v))"
    and "\<forall>t \<in> set (sectionLines numStr k v). trim t = t \<and> t \<noteq> [] \<and> LF \<notin> set t"
proof -
  from s have k: "sectionKeyOK k" by (simp add: sectionOK_def)
  have "sectionLines numStr k v \<noteq> [] \<and> headerLine (hd (sectionLines numStr k v))
     \<and> (\<forall>t \<in> set (sectionLines numStr k v). trim t = t \<and> t \<noteq> [] \<and> LF \<notin> set t)"
  using s
  proof (cases rule: section_cases)
    case (table rows)
    let ?first = "entriesOf (hd rows)"
    let ?flds = "fieldsOf ?first"
    note T = table_facts [OF table(2)]
    note H = header_text [OF T(4) T(2)]
    note hd = table_header [OF k H]
    note R = rows_lines [OF T(4) T(3) T(5)]
    have "\<forall>t \<in> set (map (rowText numStr (map name ?flds)) rows). trim t = t \<and> t \<noteq> [] \<and> LF \<notin> set t"
    proof
      fix t assume "t \<in> set (map (rowText numStr (map name ?flds)) rows)"
      with R have "trim t = t" "LF \<notin> set t" "\<not> blankOrComment t" by blast+
      then show "trim t = t \<and> t \<noteq> [] \<and> LF \<notin> set t" by (auto simp: blankOrComment_def)
    qed
    with hd(1,2,6,7) show ?thesis unfolding table(3) by simp
  next
    case literal
    note hd = literal_header [OF k]
    from literalSafe_textOK(1) [OF literal(2)]
    have "trim (generateValue numStr v True) = generateValue numStr v True"
      "LF \<notin> set (generateValue numStr v True)" by (simp_all add: textOK_def)
    with literal(3) hd(1,2,6,7) show ?thesis unfolding literal(4)
      by (simp add: dataLineText_def)
  qed
  then show "sectionLines numStr k v \<noteq> []"
    and "headerLine (hd (sectionLines numStr k v))"
    and "\<forall>t \<in> set (sectionLines numStr k v). trim t = t \<and> t \<noteq> [] \<and> LF \<notin> set t"
    by simp_all
qed

lemma section_run:
  assumes s: "sectionOK toNum numStr (k, v)" and post: "countDataLines post = 0"
  shows "parseOrtLoop toNum (pre @ sectionLines numStr k v @ post) (length pre) acc
           = parseOrtLoop toNum (pre @ sectionLines numStr k v @ post)
               (length pre + length (sectionLines numStr k v)) (setKey k v acc)"
proof -
  from s have k: "sectionKeyOK k" by (simp add: sectionOK_def)
  from s show ?thesis
  proof (cases rule: section_cases)
    case (table rows)
    let ?first = "entriesOf (hd rows)"
    let ?flds = "fieldsOf ?first"
    let ?H = "generateHeaderFields ?first"
    let ?ds = "map (rowText numStr (map name ?flds)) rows"
    note T = table_facts [OF table(2)]
    note H = header_text [OF T(4) T(2)]
    note hd = table_header [OF k H]
    note R = rows_lines [OF T(4) T(3) T(5)]
    from R have nb: "\<forall>t \<in> set ?ds. \<not> blankOrComment t" and nh: "\<forall>raw \<in> set ?ds. \<not> headerLine raw"
      by blast+
    from dataRowCount_all [OF nb] have drc: "dataRowCount ?ds = length ?ds" .
    from countDataLines_no_header [OF nh, of post] drc post
    have cnt: "countDataLines (?ds @ post) = length ?ds" by simp
    have dl: "parseDataLinesLoop toNum ?flds (length ?ds) (?ds @ post) i [] 0 = Inr v" for i
    proof -
      from drc have "length ?ds - 0 \<le> dataRowCount ?ds" by simp
      from parseDataLinesLoop_append [OF this, of toNum ?flds post i "[]"]
        parse_rows [OF T(4) T(3) T(5), of 0 "length ?ds" i "[]"] table(1)
      show ?thesis by simp
    qed
    from section_step [of "k @ '':'' @ ?H @ '':''" k ?H ?flds ?ds post toNum v pre acc,
        OF hd(1,2,3,4) hd(5) header_fields_parse [OF T(4)] cnt dl]
    show ?thesis unfolding table(3) by simp
  next
    case literal
    let ?t = "generateValue numStr v True"
    note hd = literal_header [OF k]
    from literalSafe_textOK(1) [OF literal(2)]
    have tr: "trim ?t = ?t" and pv: "parseValue toNum ?t = v" by (simp_all add: textOK_def)
    from literal(3) tr post have cnt: "countDataLines ([?t] @ post) = length [?t]"
      by (simp add: dataLineText_def Let_def)
    from literal(3) tr pv
    have dl: "parseDataLinesLoop toNum [] (length [?t]) ([?t] @ post) i [] 0 = Inr v" for i
      by (simp add: dataLineText_def Let_def)
    have pf: "parseFields [] (k @ '':'') n = Inr []" for n by (simp add: parseFields.simps)
    from section_step [of "k @ '':''" k "[]" "[]" "[?t]" post toNum v pre acc,
        OF hd(1,2,3,4) hd(5) pf cnt dl]
    show ?thesis unfolding literal(4) by simp
  qed
qed

lemma splitOn_join:
  "\<forall>t \<in> set ts. LF \<notin> set t \<Longrightarrow> ts \<noteq> [] \<Longrightarrow> splitOn LF (joinWith [LF] ts) = ts"
proof (induction ts)
  case Nil
  then show ?case by simp
next
  case (Cons t ts)
  from Cons.prems have t: "LF \<notin> set t" and r: "\<forall>t \<in> set ts. LF \<notin> set t" by simp_all
  show ?case
  proof (cases ts)
    case Nil
    with splitOn_none [OF t] show ?thesis by simp
  next
    case (Cons u us)
    then have "ts \<noteq> []" by simp
    from Cons.IH [OF r this] splitOn_append [OF t, of "joinWith [LF] ts"] Cons
    show ?thesis by simp
  qed
qed

lemma splitOn_app: "splitOn c (a @ c # b) = splitOn c a @ splitOn c b"
proof (induction a)
  case Nil
  show ?case by simp
next
  case (Cons x a)
  obtain p ps where sp: "splitOn c a = p # ps" using splitOn_note [of c a]
    by (cases "splitOn c a") simp_all
  with Cons show ?case by simp
qed

lemma last_join:
  assumes "ls \<noteq> []" "last ls \<noteq> []"
  shows "last (joinWith [LF] ls) = last (last ls)"
proof -
  from joinWith_last [OF assms(1), of "[LF]"] obtain pre where "joinWith [LF] ls = pre @ last ls"
    by blast
  with assms(2) show ?thesis by simp
qed

lemma section_text:
  assumes s: "sectionOK toNum numStr (k, v)"
  shows "entryBlock numStr k v = joinWith [LF] (sectionLines numStr k v)"
    and "generateOrt numStr (VObj [(k, v)]) = joinWith [LF] (sectionLines numStr k v)"
proof -
  note L = section_lines [OF s]
  from L(1) have ll: "last (sectionLines numStr k v) \<in> set (sectionLines numStr k v)" by simp
  with L(3) have lne: "last (sectionLines numStr k v) \<noteq> []"
    and ltr: "trim (last (sectionLines numStr k v)) = last (sectionLines numStr k v)" by blast+
  from trim_idD(2) [OF ltr lne] last_join [OF L(1) lne]
  have "\<not> isSpace (last (joinWith [LF] (sectionLines numStr k v)))" by simp
  then have te: "trimEnd (joinWith [LF] (sectionLines numStr k v)) = joinWith [LF] (sectionLines numStr k v)"
    by (intro trimEnd_id) simp
  have "entryBlock numStr k v = joinWith [LF] (sectionLines numStr k v)
      \<and> generateOrt numStr (VObj [(k, v)]) = joinWith [LF] (sectionLines numStr k v)"
  using s
  proof (cases rule: section_cases)
    case (table rows)
    note T = table_facts [OF table(2)]
    have g: "generateObjectArray numStr k rows = joinWith [LF] (sectionLines numStr k v)"
      unfolding table(3) using T(1) T(6)
      by (simp add: generateObjectArray_def generateHeader_def Let_def)
    with te T(1) T(7) table(1) show ?thesis
      by (simp add: entryBlock_def generateOrt_def objectKeys_def)
  next
    case literal
    show ?thesis
    proof (cases v)
      case (VArr arr)
      with literal(1) have nu: "\<not> isUniformObjectArray arr" by simp
      show ?thesis
      proof (cases "arr = []")
        case True
        with VArr show ?thesis unfolding literal(4)
          by (simp add: entryBlock_def generateOrt_def objectKeys_def)
      next
        case False
        have gv: "generateValues numStr arr False = generateValues numStr arr True"
          using generateValue_inline [of numStr _ False] by (simp add: generateValues_map)
        with False VArr
        have g: "generateSimpleArray numStr k arr = joinWith [LF] (sectionLines numStr k v)"
          unfolding literal(4) by (simp add: generateSimpleArray_def)
        with te False nu VArr show ?thesis
          by (simp add: entryBlock_def generateOrt_def objectKeys_def)
      qed
    qed (simp_all add: sectionLines_def entryBlock_def generateOrt_def objectKeys_def
           generateValue_inline [of numStr _ False])
  qed
  then show "entryBlock numStr k v = joinWith [LF] (sectionLines numStr k v)"
    and "generateOrt numStr (VObj [(k, v)]) = joinWith [LF] (sectionLines numStr k v)" by simp_all
qed

subsection \<open>Documents\<close>

lemma multi_lines:
  "es \<noteq> [] \<Longrightarrow> list_all (sectionOK toNum numStr) es \<Longrightarrow>
     splitOn LF (generateMultiObject numStr es)
       = concat (map (\<lambda>e. sectionLines numStr (fst e) (snd e) @ [[]]) es)"
proof (induction numStr es rule: generateMultiObject.induct)
  case (1 numStr)
  then show ?case by simp
next
  case (2 numStr e)
  from "2.prems" have s: "sectionOK toNum numStr (fst e, snd e)" by simp
  note L = section_lines [OF s]
  from L(3) have lf: "\<forall>t \<in> set (sectionLines numStr (fst e) (snd e)). LF \<notin> set t" by blast
  from splitOn_app [of LF "entryBlock numStr (fst e) (snd e)" "[]"]
    section_text(1) [OF s] splitOn_join [OF lf L(1)]
  show ?case by simp
next
  case (3 numStr e v va)
  from "3.prems" have s: "sectionOK toNum numStr (fst e, snd e)"
    and r: "list_all (sectionOK toNum numStr) (v # va)" by simp_all
  note L = section_lines [OF s]
  from L(3) have lf: "\<forall>t \<in> set (sectionLines numStr (fst e) (snd e)). LF \<notin> set t" by blast
  from "3.IH" [OF _ r]
  have ih: "splitOn LF (generateMultiObject numStr (v # va))
       = concat (map (\<lambda>e. sectionLines numStr (fst e) (snd e) @ [[]]) (v # va))" by simp
  from splitOn_app [of LF "entryBlock numStr (fst e) (snd e)" "LF # generateMultiObject numStr (v # va)"]
    section_text(1) [OF s] splitOn_join [OF lf L(1)] ih
  show ?case by simp
qed

lemma doc_count:
  assumes "list_all (sectionOK toNum numStr) es"
  shows "countDataLines (concat (map (\<lambda>e. sectionLines numStr (fst e) (snd e) @ [[]]) es)) = 0"
proof (cases es)
  case Nil
  then show ?thesis by simp
next
  case (Cons e es')
  with assms have s: "sectionOK toNum numStr (fst e, snd e)" by simp
  note L = section_lines [OF s]
  from L(1) obtain hdr ds where l: "sectionLines numStr (fst e) (snd e) = hdr # ds"
    by (cases "sectionLines numStr (fst e) (snd e)") simp_all
  with L(2) have "headerLine hdr" by simp
  then show ?thesis using Cons l by (simp add: headerLine_def Let_def)
qed

lemma blank_skip:
  "parseOrtLoop toNum (pre @ [] # post) (length pre) acc
     = parseOrtLoop toNum (pre @ [] # post) (length pre + 1) acc"
  by (subst parseOrtLoop.simps) (simp add: Let_def trim_def trimStart_def trimEnd_def)

lemma sections_run:
  "list_all (sectionOK toNum numStr) es \<Longrightarrow>
     parseOrtLoop toNum (pre @ concat (map (\<lambda>e. sectionLines numStr (fst e) (snd e) @ [[]]) es))
         (length pre) acc
       = Inr (VObj (assignAll acc es))"
proof (induction es arbitrary: pre acc)
  case Nil
  show ?case by (subst parseOrtLoop.simps) simp
next
  case (Cons e es)
  from Cons.prems have s: "sectionOK toNum numStr (fst e, snd e)"
    and r: "list_all (sectionOK toNum numStr) es" by simp_all
  let ?L = "sectionLines numStr (fst e) (snd e)"
  let ?D = "concat (map (\<lambda>e. sectionLines numStr (fst e) (snd e) @ [[]]) es)"
  let ?ls = "pre @ ?L @ [] # ?D"
  have ls: "pre @ concat (map (\<lambda>e. sectionLines numStr (fst e) (snd e) @ [[]]) (e # es)) = ?ls"
    by simp
  from doc_count [OF r] have c: "countDataLines ([] # ?D) = 0"
    by (simp add: Let_def trim_def trimStart_def trimEnd_def)
  from section_run [OF s c, of pre acc]
  have 1: "parseOrtLoop toNum ?ls (length pre) acc
         = parseOrtLoop toNum ?ls (length (pre @ ?L)) (setKey (fst e) (snd e) acc)" by simp
  from blank_skip [of toNum "pre @ ?L" ?D "setKey (fst e) (snd e) acc"]
  have 2: "parseOrtLoop toNum ?ls (length (pre @ ?L)) (setKey (fst e) (snd e) acc)
         = parseOrtLoop toNum ?ls (length (pre @ ?L @ [[]])) (setKey (fst e) (snd e) acc)" by simp
  from Cons.IH [OF r, of "pre @ ?L @ [[]]" "setKey (fst e) (snd e) acc"]
  have 3: "parseOrtLoop toNum ?ls (length (pre @ ?L @ [[]])) (setKey (fst e) (snd e) acc)
         = Inr (VObj (assignAll (setKey (fst e) (snd e) acc) es))" by simp
  from 1 2 3 show ?case unfolding ls by simp
qed

lemma sections_keys:
  assumes "list_all (sectionOK toNum numStr) es" "distinct (map fst es)"
  shows "assignAll [] es = es"
proof -
  have "''__proto__'' \<notin> set (map fst es)"
  proof
    assume "''__proto__'' \<in> set (map fst es)"
    then obtain e where "e \<in> set es" "fst e = ''__proto__''" by auto
    with assms(1) show False by (auto simp: list_all_iff sectionOK_def sectionKeyOK_def keyOK_def)
  qed
  with assignAll_distinct [of "[]" es] assms(2) show ?thesis by simp
qed

lemma round_trip_object:
  assumes d: "distinct (map fst es)" and s: "list_all (sectionOK toNum numStr) es"
  shows "parseOrt toNum (generateOrt numStr (VObj es)) = Inr (VObj es)"
proof (cases "length es = 1")
  case True
  then obtain e where es: "es = [e]" by (cases es) simp_all
  with s have se: "sectionOK toNum numStr (fst e, snd e)" by simp
  let ?L = "sectionLines numStr (fst e) (snd e)"
  note L = section_lines [OF se]
  from L(3) have lf: "\<forall>t \<in> set ?L. LF \<notin> set t" by blast
  from section_text(2) [OF se] splitOn_join [OF lf L(1)] es
  have lines: "splitOn LF (generateOrt numStr (VObj es)) = ?L" by simp
  have c: "countDataLines [] = 0" by simp
  from section_run [OF se c, of "[]" "[]"]
  have "parseOrtLoop toNum ?L 0 [] = parseOrtLoop toNum ?L (length ?L) (setKey (fst e) (snd e) [])"
    by simp
  also have "\<dots> = Inr (VObj (setKey (fst e) (snd e) []))"
    by (subst parseOrtLoop.simps) simp
  also have "setKey (fst e) (snd e) [] = assignAll [] es" using es by simp
  finally show ?thesis using lines sections_keys [OF s d] by (simp add: parseOrt_def)
next
  case False
  then have g: "generateOrt numStr (VObj es) = generateMultiObject numStr es"
    by (cases es) (auto simp: generateOrt_def objectKeys_def)
  show ?thesis
  proof (cases "es = []")
    case True
    have "parseOrtLoop toNum [[]] 0 [] = parseOrtLoop toNum [[]] 1 []"
      using blank_skip [of toNum "[]" "[]" "[]"] by simp
    also have "\<dots> = Inr (VObj [])" by (subst parseOrtLoop.simps) simp
    finally show ?thesis using True g by (simp add: parseOrt_def)
  next
    case ne: False
    from multi_lines [OF ne s] sections_run [OF s, of "[]" "[]"] sections_keys [OF s d] g
    show ?thesis by (simp add: parseOrt_def)
  qed
qed

lemma round_trip_array:
  assumes t: "tableOK toNum numStr rows" and n: "2 \<le> length rows"
  shows "parseOrt toNum (generateOrt numStr (VArr rows)) = Inr (VArr rows)"
proof -
  let ?first = "entriesOf (hd rows)"
  let ?flds = "fieldsOf ?first"
  let ?H = "generateHeaderFields ?first"
  let ?hdr = "'':'' @ ?H @ '':''"
  let ?ds = "map (rowText numStr (map name ?flds)) rows"
  define ls where "ls = ?hdr # ?ds"
  note T = table_facts [OF t]
  note H = header_text [OF T(4) T(2)]
  note hd = anonymous_header [OF H]
  note R = rows_lines [OF T(4) T(3) T(5)]
  from R have nb: "\<forall>t \<in> set ?ds. \<not> blankOrComment t" and nh: "\<forall>raw \<in> set ?ds. \<not> headerLine raw"
    and lf: "\<forall>t \<in> set ?ds. LF \<notin> set t" by blast+
  from T(1) T(6) T(7) have "generateOrt numStr (VArr rows) = joinWith [LF] ls"
    by (simp add: generateOrt_def generateTopLevelObjectArray_def generateHeader_def Let_def ls_def)
  moreover from lf hd(4) have "\<forall>t \<in> set ls. LF \<notin> set t" unfolding ls_def by simp
  ultimately have lines: "splitOn LF (generateOrt numStr (VArr rows)) = ls"
    using splitOn_join [of ls] by (simp add: ls_def)
  from countDataLines_no_header [OF nh, of "[]"] dataRowCount_all [OF nb]
  have cnt: "countDataLines ?ds = length rows" by simp
  have i: "0 < length ls" and st: "startsWith (trim (ls ! 0)) '':''"
    unfolding ls_def using hd(1,2) by simp_all
  have sec: "parseSection ls 0 = Inr (None, ?flds, length rows)"
    unfolding parseSection_def ls_def
    using hd(1) hd(3) [of 1] header_fields_parse [OF T(4), of ?hdr 1] cnt by (simp add: Let_def)
  have dl: "parseDataLines toNum ls (0 + 1) ?flds (length rows) = Inr (VArr rows)"
    unfolding parseDataLines_def ls_def
    using parse_rows [OF T(4) T(3) T(5), of 0 "length rows" 1 "[]"] by simp
  from n have n1: "length rows \<noteq> 1" by simp
  from parseOrtLoop_anonymous [OF i st, of toNum "[]"] sec dl n1 lines
  show ?thesis by (simp add: parseOrt_def)
qed

text \<open>
  The empty array at the top level is written as \<^verbatim>\<open>:[]\<close>, an anonymous header with no
  data lines, and read back as the empty array.
\<close>

lemma empty_array_text: "generateOrt numStr (VArr []) = '':[]''"
  by (simp add: generateOrt_def isUniformObjectArray_def)

lemma empty_array_lines: "splitOn LF '':[]'' = ['':[]'']"
  by code_simp

lemma empty_array_section2: "parseSection ['':[]''] 0 = Inr (None, [Field ''[]'' []], 0) "
  by code_simp

lemma empty_array_rows: "parseDataLines toNum ['':[]''] (0 + 1) flds 0 = Inr (VArr [])"
  by (simp add: parseDataLines_def)

lemma round_trip_empty_array:
  "parseOrt toNum (generateOrt numStr (VArr [])) = Inr (VArr [])"
proof -
  have i: "0 < length ['':[]'']" by simp
  have st: "startsWith (trim (['':[]''] ! 0)) '':''" by code_simp
  from parseOrtLoop_anonymous [OF i st, of toNum "[]"] empty_array_section2 empty_array_rows [of toNum]
  show ?thesis by (simp add: parseOrt_def empty_array_text empty_array_lines)
qed

text \<open>
  Rows with their keys in another order than the first row: the generated text is that
  of the rows in the order of the header.
\<close>

lemma sameEntries_cases:
  assumes "sameEntries v w"
  obtains es fs where "v = VObj es" "w = VObj fs" "distinct (map fst es)" "distinct (map fst fs)"
    "set es = set fs"
  using assms by (cases v; cases w) simp_all

lemma sameEntries_getKey:
  assumes "sameEntries v w"
  shows "getKey (entriesOf v) k = getKey (entriesOf w) k"
proof -
  from assms obtain es fs where "v = VObj es" "w = VObj fs" "distinct (map fst es)"
    "distinct (map fst fs)" "set es = set fs" by (rule sameEntries_cases)
  then show ?thesis using map_of_inject_set [of es fs] by (simp add: getKey_def)
qed

lemma sameEntries_rowText:
  "sameEntries v w \<Longrightarrow> rowText numStr keys v = rowText numStr keys w"
  by (simp add: rowText_def sameEntries_getKey [of v w])

lemma sameEntries_keys:
  assumes "sameEntries (VObj es) (VObj fs)"
  shows "sort (objectKeys es) = sort (objectKeys fs)"
proof -
  from assms have d: "distinct (map fst es)" "distinct (map fst fs)" and s: "set es = set fs" by simp_all
  from s have "set (map fst es) = set (map fst fs)" by simp
  with d show ?thesis
    by (intro sorted_distinct_set_unique) (simp_all add: objectKeys_def)
qed

lemma sameRows_sameKeysLoop:
  "list_all2 sameEntries rows rows' \<Longrightarrow> sameKeysLoop ks rows = sameKeysLoop ks rows'"
proof (induction rows rows' rule: list_all2_induct)
  case Nil
  show ?case by simp
next
  case (Cons v rows w rows')
  from Cons.hyps(1) obtain es fs where vw: "v = VObj es" "w = VObj fs" by (rule sameEntries_cases)
  with Cons.hyps(1) have "sort (objectKeys es) = sort (objectKeys fs)" using sameEntries_keys by blast
  with vw Cons.IH show ?case by (simp add: Let_def)
qed

lemma sameRows_uniform:
  assumes "sameRows rows rows'"
  shows "isUniformObjectArray rows = isUniformObjectArray rows'"
proof -
  from assms obtain v vs w ws where r: "rows = v # vs" "rows' = w # ws"
    by (cases rows; cases rows') (simp_all add: sameRows_def isUniformObjectArray_def)
  with assms have "v = w" "list_all2 sameEntries vs ws" by (simp_all add: sameRows_def)
  with r sameRows_sameKeysLoop [of vs ws] show ?thesis
    by (simp add: isUniformObjectArray_def Let_def split: val.splits)
qed

lemma sameRows_texts:
  "list_all2 sameEntries rows rows' \<Longrightarrow>
     map (rowText numStr keys) rows = map (rowText numStr keys) rows'"
  by (induction rows rows' rule: list_all2_induct) (simp_all add: sameEntries_rowText)

lemma sameRows_length: "sameRows rows rows' \<Longrightarrow> length rows = length rows'"
  by (auto simp: sameRows_def dest: list_all2_lengthD)

lemma sameRows_objectArray:
  assumes "sameRows rows rows'"
  shows "generateObjectArray numStr key rows = generateObjectArray numStr key rows'"
    and "generateTopLevelObjectArray numStr rows = generateTopLevelObjectArray numStr rows'"
  using assms sameRows_texts [of rows rows' numStr "objectKeys (entriesOf (hd rows'))"]
    sameRows_length [OF assms]
  by (simp_all add: generateObjectArray_def generateTopLevelObjectArray_def sameRows_def Let_def)


lemma sameSection_cases:
  assumes "sameSection e e'"
  obtains "e = e'"
  | rows rows' where "fst e = fst e'" "snd e = VArr rows" "snd e' = VArr rows'" "sameRows rows rows'"
proof (cases "snd e = snd e'")
  case True
  with assms have "e = e'" by (simp add: sameSection_def prod_eq_iff)
  then show ?thesis by (rule that(1))
next
  case False
  with assms obtain rows rows' where "snd e = VArr rows" "snd e' = VArr rows'" "sameRows rows rows'"
    by (auto simp: sameSection_def split: val.splits)
  with assms show ?thesis using that(2) by (simp add: sameSection_def)
qed

lemma sameRows_facts:
  assumes "sameRows rows rows'"
  shows "isUniformObjectArray rows" "isUniformObjectArray rows'" "length rows = length rows'"
    "rows \<noteq> []" "rows' \<noteq> []" "hd rows = hd rows'"
proof -
  from assms show u: "isUniformObjectArray rows'" and "hd rows = hd rows'" by (simp_all add: sameRows_def)
  from u sameRows_uniform [OF assms] show "isUniformObjectArray rows" by simp
  show l: "length rows = length rows'" by (rule sameRows_length [OF assms])
  from u show "rows' \<noteq> []" by (auto simp: isUniformObjectArray_def)
  with l show "rows \<noteq> []" by auto
qed

lemma sameSection_block:
  assumes "sameSection e e'"
  shows "entryBlock numStr (fst e) (snd e) = entryBlock numStr (fst e') (snd e')"
    and "sectionLines numStr (fst e) (snd e) = sectionLines numStr (fst e') (snd e')"
proof -
  from assms show "entryBlock numStr (fst e) (snd e) = entryBlock numStr (fst e') (snd e')"
  proof (cases rule: sameSection_cases)
    case 1
    then show ?thesis by simp
  next
    case (2 rows rows')
    from sameRows_facts [OF 2(4)] sameRows_objectArray(1) [OF 2(4), of numStr "fst e'"] 2(1,2,3)
    show ?thesis by (simp add: entryBlock_def)
  qed
  from assms show "sectionLines numStr (fst e) (snd e) = sectionLines numStr (fst e') (snd e')"
  proof (cases rule: sameSection_cases)
    case 1
    then show ?thesis by simp
  next
    case (2 rows rows')
    from sameRows_facts [OF 2(4)] 2(1,2,3)
      sameRows_texts [of rows rows' numStr "objectKeys (entriesOf (hd rows'))"] 2(4)
    show ?thesis by (simp add: sectionLines_def sameRows_def)
  qed
qed

lemma sameSection_multi:
  "list_all2 sameSection es es' \<Longrightarrow> generateMultiObject numStr es = generateMultiObject numStr es'"
proof (induction es es' rule: list_all2_induct)
  case Nil
  show ?case by simp
next
  case (Cons e es e' es')
  from Cons.hyps(2) have l: "length es = length es'" by (rule list_all2_lengthD)
  show ?case
  proof (cases es)
    case Nil
    with l have "es' = []" by simp
    with Nil sameSection_block(1) [OF Cons.hyps(1), of numStr] show ?thesis by simp
  next
    case (Cons a as)
    with l obtain b bs where "es' = b # bs" by (cases es') simp_all
    with Cons sameSection_block(1) [OF \<open>sameSection e e'\<close>, of numStr] Cons.IH show ?thesis by simp
  qed
qed

lemma sameSection_document:
  assumes "list_all2 sameSection es es'"
  shows "generateOrt numStr (VObj es) = generateOrt numStr (VObj es')"
proof -
  from assms have l: "length es = length es'" by (rule list_all2_lengthD)
  show ?thesis
  proof (cases "length es = 1")
    case False
    with l have "length es' \<noteq> 1" by simp
    with False have c: "length es > 1 \<or> length es = 0" "length es' > 1 \<or> length es' = 0"
      by arith+
    then show ?thesis using sameSection_multi [OF assms, of numStr]
      by (simp only: generateOrt_def objectKeys_def val.case length_map if_True)
  next
    case True
    with l obtain e e' where es: "es = [e]" "es' = [e']"
      by (cases es; cases es') simp_all
    with assms have s: "sameSection e e'" by simp
    then show ?thesis
    proof (cases rule: sameSection_cases)
      case 1
      with es show ?thesis by simp
    next
      case (2 rows rows')
      from sameRows_facts [OF 2(4)] sameRows_objectArray(1) [OF 2(4), of numStr "fst e'"] 2(1,2,3) es
      show ?thesis by (simp add: generateOrt_def objectKeys_def)
    qed
  qed
qed

lemma round_trip_object_rows:
  assumes "list_all2 sameSection es es'" "distinct (map fst es')"
    "list_all (sectionOK toNum numStr) es'"
  shows "parseOrt toNum (generateOrt numStr (VObj es)) = Inr (VObj es')"
  using sameSection_document [OF assms(1), of numStr] round_trip_object [OF assms(2,3)] by simp

lemma round_trip_array_rows:
  assumes "sameRows rows rows'" "tableOK toNum numStr rows'" "2 \<le> length rows'"
  shows "parseOrt toNum (generateOrt numStr (VArr rows)) = Inr (VArr rows')"
proof -
  from sameRows_facts [OF assms(1)] sameRows_objectArray(2) [OF assms(1), of numStr]
  have "generateOrt numStr (VArr rows) = generateOrt numStr (VArr rows')"
    by (simp add: generateOrt_def)
  with round_trip_array [OF assms(2,3)] show ?thesis by simp
qed




end
